(* ===== verification/Prelude.thy ===== *)
theory Prelude
  imports Main "HOL-Library.Sublist"
begin

text \<open>
  Shared vocabulary of the development: JavaScript strings as sequences of UTF-16 code
  units, the \<open>String.prototype\<close> operations the scripts use, the errors they can raise,
  and the list lemmas the component theories rely on.

  A code unit is an \<open>int\<close>; \<open>units\<close> says that every element is in the 16-bit range.
  Positions and lengths are \<open>nat\<close>; results that JavaScript reports as \<open>-1\<close> are \<open>int\<close>.
\<close>

section \<open>Strings and errors\<close>

type_synonym jstr = "int list"

definition lit :: "string \<Rightarrow> jstr" where
  "lit s = map of_char s"

definition units :: "jstr \<Rightarrow> bool" where
  "units s \<longleftrightarrow> (\<forall>c \<in> set s. 0 \<le> c \<and> c < 65536)"

datatype js_error =
    TypeError
  | URIError
  | PlainError jstr

named_theorems js_eval \<open>definitions unfolded when a closed call is evaluated\<close>
named_theorems str_laws \<open>characteristic laws of the string operations\<close>

lemmas [js_eval] = lit_def

section \<open>Searching in strings\<close>

text \<open>
  \<open>str_find p s\<close> is the position of the first occurrence of \<open>p\<close> in \<open>s\<close>;
  \<open>indexOf\<close> and \<open>lastIndexOf\<close> are JavaScript's methods with \<open>-1\<close> for no occurrence.
\<close>

primrec str_find :: "jstr \<Rightarrow> jstr \<Rightarrow> nat option" where
  "str_find p [] = (if p = [] then Some 0 else None)"
| "str_find p (c # cs) =
     (if prefix p (c # cs) then Some 0 else map_option Suc (str_find p cs))"

definition indexOf :: "jstr \<Rightarrow> jstr \<Rightarrow> int" where
  "indexOf s p = (case str_find p s of None \<Rightarrow> -1 | Some i \<Rightarrow> int i)"

primrec last_pos :: "int \<Rightarrow> jstr \<Rightarrow> nat option" where
  "last_pos c [] = None"
| "last_pos c (x # xs) =
     (case last_pos c xs of
        Some i \<Rightarrow> Some (Suc i)
      | None \<Rightarrow> (if x = c then Some 0 else None))"

definition lastIndexOf :: "jstr \<Rightarrow> int \<Rightarrow> int" where
  "lastIndexOf s c = (case last_pos c s of None \<Rightarrow> -1 | Some i \<Rightarrow> int i)"

lemma str_find_SomeD:
  "str_find p s = Some i \<Longrightarrow>
     i + length p \<le> length s \<and> prefix p (drop i s) \<and> (\<forall>j < i. \<not> prefix p (drop j s))"
proof (induction s arbitrary: i)
  case Nil
  then show ?case by (simp split: if_splits)
next
  case (Cons c cs)
  show ?case
  proof (cases "prefix p (c # cs)")
    case True
    with Cons.prems show ?thesis by (auto dest: prefix_length_le)
  next
    case False
    with Cons.prems obtain k where k: "str_find p cs = Some k" and i: "i = Suc k" by auto
    from Cons.IH [OF k] have
      ih: "k + length p \<le> length cs" "prefix p (drop k cs)"
        "\<And>j. j < k \<Longrightarrow> \<not> prefix p (drop j cs)"
      by auto
    have "\<not> prefix p (drop j (c # cs))" if "j < i" for j
      using that False ih(3) i by (cases j) auto
    with ih i show ?thesis by simp
  qed
qed

lemma str_find_None_iff: "str_find p s = None \<longleftrightarrow> \<not> sublist p s"
  by (induction s) (auto simp: sublist_Cons_right)

lemma str_find_Some_iff: "(\<exists>i. str_find p s = Some i) \<longleftrightarrow> sublist p s"
  using str_find_None_iff [of p s] by (cases "str_find p s") auto

lemma indexOf_nonneg_iff [str_laws]: "0 \<le> indexOf s p \<longleftrightarrow> sublist p s"
  using str_find_None_iff [of p s] by (cases "str_find p s") (auto simp: indexOf_def)

lemma indexOf_eq_minus_one_iff [str_laws]: "indexOf s p = -1 \<longleftrightarrow> \<not> sublist p s"
  using str_find_None_iff [of p s] by (cases "str_find p s") (auto simp: indexOf_def)

lemma indexOf_gt_minus_one_iff [str_laws]: "-1 < indexOf s p \<longleftrightarrow> sublist p s"
  using indexOf_nonneg_iff [of s p] by linarith

lemma indexOf_upper: "indexOf s p \<le> int (length s)"
  by (auto simp: indexOf_def split: option.splits dest: str_find_SomeD)

section \<open>Splitting and joining\<close>

text \<open>
  \<open>split_char c s\<close> is \<open>s.split(c)\<close> for a one-character separator: \<open>split_char\<close> of the
  empty string is one empty piece, as in JavaScript. \<open>join sep\<close> is \<open>Array.join\<close>.
\<close>

primrec split_char :: "int \<Rightarrow> jstr \<Rightarrow> jstr list" where
  "split_char c [] = [[]]"
| "split_char c (x # xs) =
     (if x = c then [] # split_char c xs
      else (x # hd (split_char c xs)) # tl (split_char c xs))"

fun join :: "jstr \<Rightarrow> jstr list \<Rightarrow> jstr" where
  "join sep [] = []"
| "join sep [x] = x"
| "join sep (x # xs) = x @ sep @ join sep xs"

lemma split_char_not_Nil [simp]: "split_char c s \<noteq> []"
  by (cases s) auto

lemma join_Cons: "xs \<noteq> [] \<Longrightarrow> join sep (x # xs) = x @ sep @ join sep xs"
  by (cases xs) auto

lemma join_split_char: "join [c] (split_char c s) = s"
proof (induction s)
  case Nil
  then show ?case by simp
next
  case (Cons x xs)
  obtain y ys where ys: "split_char c xs = y # ys"
    by (metis list.exhaust split_char_not_Nil)
  with Cons show ?case by (cases ys) auto
qed

lemma split_char_no_sep: "p \<in> set (split_char c s) \<Longrightarrow> c \<notin> set p"
proof (induction s arbitrary: p)
  case Nil
  then show ?case by simp
next
  case (Cons x xs)
  obtain y ys where ys: "split_char c xs = y # ys"
    by (metis list.exhaust split_char_not_Nil)
  with Cons.IH have "\<And>q. q = y \<or> q \<in> set ys \<Longrightarrow> c \<notin> set q" by auto
  with ys Cons.prems show ?case by (auto split: if_splits)
qed

lemma split_char_append_sep:
  "c \<notin> set u \<Longrightarrow> split_char c (u @ c # v) = u # split_char c v"
  by (induction u) auto

lemma split_char_no_occurrence: "c \<notin> set u \<Longrightarrow> split_char c u = [u]"
  by (induction u) auto

lemma split_char_join:
  "ps \<noteq> [] \<Longrightarrow> (\<And>p. p \<in> set ps \<Longrightarrow> c \<notin> set p) \<Longrightarrow> split_char c (join [c] ps) = ps"
proof (induction ps)
  case (Cons p ps)
  then show ?case
    by (cases ps) (simp_all add: split_char_no_occurrence split_char_append_sep join_Cons)
qed simp

section \<open>Substrings\<close>

text \<open>
  \<open>substr s from n\<close> with a negative \<open>from\<close> counts from the end, as in JavaScript;
  \<open>substring s a b\<close> clamps both ends to the string and swaps them when \<open>b < a\<close>.
\<close>

definition substr_from :: "jstr \<Rightarrow> int \<Rightarrow> jstr" where
  "substr_from s i = (if 0 \<le> i then drop (nat i) s else drop (length s - nat (- i)) s)"

definition substr :: "jstr \<Rightarrow> int \<Rightarrow> nat \<Rightarrow> jstr" where
  "substr s i n = take n (substr_from s i)"

definition substring :: "jstr \<Rightarrow> int \<Rightarrow> int \<Rightarrow> jstr" where
  "substring s a b =
     (let lo = nat (min (max a 0) (int (length s)));
          hi = nat (min (max b 0) (int (length s)))
      in drop (min lo hi) (take (max lo hi) s))"

lemmas [js_eval] = substr_from_def substr_def substring_def indexOf_def lastIndexOf_def

lemma length_substr: "length (substr s i n) \<le> n"
  by (simp add: substr_def)

section \<open>Lists\<close>

lemma distinct_snoc_if:
  "distinct xs \<Longrightarrow> distinct (if x \<in> set xs then xs else xs @ [x])"
  by auto

lemma concat_map_singleton_filter:
  "concat (map (\<lambda>x. if P x then [f x] else []) xs) = map f (filter P xs)"
  by (induction xs) auto

lemma concat_map_concat_map:
  "concat (map f (concat (map g xs))) = concat (map (\<lambda>x. concat (map f (g x))) xs)"
  by (induction xs) auto

lemma map_of_filter_key:
  "P k \<Longrightarrow> map_of (filter (\<lambda>(n, _). P n) xs) k = map_of xs k"
  by (induction xs) auto

lemma in_set_drop_nth:
  assumes "x \<in> set (drop k xs)"
  shows "\<exists>i. k \<le> i \<and> i < length xs \<and> x = xs ! i"
proof -
  from assms obtain j where "j < length xs - k" "x = drop k xs ! j"
    by (auto simp: in_set_conv_nth)
  then show ?thesis by (intro exI [of _ "k + j"]) auto
qed

lemma foldl_snoc_if:
  "foldl (\<lambda>acc x. if P x then acc @ [f x] else acc) a xs = a @ map f (filter P xs)"
  by (induction xs arbitrary: a) auto

section \<open>Words\<close>

text \<open>The maximal runs of characters that are not separators.\<close>

lemma dropWhile_Cons_less: "dropWhile P s = c # cs \<Longrightarrow> length (dropWhile Q cs) < length s"
  using length_dropWhile_le [of P s] length_dropWhile_le [of Q cs] by simp

function words_of :: "(int \<Rightarrow> bool) \<Rightarrow> jstr \<Rightarrow> jstr list" where
  "words_of sep s =
     (case dropWhile sep s of
        [] \<Rightarrow> []
      | c # cs \<Rightarrow> (c # takeWhile (\<lambda>x. \<not> sep x) cs) #
                  words_of sep (dropWhile (\<lambda>x. \<not> sep x) cs))"
  by pat_completeness auto
termination
  by (relation "measure (\<lambda>(sep, s). length s)") (auto dest: dropWhile_Cons_less)

declare words_of.simps [simp del]

lemma words_of_Nil [simp]: "words_of sep [] = []"
  by (simp add: words_of.simps)

lemma words_of_sep [simp]: "sep c \<Longrightarrow> words_of sep (c # cs) = words_of sep cs"
  by (subst (1 2) words_of.simps) simp

lemma words_of_word:
  "\<not> sep c \<Longrightarrow> words_of sep (c # cs) =
     (c # takeWhile (\<lambda>x. \<not> sep x) cs) # words_of sep (dropWhile (\<lambda>x. \<not> sep x) cs)"
  by (subst words_of.simps) simp

lemma words_of_not_empty: "w \<in> set (words_of sep s) \<Longrightarrow> w \<noteq> []"
proof (induction sep s rule: words_of.induct)
  case (1 sep s)
  show ?case
  proof (cases "dropWhile sep s")
    case Nil
    with "1.prems" show ?thesis by (simp add: words_of.simps [of sep s])
  next
    case (Cons c cs)
    with "1.prems" "1.IH" [OF Cons] show ?thesis
      by (auto simp: words_of.simps [of sep s])
  qed
qed

lemma words_of_no_sep: "w \<in> set (words_of sep s) \<Longrightarrow> c \<in> set w \<Longrightarrow> \<not> sep c"
proof (induction sep s rule: words_of.induct)
  case (1 sep s)
  show ?case
  proof (cases "dropWhile sep s")
    case Nil
    with "1.prems" show ?thesis by (simp add: words_of.simps [of sep s])
  next
    case (Cons d ds)
    then have "\<not> sep d" by (metis hd_dropWhile list.distinct(1) list.sel(1))
    with Cons "1.prems" "1.IH" [OF Cons] show ?thesis
      by (auto simp: words_of.simps [of sep s] dest: set_takeWhileD)
  qed
qed

lemma filter_takeWhile_all: "filter P (takeWhile P xs) = takeWhile P xs"
  by (induction xs) auto

lemma filter_dropWhile_neg: "filter (\<lambda>x. \<not> P x) (dropWhile P xs) = filter (\<lambda>x. \<not> P x) xs"
  by (induction xs) auto

lemma concat_words_of: "concat (words_of sep s) = filter (\<lambda>c. \<not> sep c) s"
proof (induction sep s rule: words_of.induct)
  case (1 sep s)
  show ?case
  proof (cases "dropWhile sep s")
    case Nil
    then have "filter (\<lambda>c. \<not> sep c) s = []" by (metis filter.simps(1) filter_dropWhile_neg)
    moreover from Nil have "words_of sep s = []" by (simp only: words_of.simps [of sep s] list.case)
    ultimately show ?thesis by simp
  next
    case (Cons c cs)
    then have c: "\<not> sep c" by (metis hd_dropWhile list.distinct(1) list.sel(1))
    have "filter (\<lambda>c. \<not> sep c) s = filter (\<lambda>c. \<not> sep c) (c # cs)"
      by (metis Cons filter_dropWhile_neg)
    also have "\<dots> = c # filter (\<lambda>c. \<not> sep c) (takeWhile (\<lambda>x. \<not> sep x) cs) @
        filter (\<lambda>c. \<not> sep c) (dropWhile (\<lambda>x. \<not> sep x) cs)"
      using c by (simp flip: filter_append)
    also have "\<dots> = concat (words_of sep s)"
      using "1.IH" [OF Cons] Cons by (simp add: words_of.simps [of sep s] filter_takeWhile_all)
    finally show ?thesis by simp
  qed
qed

section \<open>Refinement\<close>

text \<open>
  Operations on concrete states that implement operations on abstract ones: \<open>abs\<close> is the
  abstraction function and \<open>inv\<close> the invariant of the concrete states.
\<close>

locale simulation =
  fixes step :: "'o \<Rightarrow> 's \<Rightarrow> 's"
    and spec :: "'o \<Rightarrow> 'a \<Rightarrow> 'a"
    and abs :: "'s \<Rightarrow> 'a"
    and inv :: "'s \<Rightarrow> bool"
  assumes inv_step: "inv s \<Longrightarrow> inv (step p s)"
    and abs_step: "inv s \<Longrightarrow> abs (step p s) = spec p (abs s)"
begin

lemma inv_run: "inv s \<Longrightarrow> inv (fold step ps s)"
  by (induction ps arbitrary: s) (simp_all add: inv_step)

lemma abs_run: "inv s \<Longrightarrow> abs (fold step ps s) = fold spec ps (abs s)"
  by (induction ps arbitrary: s) (simp_all add: inv_step abs_step)

end

end
