(* ===== verification/JS_Values.thy ===== *)
theory JS_Values
  imports Prelude
begin

text \<open>
  JavaScript values, as the scripts pass them around. Numbers are the integers with \<open>NaN\<close>, the
  infinities and \<open>-0\<close> (the scripts compute indices, counts, scores and times; fractional
  doubles are outside the model). Arrays, objects and functions carry an identity, so that
  \<open>===\<close> compares references; an object is its own enumerable properties in the order the engine
  enumerates them, with no inherited properties. Functions are opaque values (identity,
  \<open>length\<close> and source text); functions the scripts call are HOL functions.

  \<open>obj_put\<close> is assignment to a property: integer keys are enumerated first, in ascending order,
  then the other keys in the order of their creation. The locale \<open>dictionary\<close> states the laws
  of a store of properties that its clients use.
\<close>

section \<open>Numbers\<close>

datatype jsnum = NaN | NInf | Fin int | NZero | PInf

fun num_eq :: "jsnum \<Rightarrow> jsnum \<Rightarrow> bool" where
  "num_eq NaN b = False"
| "num_eq a NaN = False"
| "num_eq NZero (Fin n) = (n = 0)"
| "num_eq (Fin n) NZero = (n = 0)"
| "num_eq a b = (a = b)"

fun num_lt :: "jsnum \<Rightarrow> jsnum \<Rightarrow> bool" where
  "num_lt NaN b = False"
| "num_lt a NaN = False"
| "num_lt NInf b = (b \<noteq> NInf)"
| "num_lt a NInf = False"
| "num_lt PInf b = False"
| "num_lt a PInf = True"
| "num_lt (Fin m) (Fin n) = (m < n)"
| "num_lt (Fin m) NZero = (m < 0)"
| "num_lt NZero (Fin n) = (0 < n)"
| "num_lt NZero NZero = False"

section \<open>Values\<close>

datatype jsval =
    VUndef
  | VNull
  | VBool bool
  | VNum jsnum
  | VStr jstr
  | VArr nat "jsval list"
  | VObj nat "(jstr \<times> jsval) list"
  | VFun nat nat jstr   \<comment> \<open>identity, length, source text\<close>

abbreviation VInt :: "int \<Rightarrow> jsval" where
  "VInt n \<equiv> VNum (Fin n)"

fun strict_eq :: "jsval \<Rightarrow> jsval \<Rightarrow> bool" where
  "strict_eq VUndef b = (b = VUndef)"
| "strict_eq VNull b = (b = VNull)"
| "strict_eq (VBool x) b = (b = VBool x)"
| "strict_eq (VNum m) b = (case b of VNum n \<Rightarrow> num_eq m n | _ \<Rightarrow> False)"
| "strict_eq (VStr s) b = (b = VStr s)"
| "strict_eq (VArr i _) b = (case b of VArr j _ \<Rightarrow> i = j | _ \<Rightarrow> False)"
| "strict_eq (VObj i _) b = (case b of VObj j _ \<Rightarrow> i = j | _ \<Rightarrow> False)"
| "strict_eq (VFun i _ _) b = (case b of VFun j _ _ \<Rightarrow> i = j | _ \<Rightarrow> False)"

text \<open>\<open>v == null\<close> and \<open>!!v\<close>.\<close>

definition nullish :: "jsval \<Rightarrow> bool" where
  "nullish v = (v = VUndef \<or> v = VNull)"

fun truthy :: "jsval \<Rightarrow> bool" where
  "truthy VUndef = False"
| "truthy VNull = False"
| "truthy (VBool b) = b"
| "truthy (VNum n) = (n \<noteq> NaN \<and> n \<noteq> Fin 0 \<and> n \<noteq> NZero)"
| "truthy (VStr s) = (s \<noteq> [])"
| "truthy _ = True"

lemma strict_eq_refl: "v \<noteq> VNum NaN \<Longrightarrow> strict_eq v v"
proof (cases v)
  case (VNum n)
  then show "v \<noteq> VNum NaN \<Longrightarrow> ?thesis" by (cases n) auto
qed auto

section \<open>Decimal keys\<close>

text \<open>\<open>dec n\<close> is the decimal numeral of a natural number, JavaScript's \<open>'' + n\<close>.\<close>

fun dec :: "nat \<Rightarrow> jstr" where
  "dec n = (if n < 10 then [48 + int n] else dec (n div 10) @ [48 + int (n mod 10)])"

declare dec.simps [simp del]

definition dec_val :: "jstr \<Rightarrow> nat" where
  "dec_val s = foldl (\<lambda>a c. 10 * a + nat (c - 48)) 0 s"

definition is_digits :: "jstr \<Rightarrow> bool" where
  "is_digits s = (s \<noteq> [] \<and> list_all (\<lambda>c. 48 \<le> c \<and> c \<le> 57) s)"

definition index_key :: "jstr \<Rightarrow> bool" where
  "index_key k = (is_digits k \<and> (hd k \<noteq> 48 \<or> k = [48]) \<and> int (dec_val k) < 4294967295)"

lemma dec_val_dec: "dec_val (dec n) = n"
proof (induction n rule: dec.induct)
  case (1 n)
  show ?case
  proof (cases "n < 10")
    case True
    then show ?thesis by (simp add: dec.simps dec_val_def)
  next
    case False
    with 1 have "dec_val (dec (n div 10)) = n div 10" by simp
    with False show ?thesis by (subst dec.simps) (simp add: dec_val_def)
  qed
qed

lemma dec_inj: "dec m = dec n \<longleftrightarrow> m = n"
  by (metis dec_val_dec)

lemma is_digits_dec: "is_digits (dec n)"
proof (induction n rule: dec.induct)
  case (1 n)
  then show ?case
    by (cases "n < 10") (auto simp: dec.simps [of n] is_digits_def)
qed

section \<open>Property stores\<close>

definition key_before :: "jstr \<Rightarrow> jstr \<Rightarrow> bool" where
  "key_before k k' = (index_key k \<and> (\<not> index_key k' \<or> dec_val k < dec_val k'))"

fun insert_key :: "jstr \<Rightarrow> 'v \<Rightarrow> (jstr \<times> 'v) list \<Rightarrow> (jstr \<times> 'v) list" where
  "insert_key k v [] = [(k, v)]"
| "insert_key k v ((k', v') # ps) =
     (if key_before k k' then (k, v) # (k', v') # ps else (k', v') # insert_key k v ps)"

definition obj_put :: "jstr \<Rightarrow> 'v \<Rightarrow> (jstr \<times> 'v) list \<Rightarrow> (jstr \<times> 'v) list" where
  "obj_put k v ps =
     (if k \<in> fst ` set ps then map (\<lambda>(k', v'). if k' = k then (k, v) else (k', v')) ps
      else insert_key k v ps)"

definition obj_get :: "(jstr \<times> 'v) list \<Rightarrow> jstr \<Rightarrow> 'v option" where
  "obj_get ps k = map_of ps k"

definition obj_ok :: "(jstr \<times> 'v) list \<Rightarrow> bool" where
  "obj_ok ps = distinct (map fst ps)"

lemma map_of_insert_key:
  "k \<notin> fst ` set ps \<Longrightarrow> map_of (insert_key k v ps) = (map_of ps)(k \<mapsto> v)"
  by (induction k v ps rule: insert_key.induct) (auto simp: fun_eq_iff)

lemma keys_insert_key: "fst ` set (insert_key k v ps) = insert k (fst ` set ps)"
  by (induction k v ps rule: insert_key.induct) auto

lemma distinct_insert_key:
  "k \<notin> fst ` set ps \<Longrightarrow> distinct (map fst ps) \<Longrightarrow> distinct (map fst (insert_key k v ps))"
  by (induction k v ps rule: insert_key.induct) (auto simp: keys_insert_key)

lemma map_of_replace:
  "k \<in> fst ` set ps \<Longrightarrow>
     map_of (map (\<lambda>(k', v'). if k' = k then (k, v) else (k', v')) ps) = (map_of ps)(k \<mapsto> v)"
proof -
  have "map_of (map (\<lambda>(k', v'). if k' = k then (k, v) else (k', v')) ps) j =
      (if j = k \<and> k \<in> fst ` set ps then Some v else map_of ps j)" for j
  proof (induction ps)
    case (Cons p ps)
    then show ?case by (cases p; cases "j = k"; cases "fst p = k") auto
  qed simp
  then show "k \<in> fst ` set ps \<Longrightarrow> ?thesis" by (auto simp: fun_eq_iff)
qed

lemma keys_replace:
  "map fst (map (\<lambda>(k', v'). if k' = k then (k, v) else (k', v')) ps) = map fst ps"
  by (induction ps) auto

lemma obj_get_put: "obj_get (obj_put k v ps) j = (if j = k then Some v else obj_get ps j)"
  by (simp add: obj_get_def obj_put_def map_of_insert_key map_of_replace)

lemma obj_ok_put: "obj_ok ps \<Longrightarrow> obj_ok (obj_put k v ps)"
  by (simp add: obj_ok_def obj_put_def distinct_insert_key keys_replace del: map_map)

lemma obj_put_fresh_plain:
  "k \<notin> fst ` set ps \<Longrightarrow> \<not> index_key k \<Longrightarrow> obj_put k v ps = ps @ [(k, v)]"
proof -
  have "\<not> index_key k \<Longrightarrow> insert_key k v ps = ps @ [(k, v)]"
    by (induction k v ps rule: insert_key.induct) (auto simp: key_before_def)
  then show "k \<notin> fst ` set ps \<Longrightarrow> \<not> index_key k \<Longrightarrow> ?thesis" by (simp add: obj_put_def)
qed

text \<open>What clients of a property store rely on; the contents after a sequence of updates.\<close>

locale dictionary =
  fixes empty :: 'd
    and get :: "'d \<Rightarrow> 'k \<Rightarrow> 'v option"
    and put :: "'k \<Rightarrow> 'v \<Rightarrow> 'd \<Rightarrow> 'd"
    and ok :: "'d \<Rightarrow> bool"
  assumes get_empty: "get empty k = None"
    and get_put: "ok d \<Longrightarrow> get (put k v d) j = (if j = k then Some v else get d j)"
    and ok_empty: "ok empty"
    and ok_put: "ok d \<Longrightarrow> ok (put k v d)"
begin

text \<open>A loop that assigns \<open>upd x (d[f x])\<close> to \<open>d[f x]\<close> for every \<open>x\<close> of a list.\<close>

definition collect :: "('x \<Rightarrow> 'k) \<Rightarrow> ('x \<Rightarrow> 'v option \<Rightarrow> 'v) \<Rightarrow> 'd \<Rightarrow> 'x list \<Rightarrow> 'd" where
  "collect f upd d xs = foldl (\<lambda>d x. put (f x) (upd x (get d (f x))) d) d xs"

lemma collect_Nil [simp]: "collect f upd d [] = d"
  by (simp add: collect_def)

lemma collect_snoc:
  "collect f upd d (xs @ [x]) =
     (let d' = collect f upd d xs in put (f x) (upd x (get d' (f x))) d')"
  by (simp add: collect_def Let_def)

lemma ok_collect: "ok d \<Longrightarrow> ok (collect f upd d xs)"
  by (induction xs rule: rev_induct) (simp_all add: collect_snoc Let_def ok_put)

lemma get_collect:
  "ok d \<Longrightarrow> get (collect f upd d xs) k =
     foldl (\<lambda>v x. Some (upd x v)) (get d k) (filter (\<lambda>x. f x = k) xs)"
  by (induction xs rule: rev_induct) (auto simp: collect_snoc Let_def get_put ok_collect)

end

interpretation props: dictionary "[]" obj_get obj_put obj_ok
  by unfold_locales (simp_all add: obj_get_put obj_ok_put, simp_all add: obj_get_def obj_ok_def)

section \<open>Reading properties\<close>

text \<open>
  \<open>get_prop v k\<close> is \<open>v[k]\<close> for a value that is not nullish: own properties, the \<open>length\<close> and
  the elements of arrays and strings, the \<open>length\<close> of functions. \<open>get_idx v i\<close> is \<open>v[i]\<close> for a
  numeric index.
\<close>

definition nth_or_undef :: "jsval list \<Rightarrow> nat \<Rightarrow> jsval" where
  "nth_or_undef xs i = (if i < length xs then xs ! i else VUndef)"

definition prop_or_undef :: "(jstr \<times> jsval) list \<Rightarrow> jstr \<Rightarrow> jsval" where
  "prop_or_undef ps k = (case obj_get ps k of Some v \<Rightarrow> v | None \<Rightarrow> VUndef)"

fun get_prop :: "jsval \<Rightarrow> jstr \<Rightarrow> jsval" where
  "get_prop (VArr _ xs) k =
     (if k = lit ''length'' then VInt (int (length xs))
      else if index_key k then nth_or_undef xs (dec_val k) else VUndef)"
| "get_prop (VStr s) k =
     (if k = lit ''length'' then VInt (int (length s))
      else if index_key k then nth_or_undef (map (\<lambda>c. VStr [c]) s) (dec_val k) else VUndef)"
| "get_prop (VObj _ ps) k = prop_or_undef ps k"
| "get_prop (VFun _ n _) k = (if k = lit ''length'' then VInt (int n) else VUndef)"
| "get_prop _ k = VUndef"

fun get_idx :: "jsval \<Rightarrow> nat \<Rightarrow> jsval" where
  "get_idx (VArr _ xs) i = nth_or_undef xs i"
| "get_idx (VStr s) i = nth_or_undef (map (\<lambda>c. VStr [c]) s) i"
| "get_idx (VObj _ ps) i = prop_or_undef ps (dec i)"
| "get_idx _ i = VUndef"


section \<open>Conversions and comparison\<close>

text \<open>
  \<open>to_str\<close> is \<open>String(v)\<close> and \<open>to_num\<close> is \<open>Number(v)\<close>. A string converts to a number when it is a
  decimal numeral with an optional sign, an infinity, or blank; fractions, exponents and the
  hexadecimal, octal and binary notations are not recognised.
\<close>

definition int_str :: "int \<Rightarrow> jstr" where
  "int_str n = (if n < 0 then 45 # dec (nat (- n)) else dec (nat n))"

fun num_str :: "jsnum \<Rightarrow> jstr" where
  "num_str NaN = lit ''NaN''"
| "num_str NInf = lit ''-Infinity''"
| "num_str PInf = lit ''Infinity''"
| "num_str NZero = lit ''0''"
| "num_str (Fin n) = int_str n"

fun to_str :: "jsval \<Rightarrow> jstr" where
  "to_str VUndef = lit ''undefined''"
| "to_str VNull = lit ''null''"
| "to_str (VBool b) = (if b then lit ''true'' else lit ''false'')"
| "to_str (VNum n) = num_str n"
| "to_str (VStr s) = s"
| "to_str (VArr _ xs) =
     join (lit '','') (map (\<lambda>x. if x = VUndef \<or> x = VNull then [] else to_str x) xs)"
| "to_str (VObj _ _) = lit ''[object Object]''"
| "to_str (VFun _ _ src) = src"

definition is_ws :: "int \<Rightarrow> bool" where
  "is_ws c = (c \<in> {9, 10, 11, 12, 13, 32, 160, 5760, 8232, 8233, 8239, 8287, 12288, 65279} \<or>
              8192 \<le> c \<and> c \<le> 8202)"

definition trim :: "jstr \<Rightarrow> jstr" where
  "trim s = rev (dropWhile is_ws (rev (dropWhile is_ws s)))"

definition str_num :: "jstr \<Rightarrow> jsnum" where
  "str_num s =
     (let t = trim s in
      if t = [] then Fin 0
      else if is_digits t then Fin (int (dec_val t))
      else if hd t = 45 \<and> is_digits (tl t) then
        (if dec_val (tl t) = 0 then NZero else Fin (- int (dec_val (tl t))))
      else if hd t = 43 \<and> is_digits (tl t) then Fin (int (dec_val (tl t)))
      else if t \<in> {lit ''Infinity'', lit ''+Infinity''} then PInf
      else if t = lit ''-Infinity'' then NInf
      else NaN)"

fun to_num :: "jsval \<Rightarrow> jsnum" where
  "to_num VUndef = NaN"
| "to_num VNull = Fin 0"
| "to_num (VBool b) = Fin (of_bool b)"
| "to_num (VNum n) = n"
| "to_num v = str_num (to_str v)"

fun str_lt :: "jstr \<Rightarrow> jstr \<Rightarrow> bool" where
  "str_lt s [] = False"
| "str_lt [] (d # ds) = True"
| "str_lt (c # cs) (d # ds) = (c < d \<or> c = d \<and> str_lt cs ds)"

fun prim :: "jsval \<Rightarrow> jsval" where
  "prim (VArr i xs) = VStr (to_str (VArr i xs))"
| "prim (VObj i ps) = VStr (to_str (VObj i ps))"
| "prim (VFun i n src) = VStr src"
| "prim v = v"

definition js_lt :: "jsval \<Rightarrow> jsval \<Rightarrow> bool" where
  "js_lt a b =
     (case (prim a, prim b) of
        (VStr s, VStr t) \<Rightarrow> str_lt s t
      | (x, y) \<Rightarrow> num_lt (to_num x) (to_num y))"

lemma js_lt_num [simp]: "js_lt (VNum a) (VNum b) = num_lt a b"
  and js_lt_str [simp]: "js_lt (VStr s) (VStr t) = str_lt s t"
  by (simp_all add: js_lt_def)

lemma num_lt_irrefl [simp]: "\<not> num_lt a a"
  by (cases a) auto

lemma str_lt_irrefl [simp]: "\<not> str_lt s s"
  by (induction s) auto

lemma str_lt_total: "s \<noteq> t \<Longrightarrow> str_lt s t \<or> str_lt t s"
  by (induction s t rule: str_lt.induct) (auto simp: neq_Nil_conv)

lemma str_lt_trans: "str_lt s t \<Longrightarrow> str_lt t u \<Longrightarrow> str_lt s u"
proof (induction s t arbitrary: u rule: str_lt.induct)
  case (2 d ds)
  then show ?case by (cases u) auto
next
  case (3 c cs d ds)
  then show ?case by (cases u) auto
qed simp

lemma str_lt_asym: "str_lt s t \<Longrightarrow> \<not> str_lt t s"
  using str_lt_trans str_lt_irrefl by blast

lemma num_lt_trans: "num_lt a b \<Longrightarrow> num_lt b c \<Longrightarrow> num_lt a c"
  by (cases a; cases b; cases c) auto

text \<open>
  \<open>s.split(/\s+/)\<close>: the pieces between the maximal runs of white space; a run at the start or at
  the end of the string gives an empty piece there.
\<close>

function split_ws :: "jstr \<Rightarrow> jstr list" where
  "split_ws s =
     (let rest = dropWhile (\<lambda>c. \<not> is_ws c) s
      in takeWhile (\<lambda>c. \<not> is_ws c) s #
         (if rest = [] then [] else split_ws (dropWhile is_ws rest)))"
  by pat_completeness auto
termination
proof (relation "measure length")
  fix s rest
  assume r: "rest = dropWhile (\<lambda>c. \<not> is_ws c) s" "rest \<noteq> []"
  then have "is_ws (hd rest)" using hd_dropWhile by blast
  with r(2) have "length (dropWhile is_ws rest) < length rest"
    by (cases rest) (auto simp: le_imp_less_Suc length_dropWhile_le)
  with r(1) show "(dropWhile is_ws rest, s) \<in> measure length"
    using length_dropWhile_le [of "\<lambda>c. \<not> is_ws c" s] by simp
qed simp

declare split_ws.simps [simp del]

lemma split_ws_no_space: "p \<in> set (split_ws s) \<Longrightarrow> c \<in> set p \<Longrightarrow> \<not> is_ws c"
proof (induction s rule: split_ws.induct)
  case (1 s)
  then show ?case
    by (subst (asm) (2) split_ws.simps) (auto simp: Let_def split: if_splits dest: set_takeWhileD)
qed

lemma concat_split_ws: "concat (split_ws s) = filter (\<lambda>c. \<not> is_ws c) s"
proof (induction s rule: split_ws.induct)
  case (1 s)
  let ?rest = "dropWhile (\<lambda>c. \<not> is_ws c) s"
  have drop: "filter (\<lambda>c. \<not> is_ws c) (dropWhile is_ws r) = filter (\<lambda>c. \<not> is_ws c) r" for r
    by (induction r) auto
  have s: "filter (\<lambda>c. \<not> is_ws c) s = takeWhile (\<lambda>c. \<not> is_ws c) s @ filter (\<lambda>c. \<not> is_ws c) ?rest"
    by (induction s) auto
  show ?case
  proof (cases "?rest = []")
    case True
    with s show ?thesis
      by (subst split_ws.simps) (simp add: Let_def del: dropWhile_eq_Nil_conv)
  next
    case False
    with s 1 [OF refl False] drop [of ?rest] show ?thesis
      by (subst split_ws.simps) (simp add: Let_def del: dropWhile_eq_Nil_conv)
  qed
qed

text \<open>
  The names every ordinary object inherits from \<open>Object.prototype\<close>: a lookup or an \<open>in\<close> test with
  such a name succeeds on an object that has no such property of its own.
\<close>

definition object_proto :: "jstr list" where
  "object_proto = map lit
     [''constructor'', ''__defineGetter__'', ''__defineSetter__'', ''hasOwnProperty'',
      ''__lookupGetter__'', ''__lookupSetter__'', ''isPrototypeOf'', ''propertyIsEnumerable'',
      ''toString'', ''valueOf'', ''__proto__'', ''toLocaleString'']"

text \<open>\<open>Array.prototype.slice\<close> with its treatment of negative ends.\<close>

definition slice_pos :: "nat \<Rightarrow> int \<Rightarrow> nat" where
  "slice_pos n k = (if k < 0 then nat (max (int n + k) 0) else min (nat k) n)"

definition slice :: "'a list \<Rightarrow> int \<Rightarrow> int \<Rightarrow> 'a list" where
  "slice xs a b = drop (slice_pos (length xs) a) (take (slice_pos (length xs) b) xs)"

definition slice_from :: "'a list \<Rightarrow> int \<Rightarrow> 'a list" where
  "slice_from xs a = drop (slice_pos (length xs) a) xs"

lemma slice_nat: "slice xs (int a) (int b) = drop a (take b xs)"
  by (cases "a \<le> length xs"; cases "b \<le> length xs") (auto simp: slice_def slice_pos_def)

lemma slice_from_nat: "slice_from xs (int a) = drop a xs"
  by (cases "a \<le> length xs") (auto simp: slice_from_def slice_pos_def)

end
