(* ===== verification/Underscore_Core.thy ===== *)
theory Underscore_Core
  imports JS_Values "HOL-Library.Multiset"
begin

text \<open>
  \<open>underscore-1.13.1.js\<close>, first part: the type tests, \<open>keys\<close> and property access, the callback
  generator \<open>cb\<close>, the finders (\<open>findIndex\<close>, \<open>sortedIndex\<close>, \<open>indexOf\<close>), the iteration core
  (\<open>each\<close>, \<open>map\<close>, \<open>reduce\<close>, \<open>filter\<close>, \<open>every\<close>, \<open>some\<close>, \<open>contains\<close>) and the aggregations
  built on it (\<open>max\<close>, \<open>min\<close>, \<open>sortBy\<close>, \<open>groupBy\<close> and its relatives).

  A callback that the library calls is a HOL function of the value and the key; a callback with
  effects (\<open>each\<close>) threads a state. Names that clash with HOL constants have the suffix \<open>_us\<close>.
\<close>

section \<open>Type tests\<close>

definition isObject :: "jsval \<Rightarrow> bool" where
  "isObject v = (case v of VArr _ _ \<Rightarrow> True | VObj _ _ \<Rightarrow> True | VFun _ _ _ \<Rightarrow> True | _ \<Rightarrow> False)"

definition isNull :: "jsval \<Rightarrow> bool" where
  "isNull v = strict_eq v VNull"

definition isUndefined :: "jsval \<Rightarrow> bool" where
  "isUndefined v = strict_eq v VUndef"

fun class_tag :: "jsval \<Rightarrow> string" where
  "class_tag VUndef = ''[object Undefined]''"
| "class_tag VNull = ''[object Null]''"
| "class_tag (VBool _) = ''[object Boolean]''"
| "class_tag (VNum _) = ''[object Number]''"
| "class_tag (VStr _) = ''[object String]''"
| "class_tag (VArr _ _) = ''[object Array]''"
| "class_tag (VObj _ _) = ''[object Object]''"
| "class_tag (VFun _ _ _) = ''[object Function]''"

definition isBoolean :: "jsval \<Rightarrow> bool" where
  "isBoolean v = (strict_eq v (VBool True) \<or> strict_eq v (VBool False) \<or>
                  class_tag v = ''[object Boolean]'')"

definition tagTester :: "string \<Rightarrow> jsval \<Rightarrow> bool" where
  "tagTester name v = (class_tag v = ''[object '' @ name @ '']'')"

definition isString :: "jsval \<Rightarrow> bool" where "isString = tagTester ''String''"
definition isNumber :: "jsval \<Rightarrow> bool" where "isNumber = tagTester ''Number''"
definition isFunction :: "jsval \<Rightarrow> bool" where "isFunction = tagTester ''Function''"
definition isArray :: "jsval \<Rightarrow> bool" where "isArray = tagTester ''Array''"
definition isArguments :: "jsval \<Rightarrow> bool" where "isArguments = tagTester ''Arguments''"

text \<open>\<open>has$1\<close>: own properties; \<open>length\<close> is an own property of arrays, strings and functions.\<close>

fun has_own :: "jsval \<Rightarrow> jstr \<Rightarrow> bool" where
  "has_own (VArr _ xs) k = (k = lit ''length'' \<or> index_key k \<and> dec_val k < length xs)"
| "has_own (VStr s) k = (k = lit ''length'' \<or> index_key k \<and> dec_val k < length s)"
| "has_own (VObj _ ps) k = (obj_get ps k \<noteq> None)"
| "has_own (VFun _ _ _) k = (k = lit ''length'')"
| "has_own _ k = False"

definition isNaN :: "jsval \<Rightarrow> bool" where
  "isNaN v = (isNumber v \<and> v = VNum NaN)"

definition MAX_ARRAY_INDEX :: int where
  "MAX_ARRAY_INDEX = 2 ^ 53 - 1"

definition shallowProperty :: "jstr \<Rightarrow> jsval \<Rightarrow> jsval" where
  "shallowProperty k v = (if nullish v then VUndef else get_prop v k)"

definition getLength :: "jsval \<Rightarrow> jsval" where
  "getLength = shallowProperty (lit ''length'')"

definition createSizePropertyCheck :: "(jsval \<Rightarrow> jsval) \<Rightarrow> jsval \<Rightarrow> bool" where
  "createSizePropertyCheck getSize v =
     (case getSize v of
        VNum n \<Rightarrow> \<not> num_lt n (Fin 0) \<and> n \<noteq> NaN \<and> \<not> num_lt (Fin MAX_ARRAY_INDEX) n
      | _ \<Rightarrow> False)"

definition isArrayLike :: "jsval \<Rightarrow> bool" where
  "isArrayLike = createSizePropertyCheck getLength"

text \<open>The number of iterations of \<open>for (i = 0, length = v.length; i < length; i++)\<close>.\<close>

definition loop_len :: "jsval \<Rightarrow> nat" where
  "loop_len v = (case getLength v of VNum (Fin n) \<Rightarrow> nat n | _ \<Rightarrow> 0)"

definition elems :: "jsval \<Rightarrow> jsval list" where
  "elems v = map (get_idx v) [0..<loop_len v]"

section \<open>Keys and properties\<close>

fun keys :: "jsval \<Rightarrow> jstr list" where
  "keys (VArr _ xs) = map dec [0..<length xs]"
| "keys (VObj _ ps) = map fst ps"
| "keys _ = []"

definition isEmpty :: "jsval \<Rightarrow> bool" where
  "isEmpty v =
     (if nullish v then True
      else if (case getLength v of VNum _ \<Rightarrow> True | _ \<Rightarrow> False) \<and>
              (isArray v \<or> isString v \<or> isArguments v)
      then strict_eq (getLength v) (VInt 0)
      else length (keys v) = 0)"

primrec match_loop :: "jsval \<Rightarrow> jsval \<Rightarrow> jstr list \<Rightarrow> bool" where
  "match_loop attrs v [] = True"
| "match_loop attrs v (k # ks) =
     (if \<not> strict_eq (get_prop attrs k) (get_prop v k) \<or> \<not> has_own v k then False
      else match_loop attrs v ks)"

definition isMatch :: "jsval \<Rightarrow> jsval \<Rightarrow> bool" where
  "isMatch v attrs =
     (if nullish v then keys attrs = [] else match_loop attrs v (keys attrs))"

definition values_us :: "jsval \<Rightarrow> jsval list" where
  "values_us v = map (get_prop v) (keys v)"

definition pairs :: "jsval \<Rightarrow> (jstr \<times> jsval) list" where
  "pairs v = map (\<lambda>k. (k, get_prop v k)) (keys v)"

definition invert :: "jsval \<Rightarrow> (jstr \<times> jstr) list" where
  "invert v = foldl (\<lambda>res k. obj_put (to_str (get_prop v k)) k res) [] (keys v)"

text \<open>
  \<open>createAssigner\<close>: the target is a property store, \<open>None\<close> when it is null or undefined.
  \<open>extend\<close> and \<open>extendOwn\<close> differ only in inherited properties, which the values do not have.
\<close>

definition assign_key :: "bool \<Rightarrow> jsval \<Rightarrow> (jstr \<times> jsval) list \<Rightarrow> jstr \<Rightarrow> (jstr \<times> jsval) list" where
  "assign_key dflt source obj k =
     (if \<not> dflt \<or> strict_eq (prop_or_undef obj k) VUndef
      then obj_put k (get_prop source k) obj else obj)"

definition createAssigner ::
  "(jsval \<Rightarrow> jstr list) \<Rightarrow> bool \<Rightarrow> (jstr \<times> jsval) list option \<Rightarrow> jsval list \<Rightarrow>
     (jstr \<times> jsval) list option" where
  "createAssigner keysFunc dflt obj sources =
     (case (if dflt \<and> obj = None then Some [] else obj) of
        None \<Rightarrow> None
      | Some ps \<Rightarrow>
          Some (foldl (\<lambda>ps source. foldl (assign_key dflt source) ps (keysFunc source)) ps sources))"

definition allKeys :: "jsval \<Rightarrow> jstr list" where
  "allKeys v = (if \<not> isObject v then [] else keys v)"

definition extend :: "(jstr \<times> jsval) list option \<Rightarrow> jsval list \<Rightarrow> (jstr \<times> jsval) list option" where
  "extend = createAssigner allKeys False"
definition extendOwn :: "(jstr \<times> jsval) list option \<Rightarrow> jsval list \<Rightarrow> (jstr \<times> jsval) list option" where
  "extendOwn = createAssigner keys False"
definition defaults :: "(jstr \<times> jsval) list option \<Rightarrow> jsval list \<Rightarrow> (jstr \<times> jsval) list option" where
  "defaults = createAssigner allKeys True"

definition toPath :: "jsval \<Rightarrow> jsval list" where
  "toPath path = (case path of VArr _ xs \<Rightarrow> xs | _ \<Rightarrow> [path])"

primrec deep_loop :: "jsval list \<Rightarrow> jsval \<Rightarrow> jsval" where
  "deep_loop [] v = v"
| "deep_loop (k # ks) v = (if nullish v then VUndef else deep_loop ks (get_prop v (to_str k)))"

definition deepGet :: "jsval \<Rightarrow> jsval list \<Rightarrow> jsval" where
  "deepGet v path = (if path = [] then VUndef else deep_loop path v)"

definition get_us :: "jsval \<Rightarrow> jsval \<Rightarrow> jsval \<Rightarrow> jsval" where
  "get_us object path dflt =
     (let value = deepGet object (toPath path) in if isUndefined value then dflt else value)"

primrec has_loop :: "jsval list \<Rightarrow> jsval \<Rightarrow> bool" where
  "has_loop [] v = True"
| "has_loop (k # ks) v =
     (if \<not> has_own v (to_str k) then False else has_loop ks (get_prop v (to_str k)))"

definition has_us :: "jsval \<Rightarrow> jsval \<Rightarrow> bool" where
  "has_us v path = (has_loop (toPath path) v \<and> toPath path \<noteq> [])"

definition matcher :: "jsval \<Rightarrow> jsval \<Rightarrow> bool" where
  "matcher attrs v =
     (case extendOwn (Some []) [attrs] of Some ps \<Rightarrow> isMatch v (VObj 0 ps) | None \<Rightarrow> False)"

definition property :: "jsval \<Rightarrow> jsval \<Rightarrow> jsval" where
  "property path v = deepGet v (toPath path)"

text \<open>
  The iteratee shorthands. \<open>IFun\<close> is a function, with its context and the collection closed
  over; \<open>IVal\<close> any other value.
\<close>

datatype iteratee = IFun "jsval \<Rightarrow> jsval \<Rightarrow> jsval" | IVal jsval

fun cb :: "iteratee \<Rightarrow> jsval \<Rightarrow> jsval \<Rightarrow> jsval" where
  "cb (IFun f) v k = f v k"
| "cb (IVal it) v k =
     (if nullish it then v
      else if isObject it \<and> \<not> isArray it then VBool (matcher it v)
      else property it v)"

definition mapObject :: "jsval \<Rightarrow> iteratee \<Rightarrow> (jstr \<times> jsval) list" where
  "mapObject v it = foldl (\<lambda>res k. obj_put k (cb it (get_prop v k) (VStr k)) res) [] (keys v)"

section \<open>Finders\<close>

primrec findKey_loop :: "(jsval \<Rightarrow> jsval \<Rightarrow> jsval) \<Rightarrow> jsval \<Rightarrow> jstr list \<Rightarrow> jstr option" where
  "findKey_loop p v [] = None"
| "findKey_loop p v (k # ks) =
     (if truthy (p (get_prop v k) (VStr k)) then Some k else findKey_loop p v ks)"

definition findKey :: "jsval \<Rightarrow> iteratee \<Rightarrow> jstr option" where
  "findKey v it = findKey_loop (cb it) v (keys v)"

function find_up :: "(int \<Rightarrow> bool) \<Rightarrow> int \<Rightarrow> int \<Rightarrow> int" where
  "find_up p index len =
     (if 0 \<le> index \<and> index < len then
        if p index then index else find_up p (index + 1) len
      else -1)"
  by pat_completeness auto
termination
  by (relation "measure (\<lambda>(p, index, len). nat (len - index))") auto

function find_down :: "(int \<Rightarrow> bool) \<Rightarrow> int \<Rightarrow> int \<Rightarrow> int" where
  "find_down p index len =
     (if 0 \<le> index \<and> index < len then
        if p index then index else find_down p (index - 1) len
      else -1)"
  by pat_completeness auto
termination
  by (relation "measure (\<lambda>(p, index, len). nat (index + 1))") auto

declare find_up.simps [simp del] find_down.simps [simp del]

text \<open>The loop \<open>for (; index >= 0 && index < length; index += dir)\<close> for \<open>dir\<close> 1 and -1.\<close>

definition find_dir :: "int \<Rightarrow> (int \<Rightarrow> bool) \<Rightarrow> int \<Rightarrow> int \<Rightarrow> int" where
  "find_dir dir p index len = (if dir > 0 then find_up p index len else find_down p index len)"

definition createPredicateIndexFinder :: "int \<Rightarrow> jsval \<Rightarrow> (jsval \<Rightarrow> jsval \<Rightarrow> jsval) \<Rightarrow> int" where
  "createPredicateIndexFinder dir array predicate =
     (let len = int (loop_len array); index = (if dir > 0 then 0 else len - 1)
      in find_dir dir (\<lambda>i. truthy (predicate (get_idx array (nat i)) (VInt i))) index len)"

definition findIndex :: "jsval \<Rightarrow> iteratee \<Rightarrow> int" where
  "findIndex array it = createPredicateIndexFinder 1 array (cb it)"
definition findLastIndex :: "jsval \<Rightarrow> iteratee \<Rightarrow> int" where
  "findLastIndex array it = createPredicateIndexFinder (-1) array (cb it)"

function bsearch :: "(nat \<Rightarrow> bool) \<Rightarrow> nat \<Rightarrow> nat \<Rightarrow> nat" where
  "bsearch below low high =
     (if low < high then
        let mid = (low + high) div 2
        in if below mid then bsearch below (mid + 1) high else bsearch below low mid
      else low)"
  by pat_completeness auto
termination
  by (relation "measure (\<lambda>(below, low, high). high - low)") auto

declare bsearch.simps [simp del]

definition sortedIndex :: "jsval \<Rightarrow> jsval \<Rightarrow> (jsval \<Rightarrow> jsval) \<Rightarrow> nat" where
  "sortedIndex array obj f =
     bsearch (\<lambda>mid. js_lt (f (get_idx array mid)) (f obj)) 0 (loop_len array)"

text \<open>
  The third argument of \<open>indexOf\<close> and \<open>lastIndexOf\<close>: absent, a number, or \<open>true\<close> (\<open>isSorted\<close>,
  which only \<open>indexOf\<close> supports).
\<close>

datatype idx_arg = NoIdx | IdxNum int | IdxTrue

definition createIndexFinder :: "int \<Rightarrow> bool \<Rightarrow> jsval \<Rightarrow> jsval \<Rightarrow> idx_arg \<Rightarrow> int" where
  "createIndexFinder dir sorted_ok array item idx =
     (let n = int (loop_len array);
          i = (case idx of IdxNum k \<Rightarrow> if dir > 0 then (if k \<ge> 0 then k else max (k + n) 0) else 0
                         | _ \<Rightarrow> 0);
          len = (case idx of IdxNum k \<Rightarrow> if dir > 0 then n
                                        else (if k \<ge> 0 then min (k + 1) n else k + n + 1)
                           | _ \<Rightarrow> n)
      in if idx = IdxTrue \<and> sorted_ok \<and> n \<noteq> 0 then
           (let k = sortedIndex array item (\<lambda>x. x)
            in if strict_eq (get_idx array k) item then int k else -1)
         else if \<not> strict_eq item item then
           (let sl = slice (elems array) i len;
                k = createPredicateIndexFinder dir (VArr 0 sl) (\<lambda>v _. VBool (isNaN v))
            in if k \<ge> 0 then k + i else -1)
         else find_dir dir (\<lambda>k. strict_eq (get_idx array (nat k)) item)
                (if dir > 0 then i else len - 1) len)"

definition indexOf_us :: "jsval \<Rightarrow> jsval \<Rightarrow> idx_arg \<Rightarrow> int" where
  "indexOf_us = createIndexFinder 1 True"
definition lastIndexOf_us :: "jsval \<Rightarrow> jsval \<Rightarrow> idx_arg \<Rightarrow> int" where
  "lastIndexOf_us = createIndexFinder (-1) False"

definition find_us :: "jsval \<Rightarrow> iteratee \<Rightarrow> jsval" where
  "find_us v it =
     (if isArrayLike v then
        (let key = findIndex v it in if key \<noteq> -1 then get_idx v (nat key) else VUndef)
      else (case findKey v it of Some k \<Rightarrow> get_prop v k | None \<Rightarrow> VUndef))"

definition findWhere :: "jsval \<Rightarrow> jsval \<Rightarrow> jsval" where
  "findWhere v attrs = find_us v (IFun (\<lambda>x _. VBool (matcher attrs x)))"

section \<open>Iteration\<close>

text \<open>
  The values and keys an iteration visits, in order: the indices below \<open>length\<close> for an
  array-like value, the own keys otherwise.
\<close>

definition entries :: "jsval \<Rightarrow> (jsval \<times> jsval) list" where
  "entries v =
     (if isArrayLike v then map (\<lambda>i. (get_idx v i, VInt (int i))) [0..<loop_len v]
      else map (\<lambda>k. (get_prop v k, VStr k)) (keys v))"

definition each :: "jsval \<Rightarrow> (jsval \<Rightarrow> jsval \<Rightarrow> 's \<Rightarrow> 's) \<Rightarrow> 's \<Rightarrow> 's" where
  "each v f s = foldl (\<lambda>s (x, k). f x k s) s (entries v)"

definition map_us :: "jsval \<Rightarrow> iteratee \<Rightarrow> jsval list" where
  "map_us v it = map (\<lambda>(x, k). cb it x k) (entries v)"

text \<open>
  \<open>createReduce\<close> with an initial memo, and without one: then the first value visited is the
  memo, and reading it from null or undefined throws.
\<close>

definition reduce_initial ::
  "int \<Rightarrow> jsval \<Rightarrow> ('m \<Rightarrow> jsval \<Rightarrow> jsval \<Rightarrow> 'm) \<Rightarrow> 'm \<Rightarrow> 'm" where
  "reduce_initial dir v f memo =
     foldl (\<lambda>m (x, k). f m x k) memo (if dir > 0 then entries v else rev (entries v))"

definition reduce_no_initial ::
  "int \<Rightarrow> jsval \<Rightarrow> (jsval \<Rightarrow> jsval \<Rightarrow> jsval \<Rightarrow> jsval) \<Rightarrow> js_error + jsval" where
  "reduce_no_initial dir v f =
     (if nullish v then Inl TypeError
      else Inr (case (if dir > 0 then entries v else rev (entries v)) of
                  [] \<Rightarrow> VUndef
                | (x, _) # es \<Rightarrow> foldl (\<lambda>m (y, k). f m y k) x es))"

definition filter_us :: "jsval \<Rightarrow> iteratee \<Rightarrow> jsval list" where
  "filter_us v it =
     each v (\<lambda>x k results. if truthy (cb it x k) then results @ [x] else results) []"

definition reject :: "jsval \<Rightarrow> iteratee \<Rightarrow> jsval list" where
  "reject v it = filter_us v (IFun (\<lambda>x k. VBool (\<not> truthy (cb it x k))))"

primrec every_loop :: "(jsval \<Rightarrow> jsval \<Rightarrow> jsval) \<Rightarrow> (jsval \<times> jsval) list \<Rightarrow> bool" where
  "every_loop p [] = True"
| "every_loop p (e # es) = (if \<not> truthy (p (fst e) (snd e)) then False else every_loop p es)"

definition every :: "jsval \<Rightarrow> iteratee \<Rightarrow> bool" where
  "every v it = every_loop (cb it) (entries v)"

primrec some_loop :: "(jsval \<Rightarrow> jsval \<Rightarrow> jsval) \<Rightarrow> (jsval \<times> jsval) list \<Rightarrow> bool" where
  "some_loop p [] = False"
| "some_loop p (e # es) = (if truthy (p (fst e) (snd e)) then True else some_loop p es)"

definition some_us :: "jsval \<Rightarrow> iteratee \<Rightarrow> bool" where
  "some_us v it = some_loop (cb it) (entries v)"

text \<open>\<open>contains(obj, item)\<close>, with \<open>fromIndex\<close> 0 unless it is a number.\<close>

definition contains :: "jsval \<Rightarrow> jsval \<Rightarrow> idx_arg \<Rightarrow> bool" where
  "contains v item fromIndex =
     (let arr = (if isArrayLike v then v else VArr 0 (values_us v));
          from = (case fromIndex of IdxNum k \<Rightarrow> k | _ \<Rightarrow> 0)
      in indexOf_us arr item (IdxNum from) \<ge> 0)"

definition pluck :: "jsval \<Rightarrow> jsval \<Rightarrow> jsval list" where
  "pluck v key = map_us v (IFun (\<lambda>x _. property key x))"

definition where_us :: "jsval \<Rightarrow> jsval \<Rightarrow> jsval list" where
  "where_us v attrs = filter_us v (IFun (\<lambda>x _. VBool (matcher attrs x)))"

text \<open>\<open>max\<close> and \<open>min\<close> without an iteratee, and with one.\<close>

definition coll_values :: "jsval \<Rightarrow> jsval list" where
  "coll_values v = (if isArrayLike v then elems v else values_us v)"

definition max_us :: "jsval \<Rightarrow> jsval" where
  "max_us v = foldl (\<lambda>result value. if \<not> nullish value \<and> js_lt result value then value else result)
     (VNum NInf) (coll_values v)"

definition min_us :: "jsval \<Rightarrow> jsval" where
  "min_us v = foldl (\<lambda>result value. if \<not> nullish value \<and> js_lt value result then value else result)
     (VNum PInf) (coll_values v)"

definition max_by :: "jsval \<Rightarrow> iteratee \<Rightarrow> jsval" where
  "max_by v it =
     fst (each v (\<lambda>x k (result, last). let computed = cb it x k in
            if js_lt last computed \<or>
               strict_eq computed (VNum NInf) \<and> strict_eq result (VNum NInf)
            then (x, computed) else (result, last)) (VNum NInf, VNum NInf))"

definition min_by :: "jsval \<Rightarrow> iteratee \<Rightarrow> jsval" where
  "min_by v it =
     fst (each v (\<lambda>x k (result, last). let computed = cb it x k in
            if js_lt computed last \<or>
               strict_eq computed (VNum PInf) \<and> strict_eq result (VNum PInf)
            then (x, computed) else (result, last)) (VNum PInf, VNum PInf))"

text \<open>
  \<open>sortBy\<close> decorates every value with its position and its criterion and sorts by the
  comparator \<open>sort_cmp\<close> (negative, zero or positive as in the source). \<open>js_sort\<close> is
  \<open>Array.prototype.sort\<close>, a stable sort: insertion of each element after those not greater.
\<close>

definition sort_cmp :: "jsval \<times> nat \<times> jsval \<Rightarrow> jsval \<times> nat \<times> jsval \<Rightarrow> int" where
  "sort_cmp left right =
     (let a = snd (snd left); b = snd (snd right);
          tie = int (fst (snd left)) - int (fst (snd right))
      in if \<not> strict_eq a b then
           (if js_lt b a \<or> strict_eq a VUndef then 1
            else if js_lt a b \<or> strict_eq b VUndef then -1
            else tie)
         else tie)"

fun ins_cmp :: "('a \<Rightarrow> 'a \<Rightarrow> int) \<Rightarrow> 'a \<Rightarrow> 'a list \<Rightarrow> 'a list" where
  "ins_cmp cmp x [] = [x]"
| "ins_cmp cmp x (y # ys) = (if cmp x y < 0 then x # y # ys else y # ins_cmp cmp x ys)"

definition js_sort :: "('a \<Rightarrow> 'a \<Rightarrow> int) \<Rightarrow> 'a list \<Rightarrow> 'a list" where
  "js_sort cmp xs = foldl (\<lambda>acc x. ins_cmp cmp x acc) [] xs"

definition sortBy :: "jsval \<Rightarrow> iteratee \<Rightarrow> jsval list" where
  "sortBy v it =
     map fst (js_sort sort_cmp
       (map (\<lambda>(i, x, k). (x, i, cb it x k)) (enumerate 0 (entries v))))"

text \<open>\<open>group\<close> with the behaviours of \<open>groupBy\<close>, \<open>indexBy\<close>, \<open>countBy\<close> and \<open>partition\<close>.\<close>

definition group :: "('r \<Rightarrow> jsval \<Rightarrow> jsval \<Rightarrow> 'r) \<Rightarrow> 'r \<Rightarrow> jsval \<Rightarrow> iteratee \<Rightarrow> 'r" where
  "group behavior result v it = each v (\<lambda>x k r. behavior r x (cb it x k)) result"

definition groupBy :: "jsval \<Rightarrow> iteratee \<Rightarrow> (jstr \<times> jsval list) list" where
  "groupBy = group (\<lambda>r x key.
     case obj_get r (to_str key) of
       Some xs \<Rightarrow> obj_put (to_str key) (xs @ [x]) r
     | None \<Rightarrow> obj_put (to_str key) [x] r) []"

definition indexBy :: "jsval \<Rightarrow> iteratee \<Rightarrow> (jstr \<times> jsval) list" where
  "indexBy = group (\<lambda>r x key. obj_put (to_str key) x r) []"

definition countBy :: "jsval \<Rightarrow> iteratee \<Rightarrow> (jstr \<times> nat) list" where
  "countBy = group (\<lambda>r x key.
     case obj_get r (to_str key) of
       Some n \<Rightarrow> obj_put (to_str key) (n + 1) r
     | None \<Rightarrow> obj_put (to_str key) 1 r) []"

definition partition_us :: "jsval \<Rightarrow> iteratee \<Rightarrow> jsval list \<times> jsval list" where
  "partition_us = group (\<lambda>(ts, fs) x pass.
     if truthy pass then (ts @ [x], fs) else (ts, fs @ [x])) ([], [])"

definition size_us :: "jsval \<Rightarrow> nat" where
  "size_us v =
     (if nullish v then 0 else if isArrayLike v then loop_len v else length (keys v))"

section \<open>Arrays\<close>

text \<open>JavaScript arrays are shorter than \<open>2^32\<close>.\<close>

definition arr_ok :: "'a list \<Rightarrow> bool" where
  "arr_ok xs \<longleftrightarrow> length xs < 2 ^ 32"

lemma getLength_arr [simp]: "getLength (VArr i xs) = VInt (int (length xs))"
  by (simp add: getLength_def shallowProperty_def nullish_def)

lemma loop_len_arr [simp]: "loop_len (VArr i xs) = length xs"
  by (simp add: loop_len_def)

lemma isArrayLike_arr: "arr_ok xs \<Longrightarrow> isArrayLike (VArr i xs)"
  by (simp add: isArrayLike_def createSizePropertyCheck_def MAX_ARRAY_INDEX_def arr_ok_def)

lemma elems_arr [simp]: "elems (VArr i xs) = xs"
  by (rule nth_equalityI) (simp_all add: elems_def nth_or_undef_def)

lemma entries_arr:
  "arr_ok xs \<Longrightarrow> entries (VArr i xs) = zip xs (map (\<lambda>j. VInt (int j)) [0..<length xs])"
  by (rule nth_equalityI) (simp_all add: entries_def isArrayLike_arr nth_or_undef_def)

lemma map_fst_entries_arr: "arr_ok xs \<Longrightarrow> map fst (entries (VArr i xs)) = xs"
  by (simp add: entries_arr)

lemma entries_obj:
  "\<not> isArrayLike (VObj i ps) \<Longrightarrow> obj_ok ps \<Longrightarrow> entries (VObj i ps) = map (\<lambda>(k, v). (v, VStr k)) ps"
  by (auto simp: entries_def prop_or_undef_def obj_get_def obj_ok_def)

section \<open>Iteration\<close>

lemma filter_us_eq:
  "filter_us v it = map fst (filter (\<lambda>(x, k). truthy (cb it x k)) (entries v))"
proof -
  have "foldl (\<lambda>s (x, k). if truthy (cb it x k) then s @ [x] else s) acc es =
      acc @ map fst (filter (\<lambda>(x, k). truthy (cb it x k)) es)" for acc es
    by (induction es arbitrary: acc) auto
  then show ?thesis by (simp add: filter_us_def each_def)
qed

lemma every_loop_iff: "every_loop p es \<longleftrightarrow> (\<forall>(x, k) \<in> set es. truthy (p x k))"
  by (induction es) auto

lemma some_loop_iff: "some_loop p es \<longleftrightarrow> (\<exists>(x, k) \<in> set es. truthy (p x k))"
  by (induction es) auto

lemma every_iff: "every v it \<longleftrightarrow> (\<forall>(x, k) \<in> set (entries v). truthy (cb it x k))"
  by (simp add: every_def every_loop_iff)

lemma some_iff: "some_us v it \<longleftrightarrow> (\<exists>(x, k) \<in> set (entries v). truthy (cb it x k))"
  by (simp add: some_us_def some_loop_iff)

lemma map_fst_filter: "map fst (filter (\<lambda>(x, k). P x) es) = filter P (map fst es)"
  by (induction es) auto

lemma filter_us_arr:
  "arr_ok xs \<Longrightarrow> filter_us (VArr i xs) (IFun (\<lambda>x _. f x)) = filter (\<lambda>x. truthy (f x)) xs"
  using map_fst_filter [of "\<lambda>x. truthy (f x)" "entries (VArr i xs)"]
  by (simp add: filter_us_eq map_fst_entries_arr)

lemma map_us_arr:
  "arr_ok xs \<Longrightarrow> map_us (VArr i xs) (IFun (\<lambda>x _. f x)) = map f xs"
proof -
  assume "arr_ok xs"
  moreover have "map (\<lambda>(x, k). f x) es = map f (map fst es)" for es :: "(jsval \<times> jsval) list"
    by (induction es) auto
  from this [of "entries (VArr i xs)"] calculation show ?thesis
    by (simp only: map_us_def cb.simps map_fst_entries_arr)
qed

lemma every_arr:
  "arr_ok xs \<Longrightarrow> every (VArr i xs) (IFun (\<lambda>x _. f x)) \<longleftrightarrow> (\<forall>x \<in> set xs. truthy (f x))"
proof -
  assume "arr_ok xs"
  then have "set xs = fst ` set (entries (VArr i xs))"
    by (metis map_fst_entries_arr set_map)
  then show ?thesis by (auto simp: every_iff)
qed

lemma each_arr:
  "arr_ok xs \<Longrightarrow> each (VArr i xs) (\<lambda>x _ s. f x s) s = foldl (\<lambda>s x. f x s) s xs"
proof -
  have "foldl (\<lambda>s (x, k). f x s) s es = foldl (\<lambda>s x. f x s) s (map fst es)"
    for es :: "(jsval \<times> jsval) list" and s
    by (induction es arbitrary: s) auto
  then show "arr_ok xs \<Longrightarrow> ?thesis" by (simp add: each_def map_fst_entries_arr)
qed

lemma partition_us_eq:
  "partition_us v it = (filter_us v it, reject v it)"
proof -
  have "foldl (\<lambda>s (x, k). (case s of (ts, fs) \<Rightarrow> \<lambda>x pass.
          if truthy pass then (ts @ [x], fs) else (ts, fs @ [x])) x (cb it x k)) (a, b) es =
      (a @ map fst (filter (\<lambda>(x, k). truthy (cb it x k)) es),
       b @ map fst (filter (\<lambda>(x, k). \<not> truthy (cb it x k)) es))" for a b es
    by (induction es arbitrary: a b) auto
  then show ?thesis
    by (simp add: partition_us_def group_def each_def reject_def filter_us_eq)
qed

section \<open>Finders\<close>

lemma find_up_none_iff:
  "0 \<le> index \<Longrightarrow> find_up p index len = -1 \<longleftrightarrow> (\<forall>i \<in> {index..<len}. \<not> p i)"
proof (induction p index len rule: find_up.induct)
  case (1 p index len)
  show ?case
  proof (cases "index < len")
    case True
    then have "{index..<len} = insert index {index + 1..<len}" by auto
    with True 1 show ?thesis by (auto simp: find_up.simps [of p index len])
  next
    case False
    then show ?thesis by (simp add: find_up.simps [of p index len])
  qed
qed

lemma find_up_someD:
  "find_up p index len = r \<Longrightarrow> r \<noteq> -1 \<Longrightarrow>
     0 \<le> r \<and> index \<le> r \<and> r < len \<and> p r \<and> (\<forall>i \<in> {index..<r}. \<not> p i)"
proof (induction p index len rule: find_up.induct)
  case (1 p index len)
  show ?case
  proof (cases "0 \<le> index \<and> index < len \<and> \<not> p index")
    case True
    with 1 have "0 \<le> r \<and> index + 1 \<le> r \<and> r < len \<and> p r \<and> (\<forall>i \<in> {index + 1..<r}. \<not> p i)"
      by (simp add: find_up.simps [of p index len])
    moreover from this have "{index..<r} = insert index {index + 1..<r}" by auto
    ultimately show ?thesis using True by simp
  next
    case False
    with 1(2,3) show ?thesis by (auto simp: find_up.simps [of p index len] split: if_splits)
  qed
qed

lemma find_up_cong:
  "0 \<le> k \<Longrightarrow> (\<And>i. 0 \<le> i \<Longrightarrow> i < n \<Longrightarrow> p i = q i) \<Longrightarrow> find_up p k n = find_up q k n"
proof (induction p k n rule: find_up.induct)
  case (1 p k n)
  then show ?case by (simp add: find_up.simps [of p k n] find_up.simps [of q k n])
qed

lemma find_down_none_iff:
  "index < len \<Longrightarrow> find_down p index len = -1 \<longleftrightarrow> (\<forall>i \<in> {0..index}. \<not> p i)"
proof (induction p index len rule: find_down.induct)
  case (1 p index len)
  show ?case
  proof (cases "0 \<le> index")
    case True
    then have "{0..index} = insert index {0..index - 1}" by auto
    with True 1 show ?thesis by (auto simp: find_down.simps [of p index len])
  next
    case False
    then show ?thesis by (simp add: find_down.simps [of p index len])
  qed
qed

lemma find_down_someD:
  "find_down p index len = r \<Longrightarrow> r \<noteq> -1 \<Longrightarrow>
     0 \<le> r \<and> r \<le> index \<and> r < len \<and> p r \<and> (\<forall>i \<in> {r + 1..index}. \<not> p i)"
proof (induction p index len rule: find_down.induct)
  case (1 p index len)
  show ?case
  proof (cases "0 \<le> index \<and> index < len \<and> \<not> p index")
    case True
    with 1 have "0 \<le> r \<and> r \<le> index - 1 \<and> r < len \<and> p r \<and> (\<forall>i \<in> {r + 1..index - 1}. \<not> p i)"
      by (simp add: find_down.simps [of p index len])
    moreover from this have "{r + 1..index} = insert index {r + 1..index - 1}" by auto
    ultimately show ?thesis using True by simp
  next
    case False
    with 1(2,3) show ?thesis by (auto simp: find_down.simps [of p index len] split: if_splits)
  qed
qed

text \<open>\<open>===\<close>, with \<open>NaN\<close> equal to itself: the equality \<open>contains\<close> decides.\<close>

definition same_item :: "jsval \<Rightarrow> jsval \<Rightarrow> bool" where
  "same_item x item \<longleftrightarrow> (if item = VNum NaN then x = VNum NaN else strict_eq x item)"

lemma strict_eq_self_iff: "strict_eq v v \<longleftrightarrow> v \<noteq> VNum NaN"
  using strict_eq_refl [of v] by auto

lemma isNaN_iff [simp]: "isNaN v \<longleftrightarrow> v = VNum NaN"
  by (auto simp: isNaN_def isNumber_def tagTester_def)

lemma indexOf_us_arr:
  "indexOf_us (VArr j xs) item (IdxNum 0) =
     find_up (\<lambda>i. same_item (xs ! nat i) item) 0 (int (length xs))"
proof (cases "item = VNum NaN")
  case True
  have sl: "slice xs 0 (int (length xs)) = xs" by (simp add: slice_def slice_pos_def)
  have "find_up (\<lambda>i. nth_or_undef xs (nat i) = VNum NaN) 0 (int (length xs)) =
      find_up (\<lambda>i. same_item (xs ! nat i) item) 0 (int (length xs))"
    by (rule find_up_cong) (auto simp: True same_item_def nth_or_undef_def)
  moreover have "find_up p 0 n = -1 \<or> 0 \<le> find_up p 0 n" for p n
    using find_up_someD [of p 0 n] by blast
  from this [of "\<lambda>i. same_item (xs ! nat i) item" "int (length xs)"] calculation
  show ?thesis
    using True by (auto simp: indexOf_us_def createIndexFinder_def Let_def sl
        createPredicateIndexFinder_def find_dir_def)
next
  case False
  then have "find_up (\<lambda>k. strict_eq (nth_or_undef xs (nat k)) item) 0 (int (length xs)) =
      find_up (\<lambda>i. same_item (xs ! nat i) item) 0 (int (length xs))"
    by (intro find_up_cong) (auto simp: same_item_def nth_or_undef_def)
  with False show ?thesis
    by (simp add: indexOf_us_def createIndexFinder_def Let_def strict_eq_self_iff find_dir_def)
qed

lemma contains_arr:
  assumes "arr_ok xs"
  shows "contains (VArr j xs) item NoIdx \<longleftrightarrow> (\<exists>x \<in> set xs. same_item x item)"
proof -
  let ?p = "\<lambda>i. same_item (xs ! nat i) item"
  have "contains (VArr j xs) item NoIdx \<longleftrightarrow> 0 \<le> find_up ?p 0 (int (length xs))"
    using assms by (simp add: contains_def isArrayLike_arr indexOf_us_arr)
  also have "\<dots> \<longleftrightarrow> find_up ?p 0 (int (length xs)) \<noteq> -1"
    using find_up_someD [of ?p 0 "int (length xs)"] by auto
  also have "\<dots> \<longleftrightarrow> (\<exists>i \<in> {0..<int (length xs)}. ?p i)"
    using find_up_none_iff [of 0 ?p "int (length xs)"] by blast
  also have "\<dots> \<longleftrightarrow> (\<exists>n < length xs. same_item (xs ! n) item)"
    by (auto, metis nat_int of_nat_less_iff int_nat_eq nat_0_le,
        metis atLeastLessThan_iff nat_int of_nat_0_le_iff of_nat_less_iff)
  finally show ?thesis by (metis in_set_conv_nth)
qed

lemma contains_strings:
  "arr_ok xs \<Longrightarrow> contains (VArr j (map VStr xs)) (VStr w) NoIdx \<longleftrightarrow> w \<in> set xs"
  by (subst contains_arr) (auto simp: arr_ok_def same_item_def)

lemma indexOf_us_NoIdx: "indexOf_us v item NoIdx = indexOf_us v item (IdxNum 0)"
  by (simp add: indexOf_us_def createIndexFinder_def Let_def)

lemma indexOf_us_strings:
  assumes "arr_ok xs"
  shows "indexOf_us (VArr j (map VStr xs)) (VStr w) NoIdx \<noteq> -1 \<longleftrightarrow> w \<in> set xs"
proof -
  have ok: "arr_ok (map VStr xs)" using assms by (simp add: arr_ok_def)
  have "indexOf_us (VArr j (map VStr xs)) (VStr w) NoIdx \<noteq> -1 \<longleftrightarrow>
      contains (VArr j (map VStr xs)) (VStr w) NoIdx"
    using find_up_someD [of "\<lambda>i. same_item (map VStr xs ! nat i) (VStr w)" 0 "int (length xs)"]
    by (auto simp: contains_def isArrayLike_arr [OF ok] indexOf_us_NoIdx indexOf_us_arr)
  then show ?thesis using contains_strings [OF assms] by simp
qed

lemma contains_number_as_string:
  "arr_ok ns \<Longrightarrow> \<not> contains (VArr j (map VInt ns)) (VStr w) NoIdx"
  by (subst contains_arr) (auto simp: arr_ok_def same_item_def)

subsection \<open>Binary search\<close>

lemma bsearch_spec:
  assumes "low \<le> high" "\<And>i j. i \<le> j \<Longrightarrow> j < h \<Longrightarrow> below j \<Longrightarrow> below i" "high \<le> h"
    "\<And>i. i < low \<Longrightarrow> below i" "\<And>i. high \<le> i \<Longrightarrow> i < h \<Longrightarrow> \<not> below i"
  shows "bsearch below low high \<le> h \<and> (\<forall>i < bsearch below low high. below i) \<and>
    (\<forall>i \<in> {bsearch below low high..<h}. \<not> below i)"
  using assms
proof (induction below low high rule: bsearch.induct)
  case (1 below low high)
  let ?mid = "(low + high) div 2"
  show ?case
  proof (cases "low < high")
    case False
    then have "bsearch below low high = low" by (subst bsearch.simps) simp
    moreover from False 1(3) have "low = high" by simp
    ultimately show ?thesis using 1(5-7) by simp
  next
    case lt: True
    then have mid: "low \<le> ?mid" "?mid < high" by auto
    show ?thesis
    proof (cases "below ?mid")
      case True
      have "below i" if "i < ?mid + 1" for i
        using that True mid 1(4) [of i ?mid] 1(5) by auto
      then have "bsearch below (?mid + 1) high \<le> h \<and>
          (\<forall>i < bsearch below (?mid + 1) high. below i) \<and>
          (\<forall>i \<in> {bsearch below (?mid + 1) high..<h}. \<not> below i)"
        using lt True mid 1(4,5,7) by (intro 1(1)) auto
      with lt True show ?thesis by (simp add: bsearch.simps [of below low high])
    next
      case False
      have "\<not> below i" if "?mid \<le> i" "i < h" for i
        using 1(4) [OF that] False by blast
      then have "bsearch below low ?mid \<le> h \<and> (\<forall>i < bsearch below low ?mid. below i) \<and>
          (\<forall>i \<in> {bsearch below low ?mid..<h}. \<not> below i)"
        using lt False mid 1(4-6) by (intro 1(2)) auto
      with lt False show ?thesis by (simp add: bsearch.simps [of below low high])
    qed
  qed
qed

lemma sortedIndex_arr:
  assumes "\<And>i j. i \<le> j \<Longrightarrow> j < length xs \<Longrightarrow> js_lt (f (xs ! j)) (f v) \<Longrightarrow> js_lt (f (xs ! i)) (f v)"
  shows "sortedIndex (VArr n xs) v f \<le> length xs \<and>
    (\<forall>x \<in> set (take (sortedIndex (VArr n xs) v f) xs). js_lt (f x) (f v)) \<and>
    (\<forall>x \<in> set (drop (sortedIndex (VArr n xs) v f) xs). \<not> js_lt (f x) (f v))"
proof -
  define below where "below = (\<lambda>mid. js_lt (f (nth_or_undef xs mid)) (f v))"
  define k where "k = bsearch below 0 (length xs)"
  have below: "below i \<longleftrightarrow> js_lt (f (xs ! i)) (f v)" if "i < length xs" for i
    using that by (simp add: below_def nth_or_undef_def)
  have spec: "k \<le> length xs \<and> (\<forall>i < k. below i) \<and> (\<forall>i \<in> {k..<length xs}. \<not> below i)"
    unfolding k_def using below assms by (intro bsearch_spec) auto
  have "js_lt (f x) (f v)" if x: "x \<in> set (take k xs)" for x
  proof -
    from x obtain i where i: "i < k" "i < length xs" "x = xs ! i" by (auto simp: in_set_conv_nth)
    from spec i(1) have "below i" by blast
    with i below show ?thesis by blast
  qed
  moreover have "\<not> js_lt (f x) (f v)" if x: "x \<in> set (drop k xs)" for x
  proof -
    from in_set_drop_nth [OF x] obtain i where i: "k \<le> i" "i < length xs" "x = xs ! i" by blast
    from spec i(1,2) have "\<not> below i" by (meson atLeastLessThan_iff)
    with i below show ?thesis by blast
  qed
  moreover have "sortedIndex (VArr n xs) v f = k"
    by (simp add: sortedIndex_def k_def below_def)
  ultimately show ?thesis using spec by blast
qed

section \<open>Sorting\<close>

text \<open>What a comparison function promises on the elements it is used for.\<close>

locale comparator =
  fixes cmp :: "'a \<Rightarrow> 'a \<Rightarrow> int" and dom :: "'a \<Rightarrow> bool"
  assumes cmp_anti: "dom x \<Longrightarrow> dom y \<Longrightarrow> 0 \<le> cmp x y \<longleftrightarrow> cmp y x \<le> 0"
    and cmp_trans: "dom x \<Longrightarrow> dom y \<Longrightarrow> dom z \<Longrightarrow> cmp x y \<le> 0 \<Longrightarrow> cmp y z \<le> 0 \<Longrightarrow> cmp x z \<le> 0"
begin

lemma mset_ins_cmp: "mset (ins_cmp cmp x ys) = add_mset x (mset ys)"
  by (induction cmp x ys rule: ins_cmp.induct) auto

lemma mset_js_sort: "mset (js_sort cmp xs) = mset xs"
proof -
  have "mset (foldl (\<lambda>acc x. ins_cmp cmp x acc) acc xs) = mset acc + mset xs" for acc
    by (induction xs arbitrary: acc) (auto simp: mset_ins_cmp)
  then show ?thesis by (simp add: js_sort_def)
qed

lemma sorted_ins_cmp:
  assumes "dom x" "list_all dom ys" "sorted_wrt (\<lambda>x y. cmp x y \<le> 0) ys"
  shows "sorted_wrt (\<lambda>x y. cmp x y \<le> 0) (ins_cmp cmp x ys)"
  using assms
proof (induction ys)
  case (Cons y ys)
  show ?case
  proof (cases "cmp x y < 0")
    case True
    with Cons.prems show ?thesis
      by (auto simp: list_all_iff intro: cmp_trans [of x y])
  next
    case False
    with Cons.prems have "cmp y x \<le> 0" using cmp_anti [of x y] by (simp add: list_all_iff)
    with Cons False show ?thesis
      using mset_ins_cmp [of x ys, THEN mset_eq_setD [of _ "x # ys", simplified]] by auto
  qed
qed simp

lemma sorted_js_sort:
  "list_all dom xs \<Longrightarrow> sorted_wrt (\<lambda>x y. cmp x y \<le> 0) (js_sort cmp xs)"
proof -
  have "list_all dom xs \<Longrightarrow> list_all dom acc \<Longrightarrow> sorted_wrt (\<lambda>x y. cmp x y \<le> 0) acc \<Longrightarrow>
      sorted_wrt (\<lambda>x y. cmp x y \<le> 0) (foldl (\<lambda>acc x. ins_cmp cmp x acc) acc xs)" for acc
  proof (induction xs arbitrary: acc)
    case (Cons x xs)
    have "set (ins_cmp cmp x acc) = insert x (set acc)"
      by (metis mset_ins_cmp set_mset_add_mset_insert set_mset_mset)
    with Cons show ?case by (simp add: sorted_ins_cmp list_all_iff)
  qed simp
  then show "list_all dom xs \<Longrightarrow> ?thesis" by (simp add: js_sort_def)
qed

end

definition numeric :: "jsval \<times> nat \<times> jsval \<Rightarrow> bool" where
  "numeric e \<longleftrightarrow> (\<exists>n. snd (snd e) = VNum n \<and> n \<noteq> NaN)"

text \<open>Numbers other than \<open>NaN\<close> are linearly ordered up to \<open>num_eq\<close>.\<close>

fun num_rank :: "jsnum \<Rightarrow> int \<times> int" where
  "num_rank NInf = (0, 0)"
| "num_rank (Fin n) = (1, n)"
| "num_rank NZero = (1, 0)"
| "num_rank PInf = (2, 0)"
| "num_rank NaN = (3, 0)"

definition rank_lt :: "int \<times> int \<Rightarrow> int \<times> int \<Rightarrow> bool" where
  "rank_lt p q \<longleftrightarrow> fst p < fst q \<or> fst p = fst q \<and> snd p < snd q"

lemma num_lt_rank: "a \<noteq> NaN \<Longrightarrow> b \<noteq> NaN \<Longrightarrow> num_lt a b \<longleftrightarrow> rank_lt (num_rank a) (num_rank b)"
  by (cases a; cases b) (auto simp: rank_lt_def)

lemma num_eq_rank: "a \<noteq> NaN \<Longrightarrow> b \<noteq> NaN \<Longrightarrow> num_eq a b \<longleftrightarrow> num_rank a = num_rank b"
  by (cases a; cases b) auto

lemma sort_cmp_numeric:
  assumes "snd (snd l) = VNum a" "snd (snd r) = VNum b" "a \<noteq> NaN" "b \<noteq> NaN"
  shows "sort_cmp l r =
    (if num_rank a = num_rank b then int (fst (snd l)) - int (fst (snd r))
     else if rank_lt (num_rank b) (num_rank a) then 1 else -1)"
  using assms
  by (auto simp: sort_cmp_def Let_def num_lt_rank num_eq_rank rank_lt_def prod_eq_iff)

interpretation by_criterion: comparator sort_cmp numeric
proof
  fix x y
  assume "numeric x" "numeric y"
  then obtain a b where "snd (snd x) = VNum a" "snd (snd y) = VNum b" "a \<noteq> NaN" "b \<noteq> NaN"
    by (auto simp: numeric_def)
  then show "0 \<le> sort_cmp x y \<longleftrightarrow> sort_cmp y x \<le> 0"
    by (simp add: sort_cmp_numeric) (auto simp: rank_lt_def prod_eq_iff)
next
  fix x y z
  assume "numeric x" "numeric y" "numeric z" and le: "sort_cmp x y \<le> 0" "sort_cmp y z \<le> 0"
  then obtain a b c where "snd (snd x) = VNum a" "snd (snd y) = VNum b" "snd (snd z) = VNum c"
      "a \<noteq> NaN" "b \<noteq> NaN" "c \<noteq> NaN"
    by (auto simp: numeric_def)
  with le show "sort_cmp x z \<le> 0"
    by (simp add: sort_cmp_numeric split: if_splits) (auto simp: rank_lt_def prod_eq_iff)
qed

definition decorated :: "jsval \<Rightarrow> iteratee \<Rightarrow> (jsval \<times> nat \<times> jsval) list" where
  "decorated v it = map (\<lambda>(i, x, k). (x, i, cb it x k)) (enumerate 0 (entries v))"

lemma sortBy_decorated: "sortBy v it = map fst (js_sort sort_cmp (decorated v it))"
  by (simp add: sortBy_def decorated_def)

lemma map_fst_decorated: "map fst (decorated v it) = map fst (entries v)"
  by (rule nth_equalityI) (simp_all add: decorated_def nth_enumerate_eq split: prod.split)

lemma mset_sortBy: "mset (sortBy v it) = mset (map fst (entries v))"
proof -
  have "mset (sortBy v it) = image_mset fst (mset (decorated v it))"
    by (simp add: sortBy_decorated by_criterion.mset_js_sort)
  also have "\<dots> = mset (map fst (decorated v it))" by simp
  finally show ?thesis by (simp only: map_fst_decorated)
qed

section \<open>Aggregation\<close>

lemma groupBy_collect:
  "groupBy v it = props.collect (\<lambda>(x, k). to_str (cb it x k))
     (\<lambda>(x, k) old. case old of Some xs \<Rightarrow> xs @ [x] | None \<Rightarrow> [x]) [] (entries v)"
proof -
  have "(\<lambda>(r :: (jstr \<times> jsval list) list) (x, k). case obj_get r (to_str (cb it x k)) of
        None \<Rightarrow> obj_put (to_str (cb it x k)) [x] r
      | Some xs \<Rightarrow> obj_put (to_str (cb it x k)) (xs @ [x]) r) =
    (\<lambda>d x. obj_put ((\<lambda>(x, k). to_str (cb it x k)) x)
      ((\<lambda>(x, k) old. case old of Some xs \<Rightarrow> xs @ [x] | None \<Rightarrow> [x]) x
        (obj_get d ((\<lambda>(x, k). to_str (cb it x k)) x))) d)"
    by (auto simp: fun_eq_iff split: option.splits)
  then show ?thesis
    by (simp add: groupBy_def group_def each_def props.collect_def)
qed

lemma countBy_collect:
  "countBy v it = props.collect (\<lambda>(x, k). to_str (cb it x k))
     (\<lambda>_ old. case old of Some n \<Rightarrow> n + 1 | None \<Rightarrow> 1) [] (entries v)"
proof -
  have "(\<lambda>(r :: (jstr \<times> nat) list) (x, k). case obj_get r (to_str (cb it x k)) of
        None \<Rightarrow> obj_put (to_str (cb it x k)) 1 r
      | Some n \<Rightarrow> obj_put (to_str (cb it x k)) (n + 1) r) =
    (\<lambda>d x. obj_put ((\<lambda>(x, k). to_str (cb it x k)) x)
      (case obj_get d ((\<lambda>(x, k). to_str (cb it x k)) x) of Some n \<Rightarrow> n + 1 | None \<Rightarrow> 1) d)"
    by (auto simp: fun_eq_iff split: option.splits)
  then show ?thesis
    by (simp add: countBy_def group_def each_def props.collect_def del: One_nat_def)
qed

definition with_key :: "jsval \<Rightarrow> iteratee \<Rightarrow> jstr \<Rightarrow> jsval list" where
  "with_key v it key = map fst (filter (\<lambda>(x, k). to_str (cb it x k) = key) (entries v))"

lemma obj_ok_Nil [simp]: "obj_ok []" and obj_get_Nil [simp]: "obj_get [] k = None"
  by (simp_all add: obj_ok_def obj_get_def)

lemma foldl_group:
  "foldl (\<lambda>v x. Some (case v of Some xs \<Rightarrow> xs @ [fst x] | None \<Rightarrow> [fst x])) None es =
     (if es = [] then None else Some (map fst es))"
  by (induction es rule: rev_induct) auto

lemma foldl_count:
  "foldl (\<lambda>v x. Some (case v of Some n \<Rightarrow> n + 1 | None \<Rightarrow> (1::nat))) None es =
     (if es = [] then None else Some (length es))"
  by (induction es rule: rev_induct) auto

lemma groupBy_get:
  "obj_get (groupBy v it) key = (if with_key v it key = [] then None else Some (with_key v it key))"
  using foldl_group [of "filter (\<lambda>(x, k). to_str (cb it x k) = key) (entries v)"]
  by (simp add: groupBy_collect props.get_collect with_key_def split_def)

lemma countBy_get:
  "obj_get (countBy v it) key =
     (if with_key v it key = [] then None else Some (length (with_key v it key)))"
  using foldl_count [of "filter (\<lambda>(x, k). to_str (cb it x k) = key) (entries v)"]
  by (simp add: countBy_collect props.get_collect with_key_def split_def del: One_nat_def)

lemma max_us_ints:
  assumes "arr_ok ns"
  shows "max_us (VArr i (map VInt ns)) = (if ns = [] then VNum NInf else VInt (Max (set ns)))"
proof -
  have "arr_ok (map VInt ns)" using assms by (simp add: arr_ok_def)
  have step: "foldl (\<lambda>result value. if \<not> nullish value \<and> js_lt result value then value else result)
      (VInt m) (map VInt ns) = VInt (Max (insert m (set ns)))" for m ns
  proof (induction ns arbitrary: m)
    case (Cons n ns)
    have "(if \<not> nullish (VInt n) \<and> js_lt (VInt m) (VInt n) then VInt n else VInt m) = VInt (max m n)"
      by (simp add: nullish_def max_def)
    then have "foldl (\<lambda>result value. if \<not> nullish value \<and> js_lt result value then value else result)
        (VInt m) (map VInt (n # ns)) = VInt (Max (insert (max m n) (set ns)))"
      using Cons by simp
    also have "Max (insert (max m n) (set ns)) = Max (insert m (set (n # ns)))"
      by (cases "ns = []") (simp_all add: max.assoc max.left_commute)
    finally show ?case .
  qed simp
  show ?thesis
    using step [of "hd ns" "tl ns"] \<open>arr_ok (map VInt ns)\<close>
    by (cases ns) (simp_all add: max_us_def coll_values_def isArrayLike_arr nullish_def)
qed

section \<open>Stability\<close>

lemma decorated_arr:
  "arr_ok xs \<Longrightarrow> (\<And>x k. x \<in> set xs \<Longrightarrow> cb it x k = VInt (g x)) \<Longrightarrow>
     decorated (VArr i xs) it = map (\<lambda>(n, x). (x, n, VInt (g x))) (enumerate 0 xs)"
  by (rule nth_equalityI) (auto simp: decorated_def entries_arr nth_enumerate_eq split: prod.split)

lemma by_index_unique:
  fixes ds es :: "('a \<times> nat \<times> 'b) list"
  assumes "mset ds = mset es" "sorted_wrt (\<lambda>x y. fst (snd x) \<le> fst (snd y)) ds"
    "sorted_wrt (\<lambda>x y. fst (snd x) \<le> fst (snd y)) es" "distinct (map (fst \<circ> snd) es)"
  shows "ds = es"
proof -
  have set: "set ds = set es" using assms(1) by (rule mset_eq_setD)
  have "mset (map (fst \<circ> snd) ds) = mset (map (fst \<circ> snd) es)" using assms(1) by (simp add: mset_map)
  then have "distinct (map (fst \<circ> snd) ds)" using assms(4) mset_eq_imp_distinct_iff by blast
  moreover have "inj_on (fst \<circ> snd) (set ds \<union> set es)"
    using assms(4) set by (simp add: distinct_map)
  ultimately show ?thesis
    using assms set
    by (intro map_sorted_distinct_set_unique [of "fst \<circ> snd" ds es])
      (simp_all add: sorted_map comp_def)
qed

lemma sortBy_sort_key:
  assumes ok: "arr_ok xs" and g: "\<And>x k. x \<in> set xs \<Longrightarrow> cb it x k = VInt (g x)"
  shows "sortBy (VArr i xs) it = sort_key g xs"
proof -
  define D where "D = map (\<lambda>(n, x). (x, n, VInt (g x))) (enumerate 0 xs)"
  define L where "L = js_sort sort_cmp D"
  have crit: "snd (snd e) = VInt (g (fst e))" if "e \<in> set D" for e
    using that by (auto simp: D_def)
  have L: "mset L = mset D" by (simp add: L_def by_criterion.mset_js_sort)
  then have setL: "set L = set D" by (rule mset_eq_setD)
  have "list_all numeric D" using crit by (auto simp: list_all_iff numeric_def)
  then have sortedL: "sorted_wrt (\<lambda>x y. sort_cmp x y \<le> 0) L"
    unfolding L_def by (rule by_criterion.sorted_js_sort)
  have cmp: "sort_cmp x y \<le> 0 \<longleftrightarrow> g (fst x) < g (fst y) \<or> g (fst x) = g (fst y) \<and> fst (snd x) \<le> fst (snd y)"
    if "x \<in> set D" "y \<in> set D" for x y
    using sort_cmp_numeric [OF crit crit, of x y] that by (auto simp: rank_lt_def)
  have sortedD: "sorted_wrt (\<lambda>x y. fst (snd x) \<le> fst (snd y)) D"
    by (auto simp: D_def sorted_wrt_iff_nth_less nth_enumerate_eq)
  have distD: "distinct (map (fst \<circ> snd) D)"
  proof -
    have "map (fst \<circ> snd) D = [0..<length xs]"
      by (rule nth_equalityI) (simp_all add: D_def nth_enumerate_eq)
    then show ?thesis by simp
  qed
  have xs: "map fst D = xs" by (rule nth_equalityI) (simp_all add: D_def nth_enumerate_eq)
  have stable: "filter (\<lambda>e. g (fst e) = c) L = filter (\<lambda>e. g (fst e) = c) D" for c
  proof (rule by_index_unique)
    show "mset (filter (\<lambda>e. g (fst e) = c) L) = mset (filter (\<lambda>e. g (fst e) = c) D)"
      using L by simp
    have "sorted_wrt (\<lambda>x y. sort_cmp x y \<le> 0) (filter (\<lambda>e. g (fst e) = c) L)"
      using sortedL by (rule sorted_wrt_filter)
    then show "sorted_wrt (\<lambda>x y. fst (snd x) \<le> fst (snd y)) (filter (\<lambda>e. g (fst e) = c) L)"
      by (rule sorted_wrt_mono_rel [rotated]) (use cmp setL in auto)
    show "sorted_wrt (\<lambda>x y. fst (snd x) \<le> fst (snd y)) (filter (\<lambda>e. g (fst e) = c) D)"
      using sortedD by (rule sorted_wrt_filter)
    show "distinct (map (fst \<circ> snd) (filter (\<lambda>e. g (fst e) = c) D))"
      using distD by (rule distinct_map_filter)
  qed
  have "map fst L = sort_key g xs"
  proof (rule properties_for_sort_key [symmetric])
    have "mset (map fst L) = mset (map fst D)" by (simp add: mset_map L)
    then show "mset (map fst L) = mset xs" by (simp only: xs)
    have by_fst: "filter (\<lambda>x. g k = g x) (map fst M) = map fst (filter (\<lambda>e. g (fst e) = g k) M)"
      for k and M :: "(jsval \<times> nat \<times> jsval) list" by (induction M) auto
    show "filter (\<lambda>x. g k = g x) (map fst L) = filter (\<lambda>x. g k = g x) xs" if "k \<in> set (map fst L)" for k
      using by_fst [of k L] by_fst [of k D] stable [of "g k"] xs by simp
    show "sorted (map g (map fst L))"
    proof -
      have "sorted_wrt (\<lambda>x y. g (fst x) \<le> g (fst y)) L"
        by (rule sorted_wrt_mono_rel [OF _ sortedL]) (use cmp setL in force)
      then show ?thesis by (simp add: sorted_map comp_def)
    qed
  qed
  then show ?thesis by (simp add: sortBy_decorated decorated_arr [OF ok g] flip: D_def L_def)
qed

section \<open>Properties\<close>

text \<open>
  \<open>_.contains\<close> on an array decides membership up to \<open>===\<close>, except that \<open>NaN\<close> is found.
\<close>

theorem contains_decides_membership:
  assumes "arr_ok xs"
  shows "contains (VArr j xs) item NoIdx \<longleftrightarrow>
    (if item = VNum NaN then VNum NaN \<in> set xs else (\<exists>x \<in> set xs. strict_eq x item))"
  using contains_arr [OF assms, of j item] by (auto simp: same_item_def)

theorem contains_decides_membership_witness:
  "contains (VArr 0 [VInt 1, VNum NaN]) (VNum NaN) NoIdx \<and> \<not> contains (VArr 0 [VInt 1]) (VStr (lit ''1'')) NoIdx"
  using contains_decides_membership [of "[VInt 1, VNum NaN]" 0 "VNum NaN"]
    contains_decides_membership [of "[VInt 1]" 0 "VStr (lit ''1'')"]
  by (simp add: arr_ok_def)

text \<open>
  The binary search of \<open>_.sortedIndex\<close> on a sorted array finds the insertion point: the
  elements before it are smaller than the value under the iteratee, those from it on are not.
\<close>

theorem sortedIndex_insertion_point:
  assumes "sorted_wrt (\<lambda>x y. js_lt (f y) (f v) \<longrightarrow> js_lt (f x) (f v)) xs"
  shows "sortedIndex (VArr n xs) v f \<le> length xs \<and>
    (\<forall>x \<in> set (take (sortedIndex (VArr n xs) v f) xs). js_lt (f x) (f v)) \<and>
    (\<forall>x \<in> set (drop (sortedIndex (VArr n xs) v f) xs). \<not> js_lt (f x) (f v))"
proof (rule sortedIndex_arr)
  fix i j
  assume "i \<le> j" "j < length xs" "js_lt (f (xs ! j)) (f v)"
  with assms show "js_lt (f (xs ! i)) (f v)"
    unfolding sorted_wrt_iff_nth_less by (metis le_neq_implies_less)
qed

theorem sortedIndex_insertion_point_witness:
  "sortedIndex (VArr 0 [VInt 10, VInt 20]) (VInt 15) (\<lambda>x. x) = 1"
proof -
  let ?k = "sortedIndex (VArr 0 [VInt 10, VInt 20]) (VInt 15) (\<lambda>x. x)"
  have k: "?k \<le> 2" "\<forall>x \<in> set (take ?k [VInt 10, VInt 20]). js_lt x (VInt 15)"
      "\<forall>x \<in> set (drop ?k [VInt 10, VInt 20]). \<not> js_lt x (VInt 15)"
    using sortedIndex_insertion_point [of "\<lambda>x. x" "VInt 15" "[VInt 10, VInt 20]" 0] by simp_all
  then consider "?k = 0" | "?k = 1" | "?k = 2" by linarith
  then show ?thesis using k(2,3) by cases auto
qed

text \<open>
  \<open>_.sortBy\<close> with an integer criterion is the stable sort by that criterion.
\<close>

theorem sortBy_stable_sort:
  assumes "arr_ok xs" "\<And>x k. x \<in> set xs \<Longrightarrow> cb it x k = VInt (g x)"
  shows "sortBy (VArr i xs) it = sort_key g xs"
  using assms by (rule sortBy_sort_key)

theorem sortBy_stable_sort_witness:
  "sortBy (VArr 0 [VStr (lit ''bb''), VStr (lit ''c''), VStr (lit ''a'')]) (IFun (\<lambda>x _. getLength x)) =
     [VStr (lit ''c''), VStr (lit ''a''), VStr (lit ''bb'')]"
proof -
  let ?xs = "[VStr (lit ''bb''), VStr (lit ''c''), VStr (lit ''a'')]"
  let ?g = "\<lambda>v. case v of VStr s \<Rightarrow> int (length s) | _ \<Rightarrow> 0"
  have "sortBy (VArr 0 ?xs) (IFun (\<lambda>x _. getLength x)) = sort_key ?g ?xs"
    by (rule sortBy_stable_sort) (auto simp: arr_ok_def getLength_def shallowProperty_def nullish_def)
  then show ?thesis by (simp add: lit_def)
qed

text \<open>
  \<open>_.groupBy\<close> and \<open>_.countBy\<close>: the group of a key holds, in order, exactly the elements
  the iteratee sends to the key, the count is the length of the group, and there is no entry for
  a key that no element has.
\<close>

theorem groupBy_countBy_groups:
  "obj_get (groupBy v it) key = (if with_key v it key = [] then None else Some (with_key v it key)) \<and>
   obj_get (countBy v it) key = map_option length (obj_get (groupBy v it) key)"
  by (simp add: groupBy_get countBy_get)

end
