(* ===== verification/JS_URI.thy ===== *)
theory JS_URI
  imports Prelude
begin

text \<open>
  \<open>encodeURIComponent\<close> and \<open>decodeURIComponent\<close>, which \<open>doctools.js\<close> uses as \<open>jQuery.urlencode\<close> and
  inside \<open>jQuery.urldecode\<close>: percent-encoding of the UTF-8 form of a string of UTF-16 code units,
  with the \<open>URIError\<close> of a lone surrogate and of a malformed escape. The main lemma is the round
  trip: decoding what was encoded gives the string back.
\<close>

section \<open>Encoding\<close>

definition unreserved :: "int \<Rightarrow> bool" where
  "unreserved c = (65 \<le> c \<and> c \<le> 90 \<or> 97 \<le> c \<and> c \<le> 122 \<or> 48 \<le> c \<and> c \<le> 57 \<or>
     c \<in> set (lit ''-_.!~*()'') \<or> c = 39)"

definition utf8 :: "int \<Rightarrow> int list" where
  "utf8 cp =
     (if cp < 128 then [cp]
      else if cp < 2048 then [192 + cp div 64, 128 + cp mod 64]
      else if cp < 65536 then [224 + cp div 4096, 128 + (cp div 64) mod 64, 128 + cp mod 64]
      else [240 + cp div 262144, 128 + (cp div 4096) mod 64, 128 + (cp div 64) mod 64,
            128 + cp mod 64])"

definition hex_digit :: "int \<Rightarrow> int" where
  "hex_digit n = (if n < 10 then 48 + n else 55 + n)"

definition pct :: "int \<Rightarrow> jstr" where
  "pct b = [37, hex_digit (b div 16), hex_digit (b mod 16)]"

definition pct_utf8 :: "int \<Rightarrow> jstr" where
  "pct_utf8 cp = concat (map pct (utf8 cp))"

definition high_sur :: "int \<Rightarrow> bool" where "high_sur c = (55296 \<le> c \<and> c \<le> 56319)"
definition low_sur :: "int \<Rightarrow> bool" where "low_sur c = (56320 \<le> c \<and> c \<le> 57343)"

fun encodeURIComponent :: "jstr \<Rightarrow> js_error + jstr" where
  "encodeURIComponent [] = Inr []"
| "encodeURIComponent (c # cs) =
     (if unreserved c then map_sum id (\<lambda>r. c # r) (encodeURIComponent cs)
      else if low_sur c then Inl URIError
      else if high_sur c then
        (case cs of
           [] \<Rightarrow> Inl URIError
         | d # ds \<Rightarrow>
             if \<not> low_sur d then Inl URIError
             else map_sum id (\<lambda>r. pct_utf8 ((c - 55296) * 1024 + (d - 56320) + 65536) @ r)
                    (encodeURIComponent ds))
      else map_sum id (\<lambda>r. pct_utf8 c @ r) (encodeURIComponent cs))"

section \<open>Decoding\<close>

definition hex_val :: "int \<Rightarrow> int option" where
  "hex_val c =
     (if 48 \<le> c \<and> c \<le> 57 then Some (c - 48)
      else if 65 \<le> c \<and> c \<le> 70 then Some (c - 55)
      else if 97 \<le> c \<and> c \<le> 102 then Some (c - 87)
      else None)"

fun read_byte :: "jstr \<Rightarrow> (int \<times> jstr) option" where
  "read_byte (p # a # b # cs) =
     (if p \<noteq> 37 then None
      else case (hex_val a, hex_val b) of (Some x, Some y) \<Rightarrow> Some (16 * x + y, cs) | _ \<Rightarrow> None)"
| "read_byte _ = None"

text \<open>The continuation bytes of a sequence, folded into the code point.\<close>

fun read_conts :: "nat \<Rightarrow> int \<Rightarrow> jstr \<Rightarrow> (int \<times> jstr) option" where
  "read_conts 0 cp cs = Some (cp, cs)"
| "read_conts (Suc n) cp cs =
     (case read_byte cs of
        None \<Rightarrow> None
      | Some (b, cs') \<Rightarrow>
          if 128 \<le> b \<and> b < 192 then read_conts n (64 * cp + (b - 128)) cs' else None)"

text \<open>Leading byte: number of continuation bytes, its payload, and the least code point.\<close>

definition lead :: "int \<Rightarrow> (nat \<times> int \<times> int) option" where
  "lead b =
     (if 192 \<le> b \<and> b < 224 then Some (1, b - 192, 128)
      else if 224 \<le> b \<and> b < 240 then Some (2, b - 224, 2048)
      else if 240 \<le> b \<and> b < 248 then Some (3, b - 240, 65536)
      else None)"

definition to_units :: "int \<Rightarrow> jstr" where
  "to_units cp =
     (if cp < 65536 then [cp]
      else [55296 + (cp - 65536) div 1024, 56320 + (cp - 65536) mod 1024])"

definition read_char :: "jstr \<Rightarrow> (jstr \<times> jstr) option" where
  "read_char s =
     (case read_byte s of
        None \<Rightarrow> None
      | Some (b, cs) \<Rightarrow>
          if b < 128 then Some ([b], cs)
          else (case lead b of
                  None \<Rightarrow> None
                | Some (n, pay, least) \<Rightarrow>
                    (case read_conts n pay cs of
                       None \<Rightarrow> None
                     | Some (cp, rest) \<Rightarrow>
                         if cp < least \<or> 1114111 < cp \<or> 55296 \<le> cp \<and> cp \<le> 57343 then None
                         else Some (to_units cp, rest))))"

lemma read_byte_length: "read_byte s = Some (b, r) \<Longrightarrow> length r < length s"
  by (induction s rule: read_byte.induct) (auto split: if_splits option.splits)

lemma read_conts_length: "read_conts n cp s = Some (c, r) \<Longrightarrow> length r \<le> length s"
proof (induction n cp s rule: read_conts.induct)
  case (2 n cp s)
  from "2.prems" obtain b s' where b: "read_byte s = Some (b, s')" "128 \<le> b \<and> b < 192"
    and r: "read_conts n (64 * cp + (b - 128)) s' = Some (c, r)"
    by (auto split: option.splits if_splits)
  from "2.IH" [OF b(1) refl b(2) r] read_byte_length [OF b(1)] show ?case by simp
qed simp

lemma read_char_length: "read_char s = Some (u, r) \<Longrightarrow> length r < length s"
  by (auto simp: read_char_def split: option.splits if_splits
      dest!: read_byte_length read_conts_length)

function decodeURIComponent :: "jstr \<Rightarrow> js_error + jstr" where
  "decodeURIComponent s =
     (case s of
        [] \<Rightarrow> Inr []
      | c # cs \<Rightarrow>
          if c \<noteq> 37 then map_sum id (\<lambda>r. c # r) (decodeURIComponent cs)
          else (case read_char s of
                  None \<Rightarrow> Inl URIError
                | Some (u, rest) \<Rightarrow> map_sum id (\<lambda>r. u @ r) (decodeURIComponent rest)))"
  by pat_completeness auto
termination
  by (relation "measure length") (auto dest: read_char_length)

declare decodeURIComponent.simps [simp del]

lemma decodeURIComponent_Nil [simp]: "decodeURIComponent [] = Inr []"
  by (simp add: decodeURIComponent.simps)

lemma decodeURIComponent_plain [simp]:
  "c \<noteq> 37 \<Longrightarrow> decodeURIComponent (c # cs) = map_sum id (\<lambda>r. c # r) (decodeURIComponent cs)"
  by (subst decodeURIComponent.simps) simp

lemma decodeURIComponent_char:
  "read_char (37 # s) = Some (u, rest) \<Longrightarrow>
     decodeURIComponent (37 # s) = map_sum id (\<lambda>r. u @ r) (decodeURIComponent rest)"
  by (subst decodeURIComponent.simps) simp

section \<open>Round trip\<close>

lemma hex_val_digit [simp]: "0 \<le> n \<Longrightarrow> n < 16 \<Longrightarrow> hex_val (hex_digit n) = Some n"
  by (simp add: hex_val_def hex_digit_def)

lemma read_byte_pct: "0 \<le> b \<Longrightarrow> b < 256 \<Longrightarrow> read_byte (pct b @ r) = Some (b, r)"
  by (simp add: pct_def)

lemma digits3: "(n::int) = 64 * (64 * (n div 4096) + (n div 64) mod 64) + n mod 64"
  using zdiv_zmult2_eq [of 64 n 64] div_mult_mod_eq [of "n div 64" 64] div_mult_mod_eq [of n 64]
  by simp

lemma digits4:
  "(n::int) = 64 * (64 * (64 * (n div 262144) + (n div 4096) mod 64) + (n div 64) mod 64) + n mod 64"
  using zdiv_zmult2_eq [of 64 n 64] zdiv_zmult2_eq [of 64 "n div 64" 4096] zdiv_zmult2_eq [of 4096 n 64]
    digits3 [of "n div 64"] div_mult_mod_eq [of n 64]
  by simp

lemma utf8_cases:
  assumes "0 \<le> cp" "cp < 1114112"
  obtains (one) "cp < 128" "utf8 cp = [cp]"
    | (two) x y where "128 \<le> cp" "0 \<le> x" "x < 32" "0 \<le> y" "y < 64" "cp = 64 * x + y"
        "utf8 cp = [192 + x, 128 + y]"
    | (three) x y z where "2048 \<le> cp" "0 \<le> x" "x < 16" "0 \<le> y" "y < 64" "0 \<le> z" "z < 64"
        "cp = 64 * (64 * x + y) + z" "utf8 cp = [224 + x, 128 + y, 128 + z]"
    | (four) x y z w where "65536 \<le> cp" "0 \<le> x" "x < 8" "0 \<le> y" "y < 64" "0 \<le> z" "z < 64"
        "0 \<le> w" "w < 64" "cp = 64 * (64 * (64 * x + y) + z) + w"
        "utf8 cp = [240 + x, 128 + y, 128 + z, 128 + w]"
proof -
  consider "cp < 128" | "128 \<le> cp" "cp < 2048" | "2048 \<le> cp" "cp < 65536" | "65536 \<le> cp"
    by linarith
  then show ?thesis
  proof cases
    case 1
    show ?thesis by (rule one) (use 1 in \<open>simp_all add: utf8_def\<close>)
  next
    case 2
    show ?thesis
      by (rule two [of "cp div 64" "cp mod 64"]) (use 2 in \<open>simp_all add: utf8_def\<close>)
  next
    case 3
    show ?thesis
      by (rule three [OF 3(1) _ _ _ _ _ _ digits3]) (use 3 in \<open>simp_all add: utf8_def\<close>)
  next
    case 4
    show ?thesis
      by (rule four [OF 4 _ _ _ _ _ _ _ _ digits4]) (use 4 assms in \<open>simp_all add: utf8_def\<close>)
  qed
qed

lemma read_char_utf8:
  assumes "0 \<le> cp" "cp < 1114112" "\<not> (55296 \<le> cp \<and> cp \<le> 57343)"
  shows "read_char (pct_utf8 cp @ r) = Some (to_units cp, r)"
  using assms(1,2)
proof (cases rule: utf8_cases)
  case one
  with assms show ?thesis
    by (simp add: pct_utf8_def read_char_def read_byte_pct to_units_def)
next
  case (two x y)
  with assms show ?thesis
    by (simp add: pct_utf8_def read_char_def read_byte_pct lead_def)
next
  case (three x y z)
  with assms show ?thesis
    by (simp add: pct_utf8_def read_char_def read_byte_pct lead_def numeral_2_eq_2 del: One_nat_def)
next
  case (four x y z w)
  with assms show ?thesis
    by (simp add: pct_utf8_def read_char_def read_byte_pct lead_def numeral_3_eq_3 del: One_nat_def)
qed

lemma decode_pct_utf8:
  assumes "0 \<le> cp" "cp < 1114112" "\<not> (55296 \<le> cp \<and> cp \<le> 57343)"
  shows "decodeURIComponent (pct_utf8 cp @ r) =
    map_sum id (\<lambda>r. to_units cp @ r) (decodeURIComponent r)"
proof -
  have "utf8 cp \<noteq> []" by (simp add: utf8_def)
  then obtain s where s: "pct_utf8 cp @ r = 37 # s"
    by (cases "utf8 cp") (auto simp: pct_utf8_def pct_def)
  show ?thesis
    using read_char_utf8 [OF assms, of r] unfolding s by (rule decodeURIComponent_char)
qed

lemma unreserved_not_pct [simp]: "unreserved c \<Longrightarrow> c \<noteq> 37"
  by (auto simp: unreserved_def lit_def)

text \<open>An encoded string holds unreserved characters and percent signs only.\<close>

lemma pct_unreserved:
  assumes "0 \<le> b" "b < 256" "x \<in> set (pct b)"
  shows "unreserved x \<or> x = 37"
proof -
  have "unreserved (hex_digit n)" if "0 \<le> n" "n < 16" for n
    using that by (auto simp: unreserved_def hex_digit_def)
  moreover have "0 \<le> b div 16" "b div 16 < 16" "0 \<le> b mod 16" "b mod 16 < 16"
    using assms(1,2) by simp_all
  ultimately show ?thesis using assms(3) by (auto simp: pct_def)
qed

lemma pct_utf8_unreserved:
  assumes "0 \<le> cp" "cp < 1114112" "x \<in> set (pct_utf8 cp)"
  shows "unreserved x \<or> x = 37"
proof -
  have "\<forall>b \<in> set (utf8 cp). 0 \<le> b \<and> b < 256"
    by (rule utf8_cases [OF assms(1,2)]) (use assms(1) in auto)
  with assms(3) show ?thesis by (auto simp: pct_utf8_def dest: pct_unreserved)
qed

lemma encodeURIComponent_unreserved:
  "units s \<Longrightarrow> encodeURIComponent s = Inr e \<Longrightarrow> x \<in> set e \<Longrightarrow> unreserved x \<or> x = 37"
proof (induction s arbitrary: e rule: encodeURIComponent.induct)
  case (2 c cs)
  then have c: "0 \<le> c" "c < 65536" and cs: "units cs" by (simp_all add: units_def)
  consider (plain) "unreserved c" | (pair) "\<not> unreserved c" "\<not> low_sur c" "high_sur c"
    | (other) "\<not> unreserved c" "\<not> low_sur c" "\<not> high_sur c" | (low) "\<not> unreserved c" "low_sur c"
    by blast
  then show ?case
  proof cases
    case plain
    with 2 cs show ?thesis by (cases "encodeURIComponent cs") auto
  next
    case low
    with 2 show ?thesis by simp
  next
    case other
    with 2 obtain r where r: "encodeURIComponent cs = Inr r" "e = pct_utf8 c @ r"
      by (cases "encodeURIComponent cs") auto
    with other 2 cs c show ?thesis using pct_utf8_unreserved [of c x] by auto
  next
    case pair
    with 2 obtain d ds where d: "cs = d # ds" "low_sur d" by (auto split: list.splits if_splits)
    let ?cp = "(c - 55296) * 1024 + (d - 56320) + 65536"
    from 2 pair d obtain r where r: "encodeURIComponent ds = Inr r" "e = pct_utf8 ?cp @ r"
      by (cases "encodeURIComponent ds") auto
    have "0 \<le> ?cp" "?cp < 1114112"
      using pair d by (auto simp: high_sur_def low_sur_def)
    with pair d r 2 cs show ?thesis
      using pct_utf8_unreserved [of ?cp x] by (auto simp: units_def)
  qed
qed simp

lemma decode_encode:
  "units s \<Longrightarrow> encodeURIComponent s = Inr e \<Longrightarrow> decodeURIComponent e = Inr s"
proof (induction s arbitrary: e rule: encodeURIComponent.induct)
  case (2 c cs)
  then have c: "0 \<le> c" "c < 65536" and cs: "units cs" by (simp_all add: units_def)
  consider (plain) "unreserved c" | (pair) "\<not> unreserved c" "\<not> low_sur c" "high_sur c"
    | (other) "\<not> unreserved c" "\<not> low_sur c" "\<not> high_sur c" | (low) "\<not> unreserved c" "low_sur c"
    by blast
  then show ?case
  proof cases
    case plain
    with 2 cs show ?thesis by (cases "encodeURIComponent cs") auto
  next
    case low
    with 2 show ?thesis by simp
  next
    case other
    with 2 obtain r where r: "encodeURIComponent cs = Inr r" "e = pct_utf8 c @ r"
      by (cases "encodeURIComponent cs") auto
    from other 2 cs r(1) have "decodeURIComponent r = Inr cs" by simp
    moreover from other have "\<not> (55296 \<le> c \<and> c \<le> 57343)"
      by (auto simp: high_sur_def low_sur_def)
    ultimately show ?thesis
      using c r decode_pct_utf8 [of c r] by (simp add: to_units_def)
  next
    case pair
    with 2 obtain d ds where d: "cs = d # ds" "low_sur d" by (auto split: list.splits if_splits)
    let ?cp = "(c - 55296) * 1024 + (d - 56320) + 65536"
    from 2 pair d obtain r where r: "encodeURIComponent ds = Inr r" "e = pct_utf8 ?cp @ r"
      by (cases "encodeURIComponent ds") auto
    from pair 2 cs d r(1) have "decodeURIComponent r = Inr ds" by (simp add: units_def)
    moreover have "0 \<le> ?cp" "?cp < 1114112" "\<not> (55296 \<le> ?cp \<and> ?cp \<le> 57343)"
      using pair d by (auto simp: high_sur_def low_sur_def)
    moreover have "to_units ?cp = [c, d]"
    proof -
      have eq: "?cp - 65536 = (d - 56320) + (c - 55296) * 1024" by simp
      have "\<not> ?cp < 65536" "0 \<le> d - 56320" "d - 56320 < 1024"
        using pair d by (auto simp: high_sur_def low_sur_def)
      then show ?thesis
        unfolding to_units_def eq div_mult_self1_is_m mod_mult_self1 by simp
    qed
    ultimately show ?thesis using d r by (simp add: decode_pct_utf8)
  qed
qed simp

end
