(* ===== verification/Query_Params.thy ===== *)
theory Query_Params
  imports JS_URI JS_Values
begin

text \<open>
  The URL helpers of \<open>doctools.js\<close>: \<open>urldecode\<close>, \<open>urlencode\<close> and \<open>getQueryParameters\<close>. A missing
  value is \<open>undefined\<close> (\<open>None\<close>). The result object is a property store; a key that
  \<open>Object.prototype\<close> already has is found by \<open>key in result\<close> without being an array, so the
  call of \<open>push\<close> on it raises a \<open>TypeError\<close>.
\<close>

section \<open>Operations\<close>

definition urldecode :: "jstr option \<Rightarrow> js_error + jstr option" where
  "urldecode x =
     (case x of
        None \<Rightarrow> Inr None
      | Some s \<Rightarrow>
          if s = [] then Inr (Some [])
          else map_sum id Some (decodeURIComponent (map (\<lambda>c. if c = 43 then 32 else c) s)))"

definition urlencode :: "jstr \<Rightarrow> js_error + jstr" where
  "urlencode s = encodeURIComponent s"

text \<open>\<open>s.split('=', 2)\<close>, read as its first and its second piece.\<close>

definition split_pair :: "jstr \<Rightarrow> jstr \<times> jstr option" where
  "split_pair part =
     (case take 2 (split_char 61 part) of [k] \<Rightarrow> (k, None) | k # v # _ \<Rightarrow> (k, Some v))"

type_synonym params = "(jstr \<times> jstr option list) list"

definition add_param :: "jstr \<Rightarrow> jstr option \<Rightarrow> params \<Rightarrow> js_error + params" where
  "add_param key value result =
     (case obj_get result key of
        Some vs \<Rightarrow> Inr (obj_put key (vs @ [value]) result)
      | None \<Rightarrow>
          if key \<in> set object_proto then Inl TypeError
          else Inr (obj_put key [value] result))"

fun params_loop :: "jstr list \<Rightarrow> params \<Rightarrow> js_error + params" where
  "params_loop [] result = Inr result"
| "params_loop (part # parts) result =
     (let tmp = split_pair part in
      case urldecode (Some (fst tmp)) of
        Inl e \<Rightarrow> Inl e
      | Inr key \<Rightarrow>
          (case urldecode (snd tmp) of
             Inl e \<Rightarrow> Inl e
           | Inr value \<Rightarrow>
               (case add_param (the key) value result of
                  Inl e \<Rightarrow> Inl e
                | Inr result' \<Rightarrow> params_loop parts result')))"

text \<open>The argument is \<open>None\<close> when the caller passes nothing; then the page's query string is used.\<close>

definition getQueryParameters :: "jstr \<Rightarrow> jstr option \<Rightarrow> js_error + params" where
  "getQueryParameters location_search s =
     (let s = (case s of None \<Rightarrow> location_search | Some s \<Rightarrow> s)
      in params_loop (split_char 38 (substr_from s (indexOf s [63] + 1))) [])"

section \<open>The keys of a decoded query\<close>

lemma urldecode_Some: "urldecode (Some s) = Inr k \<Longrightarrow> \<exists>t. k = Some t"
  by (cases "decodeURIComponent (map (\<lambda>c. if c = 43 then 32 else c) s)")
    (auto simp: urldecode_def split: if_splits)

lemma add_param_get:
  "add_param k v r = Inr r' \<Longrightarrow>
     obj_get r' j = (if j = k then Some (case obj_get r k of None \<Rightarrow> [v] | Some vs \<Rightarrow> vs @ [v])
                     else obj_get r j)"
  by (auto simp: add_param_def obj_get_put split: option.splits if_splits)

lemma add_param_ok: "add_param k v r = Inr r' \<Longrightarrow> obj_ok r \<Longrightarrow> obj_ok r'"
  by (auto simp: add_param_def obj_ok_put split: option.splits if_splits)

section \<open>Encoding a query\<close>

text \<open>The query string a form submits for a list of key/value pairs.\<close>

definition encodable :: "jstr \<Rightarrow> bool" where
  "encodable s = (units s \<and> (\<exists>e. urlencode s = Inr e))"

definition enc :: "jstr \<Rightarrow> jstr" where
  "enc s = (case urlencode s of Inr e \<Rightarrow> e | Inl _ \<Rightarrow> [])"

definition query_of :: "(jstr \<times> jstr) list \<Rightarrow> jstr" where
  "query_of kvs = 63 # join [38] (map (\<lambda>(k, v). enc k @ 61 # enc v) kvs)"

lemma enc_chars:
  assumes "encodable s" "x \<in> set (enc s)"
  shows "x \<noteq> 38" "x \<noteq> 61" "x \<noteq> 63" "x \<noteq> 43"
proof -
  from assms have "unreserved x \<or> x = 37"
    by (auto simp: encodable_def enc_def urlencode_def dest: encodeURIComponent_unreserved)
  then show "x \<noteq> 38" "x \<noteq> 61" "x \<noteq> 63" "x \<noteq> 43"
    by (auto simp: unreserved_def lit_def)
qed

lemma urldecode_enc:
  assumes "encodable s"
  shows "urldecode (Some (enc s)) = Inr (Some s)"
proof -
  from assms obtain e where e: "units s" "encodeURIComponent s = Inr e"
    by (auto simp: encodable_def urlencode_def)
  then have enc: "enc s = e" and dec: "decodeURIComponent e = Inr s"
    by (simp_all add: enc_def urlencode_def decode_encode)
  from enc_chars(4) [OF assms] enc have "map (\<lambda>c. if c = 43 then 32 else c) e = e"
    by (intro map_idI) auto
  with enc dec show ?thesis by (auto simp: urldecode_def)
qed

lemma split_pair_enc:
  assumes "encodable k" "encodable v"
  shows "split_pair (enc k @ 61 # enc v) = (enc k, Some (enc v))"
proof -
  have "split_char 61 (enc k @ 61 # enc v) = [enc k, enc v]"
    using enc_chars(2) [OF assms(1)] enc_chars(2) [OF assms(2)]
    by (subst split_char_append_sep) (auto intro: split_char_no_occurrence)
  then show ?thesis by (simp add: split_pair_def)
qed

text \<open>The loop over the parts is a sequence of \<open>add_param\<close> calls.\<close>

definition values_for :: "(jstr \<times> jstr) list \<Rightarrow> jstr \<Rightarrow> jstr option list" where
  "values_for kvs k = map (Some \<circ> snd) (filter (\<lambda>kv. fst kv = k) kvs)"

lemma params_loop_enc:
  assumes "\<And>k v. (k, v) \<in> set kvs \<Longrightarrow> encodable k \<and> encodable v \<and> k \<notin> set object_proto"
    and "obj_ok r"
  shows "\<exists>r'. params_loop (map (\<lambda>(k, v). enc k @ 61 # enc v) kvs) r = Inr r' \<and> obj_ok r' \<and>
    (\<forall>j. obj_get r' j = (if values_for kvs j = [] then obj_get r j
       else Some ((case obj_get r j of None \<Rightarrow> [] | Some vs \<Rightarrow> vs) @ values_for kvs j)))"
  using assms
proof (induction kvs arbitrary: r)
  case Nil
  then show ?case by (simp add: values_for_def)
next
  case (Cons kv kvs)
  obtain k v where kv: "kv = (k, v)" by (cases kv)
  with Cons.prems(1) have k: "encodable k" "encodable v" "k \<notin> set object_proto" by auto
  then obtain r1 where r1: "add_param k (Some v) r = Inr r1"
    by (cases "obj_get r k") (auto simp: add_param_def)
  with Cons.prems(2) have ok: "obj_ok r1" by (rule add_param_ok [rotated])
  with Cons.IH [of r1] Cons.prems(1) obtain r' where
    r': "params_loop (map (\<lambda>(k, v). enc k @ 61 # enc v) kvs) r1 = Inr r'" "obj_ok r'"
    and g: "\<And>j. obj_get r' j = (if values_for kvs j = [] then obj_get r1 j
       else Some ((case obj_get r1 j of None \<Rightarrow> [] | Some vs \<Rightarrow> vs) @ values_for kvs j))"
    by auto
  have "obj_get r' j = (if values_for (kv # kvs) j = [] then obj_get r j
       else Some ((case obj_get r j of None \<Rightarrow> [] | Some vs \<Rightarrow> vs) @ values_for (kv # kvs) j))" for j
    unfolding g using add_param_get [OF r1, of j] kv
    by (cases "j = k") (auto simp: values_for_def split: option.splits)
  with r' r1 kv k show ?case
    by (intro exI [of _ r']) (simp add: split_pair_enc urldecode_enc)
qed

text \<open>The whole query: each key has its values, in order.\<close>

lemma getQueryParameters_query_of:
  assumes "kvs \<noteq> []"
    and "\<And>k v. (k, v) \<in> set kvs \<Longrightarrow> encodable k \<and> encodable v \<and> k \<notin> set object_proto"
  shows "\<exists>r. getQueryParameters here (Some (query_of kvs)) = Inr r \<and>
    (\<forall>k. obj_get r k = (if values_for kvs k = [] then None else Some (values_for kvs k)))"
proof -
  let ?ps = "map (\<lambda>(k, v). enc k @ 61 # enc v) kvs"
  have "split_char 38 (join [38] ?ps) = ?ps"
    by (rule split_char_join) (use assms in \<open>auto, (metis enc_chars(1))+\<close>)
  moreover have "substr_from (query_of kvs) (indexOf (query_of kvs) [63] + 1) = join [38] ?ps"
    by (simp add: query_of_def indexOf_def substr_from_def)
  moreover have "obj_ok ([] :: params)" by (rule props.ok_empty)
  ultimately show ?thesis
    using params_loop_enc [of kvs "[]"] assms(2)
    by (auto simp: getQueryParameters_def obj_get_def)
qed

section \<open>Properties\<close>

text \<open>
  A query of one parameter \<open>?k=v\<close>: it is stored under its key, unless the key is a name of
  \<open>Object.prototype\<close>; then the call raises a \<open>TypeError\<close>.
\<close>

theorem getQueryParameters_single:
  assumes "encodable k" "encodable v"
  shows "getQueryParameters here (Some (query_of [(k, v)])) =
    (if k \<in> set object_proto then Inl TypeError else Inr [(k, [Some v])])"
proof -
  have "split_char 38 (enc k @ 61 # enc v) = [enc k @ 61 # enc v]"
    by (rule split_char_no_occurrence) (use enc_chars(1) [OF assms(1)] enc_chars(1) [OF assms(2)] in auto)
  then show ?thesis
    by (simp add: getQueryParameters_def query_of_def indexOf_def substr_from_def split_pair_enc
        urldecode_enc assms add_param_def obj_get_def obj_put_def)
qed

theorem getQueryParameters_single_witness:
  "getQueryParameters [] (Some (query_of [(lit ''constructor'', lit ''1'')])) = Inl TypeError"
proof -
  have "encodeURIComponent (lit ''constructor'') = Inr (lit ''constructor'')"
    "encodeURIComponent (lit ''1'') = Inr (lit ''1'')"
    by code_simp+
  then have "encodable (lit ''constructor'')" "encodable (lit ''1'')"
    by (auto simp: encodable_def urlencode_def units_def lit_def)
  from getQueryParameters_single [OF this] show ?thesis by (simp add: object_proto_def)
qed

end
