(* ===== verification/Doc_Highlight.thy ===== *)
theory Doc_Highlight
  imports JS_Values
begin

text \<open>
  \<open>jQuery.fn.highlightText\<close> and the unmarking done by \<open>Documentation.hideSearchWords\<close>
  (\<open>doctools.js\<close>), on a tree of DOM nodes. Elements carry an identity, their tag name and their
  class tokens. \<open>toLowerCase\<close> and the layout boxes of SVG elements come from the browser and are
  parameters (\<open>he_lower\<close>, \<open>he_bbox\<close>).

  \<open>highlight\<close> walks the live child list of an element while it inserts into it:
  \<open>jQuery.each(node.childNodes, ..)\<close> reads the length once and then visits that many positions of
  the changing list. \<open>hl_nodes\<close> keeps exactly this: the number of positions left to visit and the
  nodes from the current position on.
\<close>

section \<open>Trees\<close>

datatype 'g dom =
    Text jstr
  | Elem nat jstr "jstr list" "'g dom list"   \<comment> \<open>identity, tag, classes, children\<close>
  | Rect 'g jstr                              \<comment> \<open>SVG rectangle: box, class\<close>

primrec text_content :: "'g dom \<Rightarrow> jstr" where
  "text_content (Text v) = v"
| "text_content (Elem i t c ks) = concat (map text_content ks)"
| "text_content (Rect g c) = []"

section \<open>Highlighting\<close>

record 'g hl_env =
  he_lower :: "jstr \<Rightarrow> jstr"
  he_text :: jstr
  he_class :: jstr
  he_bbox :: "nat \<Rightarrow> nat \<Rightarrow> 'g"   \<comment> \<open>box of an element, at the time of the n-th request\<close>

record 'g hl_state =
  next_id :: nat
  add_items :: "(nat \<times> 'g dom) list"

definition svg_below :: "bool \<Rightarrow> jstr \<Rightarrow> bool" where
  "svg_below svg t =
     (if t = lit ''svg'' then True
      else if t \<in> {lit ''body'', lit ''foreignObject''} then False else svg)"

definition skipped_tag :: "jstr \<Rightarrow> bool" where
  "skipped_tag t = (t \<in> {lit ''button'', lit ''select'', lit ''textarea''})"

text \<open>The span around a match, and the rectangle an SVG match leaves to be inserted later.\<close>

definition new_span :: "'g hl_env \<Rightarrow> bool \<Rightarrow> nat \<Rightarrow> jstr \<Rightarrow> 'g dom" where
  "new_span env svg i w =
     (if svg then Elem i (lit ''tspan'') [] [Text w]
      else Elem i (lit ''span'') [he_class env] [Text w])"

definition after_match :: "'g hl_env \<Rightarrow> bool \<Rightarrow> nat \<Rightarrow> 'g hl_state \<Rightarrow> 'g hl_state" where
  "after_match env svg pid st =
     (let st' = st\<lparr>next_id := Suc (next_id st)\<rparr>
      in if svg
         then st'\<lparr>add_items := add_items st @
                [(pid, Rect (he_bbox env pid (length (add_items st))) (he_class env))]\<rparr>
         else st')"

text \<open>
  \<open>hl_nodes fuel env svg pid pcls n nodes st\<close> visits \<open>n\<close> positions of the live list \<open>nodes\<close>, the
  children of the element \<open>pid\<close> with classes \<open>pcls\<close>; \<open>fuel\<close> bounds the depth of the recursion.
\<close>

fun hl_nodes ::
  "nat \<Rightarrow> 'g hl_env \<Rightarrow> bool \<Rightarrow> nat \<Rightarrow> jstr list \<Rightarrow> nat \<Rightarrow> 'g dom list \<Rightarrow> 'g hl_state \<Rightarrow>
   'g dom list \<times> 'g hl_state" where
  "hl_nodes fuel env svg pid pcls 0 nodes st = (nodes, st)"
| "hl_nodes fuel env svg pid pcls (Suc n) [] st = ([], st)"
| "hl_nodes fuel env svg pid pcls (Suc n) (Text v # rest) st =
     (let pos = indexOf (he_lower env v) (he_text env);
          m = length (he_text env)
      in if 0 \<le> pos \<and> he_class env \<notin> set pcls \<and> lit ''nohighlight'' \<notin> set pcls
         then (let (ns, st') =
                 hl_nodes fuel env svg pid pcls n
                   (new_span env svg (next_id st) (substr v pos m) #
                    Text (substr_from v (pos + int m)) # rest)
                   (after_match env svg pid st)
               in (Text (substr v 0 (nat pos)) # ns, st'))
         else (let (ns, st') = hl_nodes fuel env svg pid pcls n rest st in (Text v # ns, st')))"
| "hl_nodes fuel env svg pid pcls (Suc n) (Rect g c # rest) st =
     (let (ns, st') = hl_nodes fuel env svg pid pcls n rest st in (Rect g c # ns, st'))"
| "hl_nodes 0 env svg pid pcls (Suc n) (Elem i t c ks # rest) st =
     (let (ns, st') = hl_nodes 0 env svg pid pcls n rest st in (Elem i t c ks # ns, st'))"
| "hl_nodes (Suc fuel) env svg pid pcls (Suc n) (Elem i t c ks # rest) st =
     (let (ks', st1) = (if skipped_tag t then (ks, st)
                        else hl_nodes fuel env (svg_below svg t) i c (length ks) ks st);
          (ns, st') = hl_nodes (Suc fuel) env svg pid pcls n rest st1
      in (Elem i t c ks' # ns, st'))"

primrec height :: "'g dom \<Rightarrow> nat" where
  "height (Text v) = 1"
| "height (Elem i t c ks) = Suc (foldr max (map height ks) 1)"
| "height (Rect g c) = 1"

definition highlight ::
  "'g hl_env \<Rightarrow> bool \<Rightarrow> 'g dom \<Rightarrow> 'g hl_state \<Rightarrow> 'g dom list \<times> 'g hl_state" where
  "highlight env svg node st = hl_nodes (height node) env svg 0 [] 1 [node] st"

text \<open>\<open>jQuery(parent).before(rect)\<close> on the children of every element.\<close>

fun insert_before :: "nat \<Rightarrow> 'g dom \<Rightarrow> 'g dom \<Rightarrow> 'g dom list" where
  "insert_before p r (Elem i t c ks) =
     (if i = p then [r] else []) @ [Elem i t c (concat (map (insert_before p r) ks))]"
| "insert_before p r n = [n]"

fun highlight_all ::
  "'g hl_env \<Rightarrow> bool \<Rightarrow> 'g dom list \<Rightarrow> 'g hl_state \<Rightarrow> 'g dom list \<times> 'g hl_state" where
  "highlight_all env svg [] st = ([], st)"
| "highlight_all env svg (n # ns) st =
     (let (n', st1) = highlight env svg n st; (ns', st2) = highlight_all env svg ns st1
      in (n' @ ns', st2))"

text \<open>
  The whole method on a set of elements: highlight each, then insert the rectangles. A rectangle
  that belongs before one of the elements of the set itself stands next to it in the result.
\<close>

definition highlightText ::
  "(jstr \<Rightarrow> jstr) \<Rightarrow> (nat \<Rightarrow> nat \<Rightarrow> 'g) \<Rightarrow> nat \<Rightarrow> bool \<Rightarrow> jstr \<Rightarrow> jstr \<Rightarrow> 'g dom list \<Rightarrow> 'g dom list" where
  "highlightText lower bbox fresh svg text className nodes =
     (let env = \<lparr>he_lower = lower, he_text = text, he_class = className, he_bbox = bbox\<rparr>;
          (ns, st) = highlight_all env svg nodes \<lparr>next_id = fresh, add_items = []\<rparr>
      in foldl (\<lambda>ns (p, r). concat (map (insert_before p r) ns)) ns (add_items st))"

section \<open>Removing the marks\<close>

text \<open>\<open>$('span.highlighted').removeClass('highlighted')\<close>\<close>

primrec unmark :: "jstr \<Rightarrow> 'g dom \<Rightarrow> 'g dom" where
  "unmark c (Text v) = Text v"
| "unmark c (Elem i t cs ks) =
     Elem i t (if t = lit ''span'' then filter (\<lambda>x. x \<noteq> c) cs else cs) (map (unmark c) ks)"
| "unmark c (Rect g d) = Rect g d"

text \<open>The texts of the elements that carry a class.\<close>

primrec marked :: "jstr \<Rightarrow> 'g dom \<Rightarrow> jstr list" where
  "marked c (Text v) = []"
| "marked c (Elem i t cs ks) =
     (if c \<in> set cs then [concat (map text_content ks)] else []) @ concat (map (marked c) ks)"
| "marked c (Rect g d) = []"

section \<open>The text survives\<close>

lemma substr_parts:
  "0 \<le> pos \<Longrightarrow> substr v 0 (nat pos) @ substr v pos m @ substr_from v (pos + int m) = v"
proof -
  assume "0 \<le> pos"
  then obtain k where "pos = int k" by (metis nat_0_le)
  then show ?thesis
    by (simp add: substr_def substr_from_def nat_add_distrib add.commute [of k m])
      (metis append_take_drop_id drop_drop)
qed

lemma text_new_span [simp]: "text_content (new_span env svg i w) = w"
  by (simp add: new_span_def)

lemma hl_nodes_text:
  "concat (map text_content (fst (hl_nodes fuel env svg pid pcls n nodes st))) =
     concat (map text_content nodes)"
proof (induction fuel env svg pid pcls n nodes st rule: hl_nodes.induct)
  case (3 fuel env svg pid pcls n v rest st)
  then show ?case
    using substr_parts [of "indexOf (he_lower env v) (he_text env)" v "length (he_text env)"]
    by (auto simp: Let_def split_def append_assoc [symmetric] simp del: append_assoc)
next
  case (6 fuel env svg pid pcls n i t c ks rest st)
  obtain ks' st1 where r: "(if skipped_tag t then (ks, st)
      else hl_nodes fuel env (svg_below svg t) i c (length ks) ks st) = (ks', st1)"
    by (metis surj_pair)
  have "concat (map text_content ks') = concat (map text_content ks)"
    using arg_cong [OF r, of fst] "6.IH"(1) by (cases "skipped_tag t") auto
  with "6.IH"(2) [of "(ks', st1)" ks' st1] r show ?case by (simp add: split_def Let_def)
qed (auto simp: Let_def split_def)

lemma text_insert_before:
  "text_content r = [] \<Longrightarrow> concat (map text_content (insert_before p r n)) = text_content n"
proof (induction p r n rule: insert_before.induct)
  case (1 p r i t c ks)
  then have "concat (map text_content (concat (map (insert_before p r) ks))) =
      concat (map text_content ks)"
    by (induction ks) auto
  with 1 show ?case by auto
qed auto

lemma text_insert_before_list:
  "text_content r = [] \<Longrightarrow>
     concat (map text_content (concat (map (insert_before p r) ns))) = concat (map text_content ns)"
  by (induction ns) (auto simp: text_insert_before)

lemma highlight_all_text:
  "concat (map text_content (fst (highlight_all env svg ns st))) = concat (map text_content ns)"
  by (induction ns arbitrary: st)
    (simp_all add: split_def Let_def highlight_def hl_nodes_text flip: One_nat_def)

text \<open>Only rectangles are queued, so that inserting them adds no text.\<close>

definition rects :: "'g hl_state \<Rightarrow> bool" where
  "rects st = (\<forall>(p, r) \<in> set (add_items st). \<exists>g d. r = Rect g d)"

lemma rects_after_match: "rects st \<Longrightarrow> rects (after_match env svg pid st)"
  by (auto simp: rects_def after_match_def Let_def)

lemma hl_nodes_rects: "rects st \<Longrightarrow> rects (snd (hl_nodes fuel env svg pid pcls n nodes st))"
proof (induction fuel env svg pid pcls n nodes st rule: hl_nodes.induct)
  case (6 fuel env svg pid pcls n i t c ks rest st)
  obtain ks' st1 where r: "(if skipped_tag t then (ks, st)
      else hl_nodes fuel env (svg_below svg t) i c (length ks) ks st) = (ks', st1)"
    by (metis surj_pair)
  have "rects st1" using arg_cong [OF r, of snd] "6.IH"(1) "6.prems" by (cases "skipped_tag t") auto
  with "6.IH"(2) [of "(ks', st1)" ks' st1] r show ?case by (simp add: split_def Let_def)
qed (auto simp: Let_def split_def rects_after_match)

lemma highlight_all_rects: "rects st \<Longrightarrow> rects (snd (highlight_all env svg ns st))"
  by (induction ns arbitrary: st)
    (simp_all add: split_def Let_def highlight_def hl_nodes_rects flip: One_nat_def)

lemma insert_items_text:
  "\<forall>(p, r) \<in> set items. \<exists>g d. r = Rect g d \<Longrightarrow>
     concat (map text_content (foldl (\<lambda>ns (p, r). concat (map (insert_before p r) ns)) ns items)) =
     concat (map text_content ns)"
  by (induction items arbitrary: ns) (auto simp: text_insert_before_list split_def)

section \<open>The recursion depth\<close>

text \<open>
  \<open>height\<close> bounds the recursion: the only elements that \<open>hl_nodes\<close> meets and that were not in the
  tree are spans with one text, and the walk below such a span visits one position.
\<close>

definition shallow :: "nat \<Rightarrow> nat \<Rightarrow> 'g dom list \<Rightarrow> bool" where
  "shallow fuel n nodes =
     ((\<exists>w. nodes = [Text w] \<and> n \<le> 1) \<or>
      0 < fuel \<and> (\<forall>x \<in> set nodes. height x \<le> fuel \<or> (\<exists>i t c w. x = Elem i t c [Text w])))"

lemma foldr_max_le: "foldr max xs (a::nat) \<le> b \<longleftrightarrow> a \<le> b \<and> (\<forall>x \<in> set xs. x \<le> b)"
  by (induction xs) auto

lemma height_pos [simp]: "0 < height x"
  by (cases x) auto

lemma shallow_tl: "shallow fuel (Suc n) (x # xs) \<Longrightarrow> n = 0 \<or> shallow fuel n xs"
  by (auto simp: shallow_def)

lemma shallow_children:
  "shallow (Suc fuel) (Suc n) (Elem i t c ks # rest) \<Longrightarrow> shallow fuel (length ks) ks"
  by (auto simp: shallow_def foldr_max_le)

lemma shallow_split:
  "shallow fuel (Suc n) (Text v # rest) \<Longrightarrow>
     n = 0 \<or> shallow fuel n (new_span env svg i w # Text u # rest)"
  by (auto simp: shallow_def new_span_def)

lemma hl_nodes_more_fuel:
  "n = 0 \<or> shallow fuel n nodes \<Longrightarrow>
     hl_nodes (Suc fuel) env svg pid pcls n nodes st = hl_nodes fuel env svg pid pcls n nodes st"
proof (induction fuel env svg pid pcls n nodes st rule: hl_nodes.induct)
  case (3 fuel env svg pid pcls n v rest st)
  then have sh: "shallow fuel (Suc n) (Text v # rest)" by simp
  note a = shallow_tl [OF sh] and b = shallow_split [OF sh]
  show ?case using 3 a b by (simp add: Let_def)
next
  case (4 fuel env svg pid pcls n g c rest st)
  then have "n = 0 \<or> shallow fuel n rest" by (auto dest: shallow_tl)
  with 4 show ?case by (simp add: split_def Let_def)
next
  case (5 env svg pid pcls n i t c ks rest st)
  then show ?case by (simp add: shallow_def)
next
  case (6 fuel env svg pid pcls n i t c ks rest st)
  then have sh: "shallow (Suc fuel) (Suc n) (Elem i t c ks # rest)" by simp
  note a = shallow_tl [OF sh] and b = shallow_children [OF sh]
  obtain ks' st1 where r: "(if skipped_tag t then (ks, st)
      else hl_nodes fuel env (svg_below svg t) i c (length ks) ks st) = (ks', st1)"
    by (metis surj_pair)
  have r': "(if skipped_tag t then (ks, st)
      else hl_nodes (Suc fuel) env (svg_below svg t) i c (length ks) ks st) = (ks', st1)"
    using r "6.IH"(1) b by (cases "skipped_tag t") auto
  show ?case using "6.IH"(2) [of "(ks', st1)" ks' st1] r r' a by (simp add: split_def Let_def)
qed auto

lemma hl_nodes_height:
  "height node \<le> fuel \<Longrightarrow>
     hl_nodes fuel env svg pid pcls 1 [node] st = hl_nodes (height node) env svg pid pcls 1 [node] st"
proof (induction fuel rule: dec_induct)
  case (step k)
  then have "shallow k 1 [node]"
    using less_le_trans [OF height_pos step(1)] by (auto simp: shallow_def)
  with step show ?case using hl_nodes_more_fuel [of 1 k "[node]"] by simp
qed simp

section \<open>What the spans contain\<close>

text \<open>Every element with the class holds a text that was marked before, or the searched text.\<close>

definition marks :: "jstr \<Rightarrow> 'g dom list \<Rightarrow> jstr set" where
  "marks c ns = (\<Union>n \<in> set ns. set (marked c n))"

lemma marks_simps [simp]:
  "marks c [] = {}"
  "marks c (Text v # ns) = marks c ns"
  "marks c (Rect g d # ns) = marks c ns"
  "marks c (Elem i t cs ks # ns) =
     (if c \<in> set cs then {concat (map text_content ks)} else {}) \<union> marks c ks \<union> marks c ns"
  by (auto simp: marks_def)

lemma marks_append [simp]: "marks c (xs @ ys) = marks c xs \<union> marks c ys"
  by (auto simp: marks_def)

lemma marks_new_span:
  "marks (he_class env) (new_span env svg i w # ns) \<subseteq> {w} \<union> marks (he_class env) ns"
  by (auto simp: new_span_def)

lemma lower_substr:
  assumes "0 \<le> indexOf (map lc v) p"
  shows "map lc (substr v (indexOf (map lc v) p) (length p)) = p"
proof -
  from assms obtain i where i: "str_find p (map lc v) = Some i" "indexOf (map lc v) p = int i"
    by (auto simp: indexOf_def split: option.splits)
  then have "prefix p (map lc (drop i v))" by (auto dest: str_find_SomeD simp: drop_map)
  then have "take (length p) (map lc (drop i v)) = p" by (auto elim: prefixE)
  with i show ?thesis by (simp add: substr_def substr_from_def take_map)
qed

lemma hl_nodes_marks:
  assumes "he_lower env = map lc"
  shows "marks (he_class env) (fst (hl_nodes fuel env svg pid pcls n nodes st)) \<subseteq>
    marks (he_class env) nodes \<union> {w. map lc w = he_text env}"
  using assms
proof (induction fuel env svg pid pcls n nodes st rule: hl_nodes.induct)
  case (3 fuel env svg pid pcls n v rest st)
  let ?pos = "indexOf (map lc v) (he_text env)"
  let ?w = "substr v ?pos (length (he_text env))"
  show ?case
  proof (cases "0 \<le> ?pos \<and> he_class env \<notin> set pcls \<and> lit ''nohighlight'' \<notin> set pcls")
    case True
    then have "map lc ?w = he_text env" by (simp add: lower_substr)
    with marks_new_span [of env svg "next_id st" ?w] have
      "marks (he_class env) (new_span env svg (next_id st) ?w # Text u # rest) \<subseteq>
        {w. map lc w = he_text env} \<union> marks (he_class env) rest" for u
      by fastforce
    with 3(1) [OF refl refl _ "3.prems"] True "3.prems" show ?thesis
      by (simp add: Let_def split_def) (meson Un_least Un_upper1 Un_upper2 order_trans)
  next
    case False
    with 3 show ?thesis by (auto simp: Let_def split_def)
  qed
next
  case (6 fuel env svg pid pcls n i t c ks rest st)
  obtain ks' st1 where r: "(if skipped_tag t then (ks, st)
      else hl_nodes fuel env (svg_below svg t) i c (length ks) ks st) = (ks', st1)"
    by (metis surj_pair)
  have same: "concat (map text_content ks') = concat (map text_content ks)"
    using arg_cong [OF r, of fst] hl_nodes_text by (cases "skipped_tag t") auto
  have "marks (he_class env) ks' \<subseteq> marks (he_class env) ks \<union> {w. map lc w = he_text env}"
    using arg_cong [OF r, of fst] "6.IH"(1) "6.prems" by (cases "skipped_tag t") auto
  with "6.IH"(2) [of "(ks', st1)" ks' st1] "6.prems" r same show ?case
    by (auto simp: split_def Let_def)
qed (auto simp: Let_def split_def)

lemma highlight_all_marks:
  "he_lower env = map lc \<Longrightarrow>
     marks (he_class env) (fst (highlight_all env svg ns st)) \<subseteq>
     marks (he_class env) ns \<union> {w. map lc w = he_text env}"
proof (induction ns arbitrary: st)
  case (Cons n ns)
  have "marks (he_class env) (n # ns) = marks (he_class env) [n] \<union> marks (he_class env) ns"
    by (simp add: marks_def)
  with Cons hl_nodes_marks [of env lc "height n" svg 0 "[]" 1 "[n]" st] show ?case
    by (simp add: split_def Let_def highlight_def del: One_nat_def) blast
qed simp

lemma marks_insert_before:
  "marks c [r] = {} \<Longrightarrow> text_content r = [] \<Longrightarrow> marks c (insert_before p r n) = marks c [n]"
proof (induction p r n rule: insert_before.induct)
  case (1 p r i t d ks)
  have "marks c (concat (map (insert_before p r) ks)) = marks c ks"
    using 1 by (induction ks) (auto simp: marks_def)
  moreover have "concat (map text_content (concat (map (insert_before p r) ks))) =
      concat (map text_content ks)"
    using "1.prems"(2) by (rule text_insert_before_list)
  moreover have "marks c (r # ns) = marks c ns" for ns using 1 by (simp add: marks_def)
  ultimately show ?case by (simp del: map_concat)
qed auto

lemma insert_items_marks:
  "\<forall>(p, r) \<in> set items. \<exists>g d. r = Rect g d \<Longrightarrow>
     marks c (foldl (\<lambda>ns (p, r). concat (map (insert_before p r) ns)) ns items) = marks c ns"
proof (induction items arbitrary: ns)
  case (Cons item items)
  obtain p g d where item: "item = (p, Rect g d)" using Cons.prems by (cases item) auto
  have "marks c (concat (map (insert_before p (Rect g d)) ns)) = marks c ns"
    by (induction ns) (auto simp: marks_insert_before, auto simp: marks_def)
  with Cons item show ?case by simp
qed simp

lemma text_unmark [simp]: "text_content (unmark c node) = text_content node"
  by (induction node) (auto cong: map_cong)

lemma highlightText_text:
  "concat (map text_content (highlightText lower bbox fresh svg text className nodes)) =
     concat (map text_content nodes)"
proof -
  let ?env = "\<lparr>he_lower = lower, he_text = text, he_class = className, he_bbox = bbox\<rparr>"
  let ?r = "highlight_all ?env svg nodes \<lparr>next_id = fresh, add_items = []\<rparr>"
  have "rects (snd ?r)" by (rule highlight_all_rects) (simp add: rects_def)
  then show ?thesis
    using insert_items_text [of "add_items (snd ?r)" "fst ?r"] highlight_all_text
    by (simp add: highlightText_def Let_def split_def rects_def)
qed

section \<open>Properties\<close>

text \<open>
  C37. \<open>highlightText\<close> never changes the text of the page: the concatenated text of the tree is the
  same before and after, whatever \<open>toLowerCase\<close> does and also inside SVG.
\<close>

theorem highlightText_keeps_text:
  "concat (map text_content (highlightText lower bbox fresh svg text className nodes)) =
     concat (map text_content nodes)"
  by (rule highlightText_text)

text \<open>
  What \<open>highlightText\<close> marks, when \<open>toLowerCase\<close> acts on each code unit: every element that
  carries the class afterwards holds a text that an element with the class held before, or a
  text that is the searched one up to case.
\<close>

theorem highlightText_marks:
  assumes "lower = map lc"
  shows "marks className (highlightText lower bbox fresh svg text className nodes) \<subseteq>
    marks className nodes \<union> {w. lower w = text}"
proof -
  let ?env = "\<lparr>he_lower = lower, he_text = text, he_class = className, he_bbox = bbox\<rparr>"
  let ?r = "highlight_all ?env svg nodes \<lparr>next_id = fresh, add_items = []\<rparr>"
  have "rects (snd ?r)" by (rule highlight_all_rects) (simp add: rects_def)
  then show ?thesis
    using insert_items_marks [of "add_items (snd ?r)" className "fst ?r"]
      highlight_all_marks [of ?env lc svg nodes] assms
    by (simp add: highlightText_def Let_def split_def rects_def)
qed

definition ascii_lower :: "int \<Rightarrow> int" where
  "ascii_lower c = (if 65 \<le> c \<and> c \<le> 90 then c + 32 else c)"

theorem highlightText_marks_witness:
  "marks (lit ''hl'') (highlightText (map ascii_lower) (\<lambda>_ _. ()) 9 False (lit ''ab'') (lit ''hl'')
      [Elem 1 (lit ''p'') [] [Text (lit ''xABy'')]]) = {lit ''AB''} \<and>
   marks (lit ''hl'') (highlightText (map ascii_lower) (\<lambda>_ _. ()) 9 False (lit ''ab'') (lit ''hl'')
      [Elem 1 (lit ''p'') [] [Text (lit ''xABy'')]]) \<subseteq> {w. map ascii_lower w = lit ''ab''}"
proof -
  have "highlightText (map ascii_lower) (\<lambda>_ _. ()) 9 False (lit ''ab'') (lit ''hl'')
      [Elem 1 (lit ''p'') [] [Text (lit ''xABy'')]] =
    [Elem 1 (lit ''p'') [] [Text (lit ''x''), Elem 9 (lit ''span'') [lit ''hl''] [Text (lit ''AB'')],
       Text (lit ''y'')]]"
    by code_simp
  then show ?thesis
    using highlightText_marks [of "map ascii_lower" ascii_lower "lit ''hl''" "\<lambda>_ _. ()" 9 False
        "lit ''ab''" "[Elem 1 (lit ''p'') [] [Text (lit ''xABy'')]]"]
    by simp
qed

text \<open>
  The walk over the live child list misses matches: in a paragraph whose only child is a text,
  the first occurrence is marked and the text after it is left alone, however many occurrences
  it has.
\<close>

theorem highlightText_first_occurrence_only:
  assumes "indexOf (lower v) text = int pos" "className \<notin> set cs" "lit ''nohighlight'' \<notin> set cs"
    "\<not> skipped_tag t" "t \<noteq> lit ''svg''"
  shows "highlightText lower bbox fresh False text className [Elem i t cs [Text v]] =
    [Elem i t cs [Text (take pos v),
       Elem fresh (lit ''span'') [className] [Text (take (length text) (drop pos v))],
       Text (drop (pos + length text) v)]]"
  using assms
  by (simp add: highlightText_def highlight_def Let_def svg_below_def new_span_def after_match_def
      substr_def substr_from_def nat_add_distrib)

theorem highlightText_first_occurrence_only_witness:
  "highlightText (map ascii_lower) (\<lambda>_ _. ()) 9 False (lit ''ab'') (lit ''hl'')
      [Elem 1 (lit ''p'') [] [Text (lit ''abab'')]] =
    [Elem 1 (lit ''p'') [] [Text [], Elem 9 (lit ''span'') [lit ''hl''] [Text (lit ''ab'')],
       Text (lit ''ab'')]]"
proof -
  have "indexOf (map ascii_lower (lit ''abab'')) (lit ''ab'') = int 0" by code_simp
  from highlightText_first_occurrence_only [of "map ascii_lower" "lit ''abab''" "lit ''ab''" 0,
      OF this, of "lit ''hl''" "[]" "lit ''p''" "\<lambda>_ _. ()" 9 1]
  show ?thesis by (simp add: skipped_tag_def lit_def)
qed

text \<open>The recursion bound is enough: walking an element with more fuel than its height
  gives the same result.\<close>

theorem highlight_fuel_enough:
  assumes "height node \<le> fuel"
  shows "hl_nodes fuel env svg 0 [] 1 [node] st = highlight env svg node st"
  using assms unfolding highlight_def by (rule hl_nodes_height)

theorem highlight_fuel_enough_witness:
  "hl_nodes 5 \<lparr>he_lower = id, he_text = lit ''a'', he_class = lit ''hl'', he_bbox = \<lambda>_ _. ()\<rparr> False 0 []
      1 [Elem 1 (lit ''p'') [] [Text (lit ''a'')]] \<lparr>next_id = 2, add_items = []\<rparr> =
    highlight \<lparr>he_lower = id, he_text = lit ''a'', he_class = lit ''hl'', he_bbox = \<lambda>_ _. ()\<rparr> False
      (Elem 1 (lit ''p'') [] [Text (lit ''a'')]) \<lparr>next_id = 2, add_items = []\<rparr>"
  by (rule highlight_fuel_enough) simp

end
