(* ===== verification/JS_Regex.thy ===== *)
theory JS_Regex
  imports Prelude
begin

text \<open>
  The regular expressions of the scripts, with ECMAScript's backtracking semantics. A
  pattern is a value of \<open>rx\<close>; \<open>ms r st\<close> lists, in the order a backtracking matcher would
  try them, all states in which \<open>r\<close> can finish when it starts in \<open>st\<close>. The first entry
  of the list is the match JavaScript reports; captures are recorded by group number.

  Nothing here needs fuel: an iteration of a star must consume input (ECMAScript rejects
  empty iterations), so a star is iterated at most as often as there are characters left.
\<close>

section \<open>Patterns and matcher states\<close>

datatype rx =
    REmpty
  | RSet bool "(int \<times> int) list"   \<comment> \<open>character class: negated?, ranges\<close>
  | RSeq rx rx
  | RAlt rx rx
  | RStar bool rx                  \<comment> \<open>greedy?\<close>
  | RGroup nat rx
  | RBol
  | REol
  | RBack nat

datatype mst = MS (m_pos: nat) (m_rest: jstr) (m_caps: "(nat \<times> jstr) list")

definition in_class :: "bool \<Rightarrow> (int \<times> int) list \<Rightarrow> int \<Rightarrow> bool" where
  "in_class neg rs c = (neg \<noteq> list_ex (\<lambda>(a, b). a \<le> c \<and> c \<le> b) rs)"

primrec groups :: "rx \<Rightarrow> nat list" where
  "groups REmpty = []"
| "groups (RSet n rs) = []"
| "groups (RSeq a b) = groups a @ groups b"
| "groups (RAlt a b) = groups a @ groups b"
| "groups (RStar g r) = groups r"
| "groups (RGroup n r) = n # groups r"
| "groups RBol = []"
| "groups REol = []"
| "groups (RBack n) = []"

definition reset :: "nat list \<Rightarrow> mst \<Rightarrow> mst" where
  "reset gs st = MS (m_pos st) (m_rest st) (filter (\<lambda>(n, _). n \<notin> set gs) (m_caps st))"

primrec star :: "bool \<Rightarrow> nat list \<Rightarrow> (mst \<Rightarrow> mst list) \<Rightarrow> nat \<Rightarrow> mst \<Rightarrow> mst list" where
  "star g gs f 0 st = [st]"
| "star g gs f (Suc n) st =
     (let more = concat (map (star g gs f n)
                   (filter (\<lambda>st'. length (m_rest st') < length (m_rest st)) (f (reset gs st))))
      in if g then more @ [st] else st # more)"

definition advance :: "nat \<Rightarrow> mst \<Rightarrow> mst" where
  "advance n st = MS (m_pos st + n) (drop n (m_rest st)) (m_caps st)"

definition capture :: "nat \<Rightarrow> mst \<Rightarrow> mst \<Rightarrow> mst" where
  "capture n st st' =
     MS (m_pos st') (m_rest st') ((n, take (m_pos st' - m_pos st) (m_rest st)) # m_caps st')"

primrec ms :: "rx \<Rightarrow> mst \<Rightarrow> mst list" where
  "ms REmpty st = [st]"
| "ms (RSet neg rs) st =
     (case m_rest st of [] \<Rightarrow> [] | c # cs \<Rightarrow> if in_class neg rs c then [advance 1 st] else [])"
| "ms (RSeq a b) st = concat (map (ms b) (ms a st))"
| "ms (RAlt a b) st = ms a st @ ms b st"
| "ms (RStar g r) st = star g (groups r) (ms r) (length (m_rest st)) st"
| "ms (RGroup n r) st = map (capture n st) (ms r st)"
| "ms RBol st = (if m_pos st = 0 then [st] else [])"
| "ms REol st = (if m_rest st = [] then [st] else [])"
| "ms (RBack n) st =
     (case map_of (m_caps st) n of
        None \<Rightarrow> [st]
      | Some w \<Rightarrow> if prefix w (m_rest st) then [advance (length w) st] else [])"

text \<open>
  \<open>re_exec\<close> is \<open>RegExp.prototype.exec\<close> without flags: the least start position with a
  match, its end position and its captures. \<open>re_test\<close> is \<open>test\<close>.
\<close>

record re_match =
  mt_start :: nat
  mt_end :: nat
  mt_caps :: "(nat \<times> jstr) list"

fun re_exec_from :: "rx \<Rightarrow> nat \<Rightarrow> jstr \<Rightarrow> re_match option" where
  "re_exec_from r i s =
     (case ms r (MS i s []) of
        st # _ \<Rightarrow> Some \<lparr>mt_start = i, mt_end = m_pos st, mt_caps = m_caps st\<rparr>
      | [] \<Rightarrow> (case s of [] \<Rightarrow> None | _ # cs \<Rightarrow> re_exec_from r (Suc i) cs))"

declare re_exec_from.simps [simp del]

definition re_exec :: "rx \<Rightarrow> jstr \<Rightarrow> re_match option" where
  "re_exec r s = re_exec_from r 0 s"

definition re_test :: "rx \<Rightarrow> jstr \<Rightarrow> bool" where
  "re_test r s = (re_exec r s \<noteq> None)"

definition group_of :: "re_match \<Rightarrow> nat \<Rightarrow> jstr option" where
  "group_of m n = map_of (mt_caps m) n"

text \<open>\<open>w.replace(re, r)\<close> without the global flag: only the first match is replaced.\<close>

definition re_replace :: "rx \<Rightarrow> (re_match \<Rightarrow> jstr) \<Rightarrow> jstr \<Rightarrow> jstr" where
  "re_replace r f s =
     (case re_exec r s of
        None \<Rightarrow> s
      | Some m \<Rightarrow> take (mt_start m) s @ f m @ drop (mt_end m) s)"

text \<open>Abbreviations for the pattern syntax of the sources.\<close>

abbreviation RPlus :: "bool \<Rightarrow> rx \<Rightarrow> rx" where
  "RPlus g r \<equiv> RSeq r (RStar g r)"
abbreviation ROpt :: "rx \<Rightarrow> rx" where
  "ROpt r \<equiv> RAlt r REmpty"
abbreviation RDot :: rx where
  "RDot \<equiv> RSet True [(10, 10), (13, 13), (8232, 8233)]"

primrec RLit :: "jstr \<Rightarrow> rx" where
  "RLit [] = REmpty"
| "RLit (c # cs) = (if cs = [] then RSet False [(c, c)] else RSeq (RSet False [(c, c)]) (RLit cs))"

fun RAlts :: "rx list \<Rightarrow> rx" where
  "RAlts [] = RSet False []"
| "RAlts [r] = r"
| "RAlts (r # rs) = RAlt r (RAlts rs)"

definition chars :: "string \<Rightarrow> (int \<times> int) list" where
  "chars s = map (\<lambda>c. (c, c)) (lit s)"

text \<open>The stemmer's pattern shape \<open>/^(.+?)T$/\<close>, alternatives of literal words, and captures as
  \<open>exec(..)[n]\<close> and \<open>$n\<close> read them (an unset group reads as the empty string in \<open>$n\<close>).\<close>

definition stem_pat :: "rx \<Rightarrow> rx" where
  "stem_pat t = RSeq RBol (RSeq (RSeq (RGroup 1 (RPlus False RDot)) t) REol)"

definition RWords :: "string list \<Rightarrow> rx" where
  "RWords ws = RAlts (map (\<lambda>w. RLit (lit w)) ws)"

definition cap :: "re_match \<Rightarrow> nat \<Rightarrow> jstr" where
  "cap m n = (case group_of m n of Some u \<Rightarrow> u | None \<Rightarrow> [])"

lemmas [js_eval] =
  in_class_def reset_def advance_def capture_def re_exec_from.simps re_exec_def re_test_def
  group_of_def re_replace_def chars_def stem_pat_def RWords_def cap_def



section \<open>What a match consumes\<close>

lemma advance_sel [simp]:
  "m_pos (advance n st) = m_pos st + n"
  "m_rest (advance n st) = drop n (m_rest st)"
  "m_caps (advance n st) = m_caps st"
  by (simp_all add: advance_def)

lemma reset_sel [simp]:
  "m_pos (reset gs st) = m_pos st" "m_rest (reset gs st) = m_rest st"
  "reset [] st = st"
  by (simp_all add: reset_def)

lemma capture_sel [simp]:
  "m_pos (capture n st st') = m_pos st'" "m_rest (capture n st st') = m_rest st'"
  by (simp_all add: capture_def)

definition consumed :: "mst \<Rightarrow> jstr \<Rightarrow> mst \<Rightarrow> bool" where
  "consumed st w st' \<longleftrightarrow> m_rest st = w @ m_rest st' \<and> m_pos st' = m_pos st + length w"

lemma consumed_refl: "consumed st [] st"
  by (simp add: consumed_def)

lemma consumed_trans: "consumed s u t \<Longrightarrow> consumed t v r \<Longrightarrow> consumed s (u @ v) r"
  by (simp add: consumed_def)

lemma consumed_advance: "n \<le> length (m_rest st) \<Longrightarrow> consumed st (take n (m_rest st)) (advance n st)"
  by (simp add: consumed_def)

lemma consumed_len: "consumed s w t \<Longrightarrow> length (m_rest t) < length (m_rest s) \<longleftrightarrow> w \<noteq> []"
  by (auto simp: consumed_def)

text \<open>
  The words of a pattern: anchors and back references constrain the context, not the word,
  so they are described by the words they can consume at all.
\<close>

inductive word :: "rx \<Rightarrow> jstr \<Rightarrow> bool" where
  w_empty: "word REmpty []"
| w_set: "in_class neg rs c \<Longrightarrow> word (RSet neg rs) [c]"
| w_seq: "word a u \<Longrightarrow> word b v \<Longrightarrow> word (RSeq a b) (u @ v)"
| w_alt1: "word a u \<Longrightarrow> word (RAlt a b) u"
| w_alt2: "word b u \<Longrightarrow> word (RAlt a b) u"
| w_star0: "word (RStar g r) []"
| w_star: "word r u \<Longrightarrow> u \<noteq> [] \<Longrightarrow> word (RStar g r) v \<Longrightarrow> word (RStar g r) (u @ v)"
| w_group: "word r u \<Longrightarrow> word (RGroup n r) u"
| w_bol: "word RBol []"
| w_eol: "word REol []"
| w_back: "word (RBack n) u"

inductive_simps word_simps:
  "word REmpty w" "word (RSet neg rs) w" "word (RSeq a b) w" "word (RAlt a b) w"
  "word (RGroup n r) w" "word RBol w" "word REol w" "word (RBack n) w"

lemma star_sound:
  assumes step: "\<And>st st'. st' \<in> set (f st) \<Longrightarrow> \<exists>w. consumed st w st' \<and> word r w"
  shows "st' \<in> set (star g gs f n st) \<Longrightarrow> \<exists>w. consumed st w st' \<and> word (RStar g r) w"
proof (induction n arbitrary: st)
  case 0
  then show ?case by (auto intro: consumed_refl w_star0)
next
  case (Suc n)
  show ?case
  proof (cases "st' = st")
    case True
    then show ?thesis by (auto intro: consumed_refl w_star0)
  next
    case False
    with Suc.prems obtain s1 where s1: "s1 \<in> set (f (reset gs st))"
        and lt: "length (m_rest s1) < length (m_rest st)" and st': "st' \<in> set (star g gs f n s1)"
      by (auto simp: Let_def split: if_splits)
    from step [OF s1] obtain u where u: "consumed st u s1" "word r u"
      by (auto simp: consumed_def)
    moreover from Suc.IH [OF st'] obtain v where "consumed s1 v st'" "word (RStar g r) v" by auto
    moreover from u lt have "u \<noteq> []" by (simp add: consumed_len)
    ultimately show ?thesis by (blast intro: consumed_trans w_star)
  qed
qed

lemma ms_sound: "st' \<in> set (ms r st) \<Longrightarrow> \<exists>w. consumed st w st' \<and> word r w"
proof (induction r arbitrary: st st')
  case (RStar g r)
  then show ?case by (auto intro: star_sound)
next
  case (RSeq a b)
  then show ?case by simp (blast intro: consumed_trans w_seq)
next
  case (RAlt a b)
  then show ?case by simp (blast intro: w_alt1 w_alt2)
next
  case (RGroup n r)
  then show ?case by (fastforce simp: consumed_def intro: w_group)
next
  case (RSet neg rs)
  then obtain c cs where "m_rest st = c # cs" "in_class neg rs c" "st' = advance 1 st"
    by (cases "m_rest st") (auto split: if_splits)
  then show ?case by (intro exI [of _ "[c]"]) (simp add: consumed_def word_simps)
next
  case (RBack n)
  then show ?case
    by (auto simp: consumed_def prefix_def intro: w_back split: option.splits if_splits)
qed (auto intro: consumed_refl word.intros split: if_splits)

lemma word_star_set: "word (RStar g (RSet n rs)) u \<longleftrightarrow> (\<forall>c \<in> set u. in_class n rs c)"
proof
  show "word (RStar g (RSet n rs)) u \<Longrightarrow> \<forall>c \<in> set u. in_class n rs c"
    by (induction "RStar g (RSet n rs)" u rule: word.induct) (auto simp: word_simps)
  show "\<forall>c \<in> set u. in_class n rs c \<Longrightarrow> word (RStar g (RSet n rs)) u"
  proof (induction u)
    case (Cons c cs)
    then have "word (RStar g (RSet n rs)) ([c] @ cs)" by (intro w_star) (auto intro: w_set)
    then show ?case by simp
  qed (rule w_star0)
qed

text \<open>Without anchors and back references, every word of the pattern is found.\<close>

primrec plain :: "rx \<Rightarrow> bool" where
  "plain REmpty = True"
| "plain (RSet n rs) = True"
| "plain (RSeq a b) = (plain a \<and> plain b)"
| "plain (RAlt a b) = (plain a \<and> plain b)"
| "plain (RStar g r) = plain r"
| "plain (RGroup n r) = plain r"
| "plain RBol = False"
| "plain REol = False"
| "plain (RBack n) = False"

lemma star_complete:
  assumes step: "\<And>st w v. word r w \<Longrightarrow> m_rest st = w @ v \<Longrightarrow>
      \<exists>st' \<in> set (f st). consumed st w st'"
    and "word (RStar g r) w" "m_rest st = w @ v" "length w \<le> n"
  shows "\<exists>st' \<in> set (star g gs f n st). consumed st w st'"
  using assms(2-4)
proof (induction n arbitrary: st w)
  case 0
  then show ?case by (simp add: consumed_refl)
next
  case (Suc n)
  from Suc.prems(1) show ?case
  proof (cases rule: word.cases)
    case w_star0
    then show ?thesis by (auto simp: Let_def consumed_refl)
  next
    case (w_star u v')
    with Suc.prems(2) have "m_rest (reset gs st) = u @ (v' @ v)" by simp
    from step [OF w_star(2) this] obtain s1 where s1: "s1 \<in> set (f (reset gs st))"
        and c1: "consumed st u s1"
      by (auto simp: consumed_def)
    from c1 Suc.prems(2) w_star have "m_rest s1 = v' @ v" by (simp add: consumed_def)
    moreover have "length v' \<le> n" using w_star Suc.prems(3) by (cases u) auto
    ultimately obtain s2 where s2: "s2 \<in> set (star g gs f n s1)" "consumed s1 v' s2"
      using Suc.IH w_star by blast
    moreover have "length (m_rest s1) < length (m_rest st)"
      using consumed_len [OF c1] w_star by simp
    ultimately have "s2 \<in> set (star g gs f (Suc n) st)"
      using s1 by (auto simp: Let_def)
    then show ?thesis using c1 s2(2) w_star(1) consumed_trans by blast
  qed
qed

lemma ms_complete:
  "plain r \<Longrightarrow> word r w \<Longrightarrow> m_rest st = w @ v \<Longrightarrow> \<exists>st' \<in> set (ms r st). consumed st w st'"
proof (induction r arbitrary: w v st)
  case (RSeq a b)
  from RSeq.prems obtain u1 u2 where w: "w = u1 @ u2" "word a u1" "word b u2"
    by (auto simp: word_simps)
  with RSeq.IH(1) [of u1 st "u2 @ v"] RSeq.prems obtain s1 where
    s1: "s1 \<in> set (ms a st)" "consumed st u1 s1" by auto
  with RSeq.prems w have "m_rest s1 = u2 @ v" by (simp add: consumed_def)
  with RSeq.IH(2) [of u2 s1 v] RSeq.prems w obtain s2 where
    "s2 \<in> set (ms b s1)" "consumed s1 u2 s2" by auto
  with s1 w show ?case by (auto intro: consumed_trans)
next
  case (RStar g r)
  then show ?case by (auto intro!: star_complete [where r = r and v = v])
next
  case (RGroup n r)
  then show ?case by (fastforce simp: word_simps consumed_def)
next
  case (RAlt a b)
  then show ?case by (fastforce simp: word_simps)
qed (auto simp: word_simps consumed_def)

lemma ms_caps_no_groups:
  "groups r = [] \<Longrightarrow> st' \<in> set (ms r st) \<Longrightarrow> m_caps st' = m_caps st"
proof (induction r arbitrary: st st')
  case (RStar g r)
  then have step: "m_caps s2 = m_caps s1" if "s2 \<in> set (ms r s1)" for s1 s2
    using that by simp
  have "st' \<in> set (star g [] (ms r) n st) \<Longrightarrow> m_caps st' = m_caps st" for n
    by (induction n arbitrary: st) (auto simp: Let_def dest!: step split: if_splits)
  with RStar.prems show ?case by simp
qed (fastforce split: list.splits if_splits option.splits)+


section \<open>Tests and executions\<close>

lemma ms_seq_assoc: "ms (RSeq (RSeq a b) c) st = ms (RSeq a (RSeq b c)) st"
proof -
  have "ms (RSeq b c) = (\<lambda>st. concat (map (ms c) (ms b st)))" by (rule ext) simp
  then show ?thesis by (simp add: concat_map_concat_map)
qed

lemma ms_bol_later: "0 < i \<Longrightarrow> ms (RSeq RBol r) (MS i s cs) = []"
  by simp

lemma re_exec_from_bol_later: "0 < i \<Longrightarrow> re_exec_from (RSeq RBol r) i s = None"
  by (induction s arbitrary: i) (simp_all add: re_exec_from.simps)

lemma re_exec_bol:
  "re_exec (RSeq RBol r) s =
     (case ms r (MS 0 s []) of
        [] \<Rightarrow> None
      | st # _ \<Rightarrow> Some \<lparr>mt_start = 0, mt_end = m_pos st, mt_caps = m_caps st\<rparr>)"
  unfolding re_exec_def
  by (subst re_exec_from.simps) (auto simp: re_exec_from_bol_later split: list.splits)

lemma re_test_bol: "re_test (RSeq RBol r) s \<longleftrightarrow> ms r (MS 0 s []) \<noteq> []"
  by (simp add: re_test_def re_exec_bol split: list.splits)

lemma ms_not_Nil_iff:
  "plain r \<Longrightarrow> ms r (MS i s []) \<noteq> [] \<longleftrightarrow> (\<exists>w v. s = w @ v \<and> word r w)"
proof
  assume "ms r (MS i s []) \<noteq> []"
  then obtain st where "st \<in> set (ms r (MS i s []))" using list.set_sel(1) by blast
  then show "\<exists>w v. s = w @ v \<and> word r w"
    using ms_sound by (fastforce simp: consumed_def)
next
  assume p: "plain r" and "\<exists>w v. s = w @ v \<and> word r w"
  then obtain w v where "s = w @ v" "word r w" by auto
  with ms_complete [OF p, of w "MS i s []" v] show "ms r (MS i s []) \<noteq> []" by auto
qed

lemma re_test_anywhere:
  assumes "plain r"
  shows "re_test r s \<longleftrightarrow> (\<exists>u w v. s = u @ w @ v \<and> word r w)"
proof -
  have "re_exec_from r i s \<noteq> None \<longleftrightarrow> (\<exists>u w v. s = u @ w @ v \<and> word r w)" for i
  proof (induction s arbitrary: i)
    case Nil
    then show ?case
      using ms_not_Nil_iff [OF assms, of i "[]"]
      by (subst re_exec_from.simps) (auto split: list.splits)
  next
    case (Cons c cs)
    have "(\<exists>u w v. c # cs = u @ w @ v \<and> word r w) \<longleftrightarrow>
        (\<exists>w v. c # cs = w @ v \<and> word r w) \<or> (\<exists>u w v. cs = u @ w @ v \<and> word r w)"
      by (auto simp: Cons_eq_append_conv) blast+
    moreover have "re_exec_from r i (c # cs) \<noteq> None \<longleftrightarrow>
        ms r (MS i (c # cs) []) \<noteq> [] \<or> re_exec_from r (Suc i) cs \<noteq> None"
      by (subst re_exec_from.simps) (simp split: list.splits)
    ultimately show ?case
      by (simp only: ms_not_Nil_iff [OF assms] Cons.IH)
  qed
  then show ?thesis by (simp add: re_test_def re_exec_def)
qed

lemma split_Cons_iff:
  "(\<exists>u t. c # cs = u @ t \<and> Q (length u) t) \<longleftrightarrow> Q 0 (c # cs) \<or> (\<exists>u t. cs = u @ t \<and> Q (Suc (length u)) t)"
proof
  assume "Q 0 (c # cs) \<or> (\<exists>u t. cs = u @ t \<and> Q (Suc (length u)) t)"
  then show "\<exists>u t. c # cs = u @ t \<and> Q (length u) t"
  proof
    assume "\<exists>u t. cs = u @ t \<and> Q (Suc (length u)) t"
    then obtain u t where "cs = u @ t" "Q (Suc (length u)) t" by blast
    then show ?thesis by (intro exI [of _ "c # u"] exI [of _ t]) simp
  qed (auto intro: exI [of _ "[]"])
qed (auto simp: Cons_eq_append_conv)

lemma re_exec_from_iff:
  "re_exec_from r i s \<noteq> None \<longleftrightarrow> (\<exists>u t. s = u @ t \<and> ms r (MS (i + length u) t []) \<noteq> [])"
proof (induction s arbitrary: i)
  case Nil
  then show ?case by (subst re_exec_from.simps) (auto split: list.splits)
next
  case (Cons c cs)
  have "re_exec_from r i (c # cs) \<noteq> None \<longleftrightarrow> ms r (MS i (c # cs) []) \<noteq> [] \<or> re_exec_from r (Suc i) cs \<noteq> None"
    by (subst re_exec_from.simps) (simp split: list.splits)
  also have "\<dots> \<longleftrightarrow> (\<exists>u t. c # cs = u @ t \<and> ms r (MS (i + length u) t []) \<noteq> [])"
    unfolding Cons.IH split_Cons_iff [of c cs "\<lambda>n t. ms r (MS (i + n) t []) \<noteq> []"] by simp
  finally show ?case .
qed

lemma re_test_prefix:
  assumes "plain r"
  shows "re_test (RSeq RBol r) s \<longleftrightarrow> (\<exists>w v. s = w @ v \<and> word r w)"
proof
  assume "re_test (RSeq RBol r) s"
  then obtain st where "st \<in> set (ms r (MS 0 s []))"
    using list.set_sel(1) re_test_bol by blast
  then show "\<exists>w v. s = w @ v \<and> word r w"
    using ms_sound by (fastforce simp: consumed_def)
next
  assume "\<exists>w v. s = w @ v \<and> word r w"
  with assms obtain w v where "s = w @ v" "word r w" by auto
  with ms_complete [OF assms, of w "MS 0 s []" v] show "re_test (RSeq RBol r) s"
    by (auto simp: re_test_bol)
qed

lemma ms_eol: "ms (RSeq r REol) st = filter (\<lambda>st'. m_rest st' = []) (ms r st)"
proof -
  have "ms REol = (\<lambda>st. if m_rest st = [] then [st] else [])" by (rule ext) simp
  then show ?thesis
    using concat_map_singleton_filter [of "\<lambda>st'. m_rest st' = []" "\<lambda>x. x" "ms r st"] by simp
qed

lemma ms_eol_Nil_iff:
  assumes "plain r"
  shows "ms (RSeq r REol) (MS i s []) = [] \<longleftrightarrow> \<not> word r s"
proof
  assume none: "ms (RSeq r REol) (MS i s []) = []"
  show "\<not> word r s"
  proof
    assume "word r s"
    with ms_complete [OF assms, of s "MS i s []" "[]"]
    obtain st where "st \<in> set (ms r (MS i s []))" "m_rest st = []"
      by (auto simp: consumed_def)
    with none show False by (simp add: ms_eol filter_empty_conv del: ms.simps)
  qed
next
  assume nw: "\<not> word r s"
  have "m_rest st \<noteq> []" if "st \<in> set (ms r (MS i s []))" for st
    using ms_sound [OF that] nw by (auto simp: consumed_def)
  then show "ms (RSeq r REol) (MS i s []) = []"
    by (simp add: ms_eol filter_empty_conv del: ms.simps)
qed

lemma re_test_whole:
  "plain r \<Longrightarrow> re_test (RSeq RBol (RSeq r REol)) s \<longleftrightarrow> word r s"
  by (simp add: re_test_bol ms_eol_Nil_iff del: ms.simps)

lemma re_exec_from_suffix:
  assumes "plain r"
  shows "(re_exec_from (RSeq r REol) i s \<noteq> None) \<longleftrightarrow> (\<exists>u w. s = u @ w \<and> word r w)"
proof (induction s arbitrary: i)
  case Nil
  show ?case
    using ms_eol_Nil_iff [OF assms, of i "[]"]
    by (subst re_exec_from.simps)
      (cases "ms (RSeq r REol) (MS i [] [])", simp_all del: ms.simps)
next
  case (Cons c cs)
  have "(\<exists>u w. c # cs = u @ w \<and> word r w) \<longleftrightarrow>
      word r (c # cs) \<or> (\<exists>u w. cs = u @ w \<and> word r w)"
    by (metis Cons_eq_append_conv)
  then show ?case
    using Cons.IH [of "Suc i"] ms_eol_Nil_iff [OF assms, of i "c # cs"]
    by (subst re_exec_from.simps)
      (cases "ms (RSeq r REol) (MS i (c # cs) [])", simp_all del: ms.simps)
qed

lemma re_test_suffix:
  "plain r \<Longrightarrow> re_test (RSeq r REol) s \<longleftrightarrow> (\<exists>u w. s = u @ w \<and> word r w)"
  using re_exec_from_suffix [of r 0 s] by (auto simp: re_test_def re_exec_def)

text \<open>
  The stemmer's patterns \<open>/^(.+?)T$/\<close>: a match splits the word into a non-empty stem,
  which is group 1, and a word of the tail \<open>T\<close>.
\<close>

lemma word_RPlus_not_Nil: "word (RPlus g (RSet n rs)) w \<Longrightarrow> w \<noteq> []"
  by (auto simp: word_simps)

lemma ms_caps_other_group:
  "n \<notin> set (groups r) \<Longrightarrow> st' \<in> set (ms r st) \<Longrightarrow>
     map_of (m_caps st') n = map_of (m_caps st) n"
proof (induction r arbitrary: st st')
  case (RStar g r)
  then have step: "map_of (m_caps s2) n = map_of (m_caps s1) n" if "s2 \<in> set (ms r s1)" for s1 s2
    using that by simp
  have res: "map_of (m_caps (reset (groups r) s)) n = map_of (m_caps s) n" for s
    using RStar.prems(1) map_of_filter_key [of "\<lambda>k. k \<notin> set (groups r)" n "m_caps s"]
    by (simp add: reset_def)
  have "st' \<in> set (star g (groups r) (ms r) k st) \<Longrightarrow>
      map_of (m_caps st') n = map_of (m_caps st) n" for k
    by (induction k arbitrary: st) (auto simp: Let_def res dest!: step split: if_splits)
  with RStar.prems show ?case by simp
next
  case (RGroup k r)
  then show ?case by (auto simp: capture_def)
qed (fastforce split: list.splits if_splits option.splits)+

lemma re_exec_stem_pat:
  assumes "re_exec (stem_pat t) w = Some m" "1 \<notin> set (groups t)"
  obtains stem v st where "w = stem @ v" "stem \<noteq> []" "word t v"
    "group_of m 1 = Some stem" "mt_start m = 0" "mt_end m = length w"
    "st \<in> set (ms t (MS (length stem) v [(1, stem)]))" "m_rest st = []" "mt_caps m = m_caps st"
proof -
  let ?r = "RSeq (RGroup 1 (RPlus False RDot)) t"
  from assms(1) have "ms (RSeq ?r REol) (MS 0 w []) \<noteq> []"
      and hd: "m = \<lparr>mt_start = 0, mt_end = m_pos (hd (ms (RSeq ?r REol) (MS 0 w []))),
        mt_caps = m_caps (hd (ms (RSeq ?r REol) (MS 0 w [])))\<rparr>"
    unfolding stem_pat_def by (auto simp: re_exec_bol split: list.splits simp del: ms.simps)
  then obtain st where st: "st \<in> set (ms ?r (MS 0 w []))" "m_rest st = []"
      and m: "m = \<lparr>mt_start = 0, mt_end = m_pos st, mt_caps = m_caps st\<rparr>"
    using list.set_sel(1) [of "ms (RSeq ?r REol) (MS 0 w [])"]
    by (auto simp: ms_eol simp del: ms.simps)
  from st obtain s1 where s1: "s1 \<in> set (ms (RPlus False RDot) (MS 0 w []))"
      and s2: "st \<in> set (ms t (capture 1 (MS 0 w []) s1))"
    by (auto simp del: ms.simps(3) simp: ms.simps(3) [of "RGroup _ _"])
  from ms_sound [OF s1] obtain u where u: "consumed (MS 0 w []) u s1" "u \<noteq> []"
    by (auto dest: word_RPlus_not_Nil)
  from ms_sound [OF s2] obtain v where v: "consumed (capture 1 (MS 0 w []) s1) v st" "word t v"
    by auto
  have c1: "m_caps s1 = []" using ms_caps_no_groups [OF _ s1] by simp
  from u v st c1 have w: "w = u @ v"
    and s1': "capture 1 (MS 0 w []) s1 = MS (length u) v [(1, u)]"
    by (auto simp: consumed_def capture_def)
  moreover have "group_of m 1 = Some u"
    using ms_caps_other_group [OF assms(2) s2] s1' m by (simp add: group_of_def)
  moreover have "mt_end m = length w"
    using m u v w by (simp add: consumed_def)
  ultimately show ?thesis
    using that [of u v st] u v m st s2 by simp
qed

lemma re_exec_stem_pat_group2:
  assumes "re_exec (stem_pat (RGroup 2 a)) w = Some m" "groups a = []"
  obtains stem v where "w = stem @ v" "stem \<noteq> []" "word a v"
    "cap m 1 = stem" "cap m 2 = v" "mt_start m = 0" "mt_end m = length w"
proof -
  from assms obtain stem v st where *: "w = stem @ v" "stem \<noteq> []" "word (RGroup 2 a) v"
    "group_of m 1 = Some stem" "mt_start m = 0" "mt_end m = length w"
    "st \<in> set (ms (RGroup 2 a) (MS (length stem) v [(1, stem)]))" "m_rest st = []"
    "mt_caps m = m_caps st"
    by (auto elim: re_exec_stem_pat)
  then obtain st' where st': "st = capture 2 (MS (length stem) v [(1, stem)]) st'"
      "st' \<in> set (ms a (MS (length stem) v [(1, stem)]))" by auto
  with * have "m_rest st' = []" by simp
  with ms_sound [OF st'(2)] have "m_pos st' = length stem + length v" by (auto simp: consumed_def)
  with st' * have "group_of m 2 = Some v" by (simp add: group_of_def capture_def)
  with * that show ?thesis by (simp add: word_simps cap_def)
qed

lemma re_exec_stem_pat_group2_lit:
  assumes "re_exec (stem_pat (RSeq (RGroup 2 a) b)) w = Some m" "groups a = []" "groups b = []"
  obtains stem x y where "w = stem @ x @ y" "stem \<noteq> []" "word a x" "word b y"
    "cap m 1 = stem" "cap m 2 = x" "mt_start m = 0" "mt_end m = length w"
proof -
  from assms obtain stem v st where *: "w = stem @ v" "stem \<noteq> []"
    "group_of m 1 = Some stem" "mt_start m = 0" "mt_end m = length w"
    "st \<in> set (ms (RSeq (RGroup 2 a) b) (MS (length stem) v [(1, stem)]))" "m_rest st = []"
    "mt_caps m = m_caps st"
    by (auto elim: re_exec_stem_pat)
  then obtain s1 where s1: "s1 \<in> set (ms a (MS (length stem) v [(1, stem)]))"
      and s2: "st \<in> set (ms b (capture 2 (MS (length stem) v [(1, stem)]) s1))" by auto
  from ms_sound [OF s1] obtain x where x: "consumed (MS (length stem) v [(1, stem)]) x s1" "word a x"
    by auto
  from ms_sound [OF s2] * obtain y where y: "word b y" "v = x @ y"
    using x by (auto simp: consumed_def)
  have "m_caps st = (2, x) # m_caps s1"
    using ms_caps_no_groups [OF assms(3) s2] x by (simp add: capture_def consumed_def)
  with * that x y show ?thesis by (simp add: group_of_def cap_def)
qed

lemma re_exec_stem_pat_None:
  assumes "re_exec (stem_pat t) w = None" "plain t" "w = stem @ v" "word (RPlus False RDot) stem"
  shows "\<not> word t v"
proof
  assume "word t v"
  then have "word (RSeq (RGroup 1 (RPlus False RDot)) t) w"
    unfolding assms(3) by (intro w_seq w_group assms)
  then have "re_test (stem_pat t) w"
    unfolding stem_pat_def using assms(2) by (simp add: re_test_whole)
  with assms(1) show False by (simp add: re_test_def)
qed

text \<open>Literal words.\<close>

lemma plain_RLit [simp]: "plain (RLit w)" "groups (RLit w) = []"
  by (induction w) auto

lemma word_RLit [simp]: "word (RLit w) u \<longleftrightarrow> u = w"
  by (induction w arbitrary: u) (auto simp: word_simps in_class_def)

lemma word_RAlts: "word (RAlts rs) u \<longleftrightarrow> (\<exists>r \<in> set rs. word r u)"
  by (induction rs rule: RAlts.induct) (auto simp: word_simps in_class_def)

lemma plain_RAlts: "(\<And>r. r \<in> set rs \<Longrightarrow> plain r) \<Longrightarrow> plain (RAlts rs)"
  by (induction rs rule: RAlts.induct) auto

lemma groups_RAlts: "(\<And>r. r \<in> set rs \<Longrightarrow> groups r = []) \<Longrightarrow> groups (RAlts rs) = []"
  by (induction rs rule: RAlts.induct) auto

lemma RWords_props [simp]:
  "plain (RWords ws)" "groups (RWords ws) = []"
  "word (RWords ws) u \<longleftrightarrow> u \<in> lit ` set ws"
  by (auto simp: RWords_def word_RAlts intro!: plain_RAlts groups_RAlts)


end
