(* ===== verification/Doctools.thy ===== *)
theory Doctools
  imports Query_Params Doc_Highlight JS_Regex
begin

text \<open>
  \<open>doctools.js\<close>: browser detection, the translation catalogue, and the \<open>Documentation\<close> object
  with its page initialisation, index togglers, highlighting of the words in the query string and
  keyboard handler. The page is a record; pending \<open>setTimeout\<close> callbacks are a list of tasks that
  the browser runs later (\<open>run_task\<close>). The browser's URL object is a parameter.
\<close>

section \<open>documentation_options.js\<close>

record doc_options =
  URL_ROOT :: jstr
  COLLAPSE_INDEX :: bool
  NAVIGATION_WITH_KEYS :: bool
  ENABLE_SEARCH_SHORTCUTS :: bool
  SHOW_SEARCH_SUMMARY :: bool
  BUILDER :: jstr
  FILE_SUFFIX :: jstr
  LINK_SUFFIX :: jstr
  HAS_SOURCE :: bool
  SOURCELINK_SUFFIX :: jstr

definition DOCUMENTATION_OPTIONS :: "jstr \<Rightarrow> doc_options" where
  "DOCUMENTATION_OPTIONS root =
     \<lparr>URL_ROOT = root, COLLAPSE_INDEX = False, NAVIGATION_WITH_KEYS = False,
      ENABLE_SEARCH_SHORTCUTS = True, SHOW_SEARCH_SUMMARY = True, BUILDER = lit ''html'',
      FILE_SUFFIX = lit ''.html'', LINK_SUFFIX = lit ''.html'', HAS_SOURCE = True,
      SOURCELINK_SUFFIX = lit ''.txt''\<rparr>"

section \<open>Browser detection\<close>

definition rx_version :: rx where
  "rx_version = RGroup 2 (RPlus True (RSet False [(48, 57), (65, 90), (95, 95), (97, 122), (46, 46)]))"

definition rx_sep :: rx where "rx_sep = RSet False [(32, 32), (47, 47)]"

definition ua_rules :: "rx list" where
  "ua_rules =
     [RSeq (RGroup 1 (RLit (lit ''chrome''))) (RSeq rx_sep rx_version),
      RSeq (RGroup 1 (RLit (lit ''webkit''))) (RSeq rx_sep rx_version),
      RSeq (RGroup 1 (RLit (lit ''opera'')))
        (RSeq (RAlt (RSeq (RStar True RDot) (RLit (lit ''version''))) REmpty) (RSeq rx_sep rx_version)),
      RSeq (RGroup 1 (RLit (lit ''msie''))) (RSeq (RLit (lit '' '')) rx_version)]"

definition ua_mozilla :: rx where
  "ua_mozilla = RSeq (RGroup 1 (RLit (lit ''mozilla'')))
     (RAlt (RSeq (RStar False RDot) (RSeq (RLit (lit '' rv:'')) rx_version)) REmpty)"

fun first_match :: "rx list \<Rightarrow> jstr \<Rightarrow> re_match option" where
  "first_match [] s = None"
| "first_match (r # rs) s = (case re_exec r s of Some m \<Rightarrow> Some m | None \<Rightarrow> first_match rs s)"

definition uaMatch :: "(jstr \<Rightarrow> jstr) \<Rightarrow> jstr \<Rightarrow> jstr \<times> jstr" where
  "uaMatch lower agent =
     (let ua = lower agent;
          found = (case first_match ua_rules ua of
                     Some m \<Rightarrow> Some m
                   | None \<Rightarrow> if indexOf ua (lit ''compatible'') < 0 then re_exec ua_mozilla ua else None)
      in case found of
           None \<Rightarrow> ([], lit ''0'')
         | Some m \<Rightarrow> (cap m 1, if cap m 2 = [] then lit ''0'' else cap m 2))"

section \<open>Translations\<close>

datatype translation = TStr jstr | TList "jstr list"

record i18n =
  TRANSLATIONS :: "(jstr \<times> translation) list"
  PLURAL_EXPR :: "int \<Rightarrow> int"
  LOCALE :: jstr

definition i18n_init :: i18n where
  "i18n_init = \<lparr>TRANSLATIONS = [], PLURAL_EXPR = (\<lambda>n. if n = 1 then 0 else 1), LOCALE = lit ''unknown''\<rparr>"

text \<open>
  \<open>gettext\<close> returns \<open>None\<close> for \<open>undefined\<close>: an empty list of plural forms, or a name of
  \<open>Object.prototype\<close>, whose value is a function or an object without a property \<open>0\<close>.
\<close>

definition gettext :: "i18n \<Rightarrow> jstr \<Rightarrow> jstr option" where
  "gettext d s =
     (case obj_get (TRANSLATIONS d) s of
        Some (TStr t) \<Rightarrow> Some t
      | Some (TList ts) \<Rightarrow> (case ts of [] \<Rightarrow> None | t # _ \<Rightarrow> Some t)
      | None \<Rightarrow> if s \<in> set object_proto then None else Some s)"

text \<open>\<open>Documentation.PLURALEXPR\<close> does not exist (the field is \<open>PLURAL_EXPR\<close>): calling it raises.\<close>

definition ngettext :: "i18n \<Rightarrow> jstr \<Rightarrow> jstr \<Rightarrow> int \<Rightarrow> js_error + jstr" where
  "ngettext d singular plural n =
     (if obj_get (TRANSLATIONS d) singular = None \<and> singular \<notin> set object_proto
      then Inr (if n = 1 then singular else plural)
      else Inl TypeError)"

record catalog =
  messages :: "(jstr \<times> translation) list"
  plural_expr :: jstr
  cat_locale :: jstr

text \<open>\<open>new Function\<close> compiles the plural expression, or raises a \<open>SyntaxError\<close> (parameter \<open>compile\<close>).\<close>

definition addTranslations ::
  "(jstr \<Rightarrow> (int \<Rightarrow> int) option) \<Rightarrow> catalog \<Rightarrow> i18n \<Rightarrow> i18n \<times> js_error option" where
  "addTranslations compile c d =
     (let d1 = d\<lparr>TRANSLATIONS := foldl (\<lambda>t (k, v). obj_put k v t) (TRANSLATIONS d) (messages c)\<rparr>
      in case compile (lit ''return +('' @ plural_expr c @ lit '')'') of
           None \<Rightarrow> (d1, Some (PlainError (lit ''SyntaxError'')))
         | Some f \<Rightarrow> (d1\<lparr>PLURAL_EXPR := f, LOCALE := cat_locale c\<rparr>, None))"

section \<open>The page\<close>

datatype task = Reload_Href | Highlight_Terms "jstr list"

record toggler =
  tg_src :: jstr
  tg_id :: "jstr option"

record 'g page =
  location_search :: jstr
  location_hash :: jstr
  location_href :: jstr
  location_pathname :: jstr
  browser :: jstr
  i18n :: i18n
  div_bodies :: "'g dom list"      \<comment> \<open>the elements \<open>div.body\<close>\<close>
  body_elems :: "'g dom list"      \<comment> \<open>the element \<open>body\<close>\<close>
  highlight_links :: "jstr list"   \<comment> \<open>labels of the links in \<open>#searchbox\<close>\<close>
  links_hidden :: bool
  timers :: "(nat \<times> task) list"
  togglers :: "toggler list"
  togglers_shown :: bool
  toggler_rows :: "(jstr list \<times> bool) list"   \<comment> \<open>classes of a table row, visible\<close>
  key_listener :: bool
  active_tag :: jstr
  prev_href :: "jstr option"
  next_href :: "jstr option"
  search_focused :: bool

definition fixFirefoxAnchorBug :: "'g page \<Rightarrow> 'g page" where
  "fixFirefoxAnchorBug p =
     (if location_hash p \<noteq> [] \<and> browser p = lit ''mozilla''
      then p\<lparr>timers := timers p @ [(10, Reload_Href)]\<rparr> else p)"

definition label_text :: "jstr option \<Rightarrow> jstr" where
  "label_text t = (case t of None \<Rightarrow> lit ''undefined'' | Some s \<Rightarrow> s)"

definition highlight_terms :: "'g page \<Rightarrow> js_error + jstr list" where
  "highlight_terms p =
     (case getQueryParameters (location_search p) None of
        Inl e \<Rightarrow> Inl e
      | Inr params \<Rightarrow>
          (case obj_get params (lit ''highlight'') of
             None \<Rightarrow> Inr []
           | Some vs \<Rightarrow> (case vs of Some s # _ \<Rightarrow> Inr (split_ws s) | _ \<Rightarrow> Inl TypeError)))"

definition highlightSearchWords :: "'g page \<Rightarrow> js_error + 'g page" where
  "highlightSearchWords p =
     (case highlight_terms p of
        Inl e \<Rightarrow> Inl e
      | Inr terms \<Rightarrow>
          Inr (if terms \<noteq> []
               then p\<lparr>timers := timers p @ [(10, Highlight_Terms terms)],
                      highlight_links := highlight_links p @
                        [label_text (gettext (i18n p) (lit ''Hide Search Matches''))]\<rparr>
               else p))"

primrec ids :: "'g dom \<Rightarrow> nat list" where
  "ids (Text v) = []"
| "ids (Elem i t c ks) = i # concat (map ids ks)"
| "ids (Rect g c) = []"

definition fresh_id :: "'g dom list \<Rightarrow> nat" where
  "fresh_id ns = Suc (foldr max (concat (map ids ns)) 0)"

definition highlight_term ::
  "(jstr \<Rightarrow> jstr) \<Rightarrow> (nat \<Rightarrow> nat \<Rightarrow> 'g) \<Rightarrow> 'g dom list \<Rightarrow> jstr \<Rightarrow> 'g dom list" where
  "highlight_term lower bbox ns t =
     highlightText lower bbox (fresh_id ns) False (lower t) (lit ''highlighted'') ns"

definition run_task :: "(jstr \<Rightarrow> jstr) \<Rightarrow> (nat \<Rightarrow> nat \<Rightarrow> 'g) \<Rightarrow> task \<Rightarrow> 'g page \<Rightarrow> 'g page" where
  "run_task lower bbox t p =
     (case t of
        Reload_Href \<Rightarrow> p\<lparr>location_href := location_href p @ []\<rparr>
      | Highlight_Terms terms \<Rightarrow>
          if div_bodies p \<noteq> []
          then p\<lparr>div_bodies := foldl (highlight_term lower bbox) (div_bodies p) terms\<rparr>
          else p\<lparr>body_elems := foldl (highlight_term lower bbox) (body_elems p) terms\<rparr>)"

subsection \<open>Index togglers\<close>

definition toggle_rows :: "jstr \<Rightarrow> (jstr list \<times> bool) list \<Rightarrow> (jstr list \<times> bool) list" where
  "toggle_rows c rows = map (\<lambda>(cs, vis). (cs, if c \<in> set cs then \<not> vis else vis)) rows"

definition toggled_src :: "jstr \<Rightarrow> jstr" where
  "toggled_src src =
     (if substr_from src (-9) = lit ''minus.png''
      then substr src 0 (length src - 9) @ lit ''plus.png''
      else substr src 0 (length src - 8) @ lit ''minus.png'')"

definition toggler_click ::
  "toggler \<Rightarrow> (jstr list \<times> bool) list \<Rightarrow> js_error + toggler \<times> (jstr list \<times> bool) list" where
  "toggler_click tg rows =
     (case tg_id tg of
        None \<Rightarrow> Inl TypeError
      | Some i \<Rightarrow>
          Inr (tg\<lparr>tg_src := toggled_src (tg_src tg)\<rparr>,
               toggle_rows (lit ''cg-'' @ substr_from i 7) rows))"

text \<open>Clicking every toggler; an exception keeps the earlier clicks and skips the later ones.\<close>

fun click_all ::
  "toggler list \<Rightarrow> (jstr list \<times> bool) list \<Rightarrow>
   toggler list \<times> (jstr list \<times> bool) list \<times> js_error option" where
  "click_all [] rows = ([], rows, None)"
| "click_all (tg # tgs) rows =
     (case toggler_click tg rows of
        Inl e \<Rightarrow> (tg # tgs, rows, Some e)
      | Inr (tg', rows') \<Rightarrow> (let (tgs', r) = click_all tgs rows' in (tg' # tgs', r)))"

definition initIndexTable :: "doc_options \<Rightarrow> 'g page \<Rightarrow> 'g page \<times> js_error option" where
  "initIndexTable opts p =
     (let p1 = p\<lparr>togglers_shown := True\<rparr>
      in if COLLAPSE_INDEX opts
         then (let (tgs, rows, e) = click_all (togglers p1) (toggler_rows p1)
               in (p1\<lparr>togglers := tgs, toggler_rows := rows\<rparr>, e))
         else (p1, None))"

subsection \<open>Search marks, URLs and keys\<close>

definition hideSearchWords :: "(jstr \<Rightarrow> jstr \<Rightarrow> jstr) \<Rightarrow> 'g page \<Rightarrow> 'g page" where
  "hideSearchWords search_delete p =
     p\<lparr>links_hidden := True,
       div_bodies := map (unmark (lit ''highlighted'')) (div_bodies p),
       body_elems := map (unmark (lit ''highlighted'')) (body_elems p),
       location_href := search_delete (location_href p) (lit ''highlight'')\<rparr>"

definition focusSearchBar :: "'g page \<Rightarrow> 'g page" where
  "focusSearchBar p = p\<lparr>search_focused := True\<rparr>"

definition makeURL :: "doc_options \<Rightarrow> jstr \<Rightarrow> jstr" where
  "makeURL opts relativeURL = URL_ROOT opts @ lit ''/'' @ relativeURL"

text \<open>
  The callback of \<open>$.each\<close> sees the string as \<open>this\<close>, which sloppy mode boxes: \<open>this === '..'\<close>
  compares an object with a string.
\<close>

definition boxed :: "jstr \<Rightarrow> jsval" where
  "boxed s = VObj 0 (map (\<lambda>i. (dec i, VStr [s ! i])) [0..<length s])"

definition getCurrentURL :: "doc_options \<Rightarrow> 'g page \<Rightarrow> jstr" where
  "getCurrentURL opts p =
     (let path = location_pathname p;
          parts = foldl (\<lambda>parts s. if strict_eq (boxed s) (VStr (lit ''..'')) then butlast parts else parts)
                    (split_char 47 path) (split_char 47 (URL_ROOT opts));
          url = join [47] parts
      in substring path (lastIndexOf url 47 + 1) (int (length path) - 1))"

record key_event =
  ev_key :: jstr
  altKey :: bool
  ctrlKey :: bool
  metaKey :: bool
  shiftKey :: bool

definition typing_tags :: "jstr list" where
  "typing_tags = [lit ''TEXTAREA'', lit ''INPUT'', lit ''SELECT'', lit ''BUTTON'']"

text \<open>The first \<open>switch\<close>: \<open>Some\<close> page when it returns \<open>false\<close>, \<open>None\<close> when it falls through.\<close>

definition navigate :: "jstr option \<Rightarrow> 'g page \<Rightarrow> 'g page option" where
  "navigate href p =
     (case href of None \<Rightarrow> None | Some h \<Rightarrow> if h \<noteq> [] then Some (p\<lparr>location_href := h\<rparr>) else None)"

definition plain_key ::
  "(jstr \<Rightarrow> jstr \<Rightarrow> jstr) \<Rightarrow> doc_options \<Rightarrow> jstr \<Rightarrow> 'g page \<Rightarrow> 'g page option" where
  "plain_key search_delete opts key p =
     (if key = lit ''ArrowLeft'' then
        (if NAVIGATION_WITH_KEYS opts then navigate (prev_href p) p else None)
      else if key = lit ''ArrowRight'' then
        (if NAVIGATION_WITH_KEYS opts then navigate (next_href p) p else None)
      else if key = lit ''Escape'' then
        (if ENABLE_SEARCH_SHORTCUTS opts then Some (hideSearchWords search_delete p) else None)
      else None)"

text \<open>The handler returns the page and whether it returned \<open>false\<close> (the event is consumed).\<close>

definition keydown ::
  "(jstr \<Rightarrow> jstr \<Rightarrow> jstr) \<Rightarrow> doc_options \<Rightarrow> key_event \<Rightarrow> 'g page \<Rightarrow> 'g page \<times> bool" where
  "keydown search_delete opts ev p =
     (if active_tag p \<notin> set typing_tags then
        if altKey ev \<or> ctrlKey ev \<or> metaKey ev then (p, False)
        else (case (if \<not> shiftKey ev then plain_key search_delete opts (ev_key ev) p else None) of
                Some p' \<Rightarrow> (p', True)
              | None \<Rightarrow>
                  if ev_key ev = lit ''/'' \<and> ENABLE_SEARCH_SHORTCUTS opts then (focusSearchBar p, True)
                  else (p, False))
      else (p, False))"

definition initOnKeyListeners :: "doc_options \<Rightarrow> 'g page \<Rightarrow> 'g page" where
  "initOnKeyListeners opts p =
     (if \<not> NAVIGATION_WITH_KEYS opts \<and> \<not> ENABLE_SEARCH_SHORTCUTS opts then p
      else p\<lparr>key_listener := True\<rparr>)"

text \<open>\<open>Documentation.init\<close>: an exception of a step leaves the later steps undone.\<close>

definition doc_init :: "doc_options \<Rightarrow> 'g page \<Rightarrow> 'g page \<times> js_error option" where
  "doc_init opts p =
     (let p0 = fixFirefoxAnchorBug p
      in case highlightSearchWords p0 of
           Inl e \<Rightarrow> (p0, Some e)
         | Inr p1 \<Rightarrow>
             (case initIndexTable opts p1 of
                (p2, Some e) \<Rightarrow> (p2, Some e)
              | (p2, None) \<Rightarrow> (initOnKeyListeners opts p2, None)))"

section \<open>Togglers\<close>

lemma toggle_rows_twice: "toggle_rows c (toggle_rows c rows) = rows"
  by (induction rows) (simp_all add: toggle_rows_def split_def)

lemma toggled_src_minus: "toggled_src (base @ lit ''minus.png'') = base @ lit ''plus.png''"
  by (simp add: toggled_src_def substr_def substr_from_def lit_def)

lemma toggled_src_plus: "toggled_src (base @ lit ''plus.png'') = base @ lit ''minus.png''"
proof (cases base rule: rev_cases)
  case Nil
  then show ?thesis by (simp add: toggled_src_def substr_def substr_from_def lit_def)
next
  case (snoc b x)
  then show ?thesis
    by (auto simp: toggled_src_def substr_def substr_from_def lit_def)
qed

section \<open>Translations\<close>

lemma get_foldl_put:
  "distinct (map fst kvs) \<Longrightarrow>
     obj_get (foldl (\<lambda>t (k, v). obj_put k v t) t kvs) k =
     (case map_of kvs k of Some v \<Rightarrow> Some v | None \<Rightarrow> obj_get t k)"
proof (induction kvs arbitrary: t)
  case (Cons kv kvs)
  then show ?case
    by (cases kv) (auto simp: obj_get_put split: option.splits simp: map_of_eq_None_iff
        dest: map_of_SomeD intro: rev_image_eqI)
qed simp

section \<open>The current URL\<close>

lemma boxed_not_string: "\<not> strict_eq (boxed s) (VStr t)"
  by (simp add: boxed_def)

lemma foldl_keep: "foldl (\<lambda>a x. a) b xs = b"
  by (induction xs) auto

section \<open>Properties\<close>

text \<open>
  The key handler: when it consumes an event, no text field, drop-down or button has the
  focus, no modifier is held, and the key is one the options enable (arrows with a link to go to
  and without shift, \<open>Escape\<close> without shift, \<open>/\<close>); when it does not consume the event, it leaves
  the page unchanged.
\<close>

theorem keydown_safe:
  "case keydown search_delete opts ev p of
     (p', True) \<Rightarrow>
       active_tag p \<notin> set typing_tags \<and> \<not> altKey ev \<and> \<not> ctrlKey ev \<and> \<not> metaKey ev \<and>
       (\<not> shiftKey ev \<and> NAVIGATION_WITH_KEYS opts \<and>
          (ev_key ev = lit ''ArrowLeft'' \<and> prev_href p = Some (location_href p') \<or>
           ev_key ev = lit ''ArrowRight'' \<and> next_href p = Some (location_href p')) \<or>
        \<not> shiftKey ev \<and> ENABLE_SEARCH_SHORTCUTS opts \<and> ev_key ev = lit ''Escape'' \<and> links_hidden p' \<or>
        ENABLE_SEARCH_SHORTCUTS opts \<and> ev_key ev = lit ''/'' \<and> p' = p\<lparr>search_focused := True\<rparr>)
   | (p', False) \<Rightarrow> p' = p"
  by (auto simp: keydown_def plain_key_def navigate_def hideSearchWords_def focusSearchBar_def
      split: option.splits if_splits)

text \<open>
  An index toggler is an involution: for an image named \<open>..minus.png\<close> or \<open>..plus.png\<close> with an
  id, clicking twice restores the image and the visibility of every row, and one click shows the
  other image.
\<close>

theorem toggler_click_twice:
  assumes "tg_id tg = Some i" "b \<in> {lit ''minus.png'', lit ''plus.png''}" "tg_src tg = base @ b"
  shows "\<exists>tg' rows'. toggler_click tg rows = Inr (tg', rows') \<and> tg_src tg' \<noteq> tg_src tg \<and>
    toggler_click tg' rows' = Inr (tg, rows)"
  using assms
  by (auto simp: toggler_click_def toggled_src_minus toggled_src_plus toggle_rows_twice)
    (simp_all add: lit_def)

theorem toggler_click_twice_witness:
  "\<exists>tg' rows'. toggler_click \<lparr>tg_src = lit ''_static/minus.png'', tg_id = Some (lit ''toggle-1'')\<rparr>
      [([lit ''cg-1''], True)] = Inr (tg', rows') \<and>
    toggler_click tg' rows' =
      Inr (\<lparr>tg_src = lit ''_static/minus.png'', tg_id = Some (lit ''toggle-1'')\<rparr>, [([lit ''cg-1''], True)])"
  using toggler_click_twice [of "\<lparr>tg_src = lit ''_static/minus.png'', tg_id = Some (lit ''toggle-1'')\<rparr>"
      "lit ''toggle-1''" "lit ''minus.png''" "lit ''_static/''" "[([lit ''cg-1''], True)]"]
  by (auto simp: lit_def)

text \<open>
  After \<open>addTranslations\<close> with a catalogue that translates \<open>s\<close> by a string, \<open>gettext\<close> answers
  that string; strings the catalogue does not mention keep their translation. \<open>ngettext\<close>
  raises a \<open>TypeError\<close> for every translated string, whatever the number is.
\<close>

theorem gettext_after_addTranslations:
  assumes "distinct (map fst (messages c))"
    and "d' = fst (addTranslations compile c d)"
  shows "(case map_of (messages c) s of
      Some (TStr t) \<Rightarrow> gettext d' s = Some t \<and> ngettext d' s plural n = Inl TypeError
    | Some (TList ts) \<Rightarrow> ngettext d' s plural n = Inl TypeError
    | None \<Rightarrow> gettext d' s = gettext d s \<and> ngettext d' s plural n = ngettext d s plural n)"
proof -
  have t: "TRANSLATIONS d' = foldl (\<lambda>t (k, v). obj_put k v t) (TRANSLATIONS d) (messages c)"
    using assms(2) by (auto simp: addTranslations_def Let_def split: option.splits)
  show ?thesis
    by (auto simp: gettext_def ngettext_def t get_foldl_put [OF assms(1)]
        split: option.splits translation.splits)
qed

theorem gettext_after_addTranslations_witness:
  "gettext (fst (addTranslations (\<lambda>_. None)
      \<lparr>messages = [(lit ''Search'', TStr (lit ''Suche''))], plural_expr = lit ''n!=1'', cat_locale = lit ''de''\<rparr>
      i18n_init)) (lit ''Search'') = Some (lit ''Suche'')"
  using gettext_after_addTranslations [of
      "\<lparr>messages = [(lit ''Search'', TStr (lit ''Suche''))], plural_expr = lit ''n!=1'', cat_locale = lit ''de''\<rparr>",
      OF _ refl, of "\<lambda>_. None" i18n_init "lit ''Search''" "[]" 1]
  by simp

text \<open>
  \<open>getCurrentURL\<close> does not depend on \<open>URL_ROOT\<close>: the comparison with \<open>'..'\<close> never succeeds, so
  no path component is dropped, and the result is the text between the last slash of the path
  and its last character.
\<close>

theorem getCurrentURL_ignores_root:
  "getCurrentURL opts p =
     substring (location_pathname p) (lastIndexOf (location_pathname p) 47 + 1)
       (int (length (location_pathname p)) - 1)"
  by (simp add: getCurrentURL_def boxed_not_string foldl_keep join_split_char Let_def)


end
