(* ===== verification/Search_Terms.thy ===== *)
theory Search_Terms
  imports Underscore_Core Doctools
begin

text \<open>
  The search index and the two lookups of \<open>searchtools.js\<close>: \<open>performObjectSearch\<close> over the
  object names and \<open>performTermsSearch\<close> over the full-text terms, with \<open>escapeRegExp\<close> and the
  default \<open>Scorer\<close>. The maps \<open>fileMap\<close> and \<open>scoreMap\<close> are property stores keyed by the string form of
  a file number, enumerated in the engine's order.

  The index tables are ordinary objects, so a lookup with a name of \<open>Object.prototype\<close> that is not
  a term finds an inherited function (\<open>FFun\<close>). The name \<open>__proto__\<close>, whose assignment is the
  prototype setter, is not a term the model covers.
\<close>

section \<open>The index\<close>

text \<open>What a term maps to: one file number, an array of them, or an inherited function
  (source text, \<open>length\<close>).\<close>

datatype entry = FNum nat | FArr "nat list" | FFun jstr nat

record obj_match =
  om_doc :: nat
  om_type :: nat
  om_prio :: int
  om_anchor :: jstr
  om_name :: jstr

record search_index =
  docnames :: "jstr list"
  filenames :: "jstr list"
  titles :: "jstr list"
  ix_terms :: "(jstr \<times> entry) list"
  ix_titleterms :: "(jstr \<times> entry) list"
  ix_objects :: "(jstr \<times> obj_match list) list"
  objnames :: "(jstr \<times> jstr list) list"

record result =
  r_doc :: "jstr option"
  r_title :: "jstr option"
  r_anchor :: jstr
  r_descr :: "jstr option"
  r_score :: int
  r_file :: "jstr option"

definition nth_opt :: "'a list \<Rightarrow> nat \<Rightarrow> 'a option" where
  "nth_opt xs i = (if i < length xs then Some (xs ! i) else None)"

section \<open>Scorer\<close>

definition objNameMatch :: int where "objNameMatch = 11"
definition objPartialMatch :: int where "objPartialMatch = 6"
definition objPrio :: "int \<Rightarrow> int option" where
  "objPrio n = map_of [(0, 15), (1, 5), (2, -5)] n"
definition objPrioDefault :: int where "objPrioDefault = 0"
definition sc_title :: int where "sc_title = 15"
definition sc_partialTitle :: int where "sc_partialTitle = 7"
definition sc_term :: int where "sc_term = 5"
definition sc_partialTerm :: int where "sc_partialTerm = 2"

section \<open>performObjectSearch\<close>

definition obj_fullname :: "jstr \<Rightarrow> jstr \<Rightarrow> jstr" where
  "obj_fullname pre name = (if pre \<noteq> [] then pre @ lit ''.'' else []) @ name"

definition obj_score :: "jstr \<Rightarrow> jstr \<Rightarrow> int \<Rightarrow> int" where
  "obj_score fullnameLower ob prio =
     (let parts = split_char 46 fullnameLower
      in (if fullnameLower = ob \<or> last parts = ob then objNameMatch
          else if -1 < indexOf (last parts) ob then objPartialMatch
          else 0) +
         (case objPrio prio of Some s \<Rightarrow> s | None \<Rightarrow> objPrioDefault))"

primrec all_found :: "jstr \<Rightarrow> jstr list \<Rightarrow> bool" where
  "all_found haystack [] = True"
| "all_found haystack (t # ts) = (if indexOf haystack t = -1 then False else all_found haystack ts)"

definition obj_anchor :: "jstr \<Rightarrow> jstr \<Rightarrow> jstr list \<Rightarrow> jstr" where
  "obj_anchor anchor fullname objinfo =
     (if anchor = [] then fullname
      else if anchor = lit ''-'' then label_text (nth_opt objinfo 1) @ lit ''-'' @ fullname
      else anchor)"

text \<open>One entry of the object table: an error, no result, or a result.\<close>

definition obj_result ::
  "(jstr \<Rightarrow> jstr) \<Rightarrow> i18n \<Rightarrow> search_index \<Rightarrow> jstr \<Rightarrow> jstr list \<Rightarrow> jstr \<Rightarrow> obj_match \<Rightarrow>
   js_error + result list" where
  "obj_result lower tr ix ob otherterms pre m =
     (let fullname = obj_fullname pre (om_name m); fullnameLower = lower fullname
      in if -1 < indexOf fullnameLower ob then
           (case obj_get (objnames ix) (dec (om_type m)) of
              None \<Rightarrow> Inl TypeError
            | Some objinfo \<Rightarrow>
                let objname = label_text (nth_opt objinfo 2);
                    title = label_text (nth_opt (titles ix) (om_doc m));
                    haystack = lower (pre @ lit '' '' @ om_name m @ lit '' '' @ objname @ lit '' '' @ title)
                in if otherterms \<noteq> [] \<and> \<not> all_found haystack otherterms then Inr []
                   else Inr [\<lparr>r_doc = nth_opt (docnames ix) (om_doc m), r_title = Some fullname,
                              r_anchor = 35 # obj_anchor (om_anchor m) fullname objinfo,
                              r_descr = Some (objname @ label_text (gettext tr (lit '', in '')) @ title),
                              r_score = obj_score fullnameLower ob (om_prio m),
                              r_file = nth_opt (filenames ix) (om_doc m)\<rparr>])
         else Inr [])"

fun obj_loop ::
  "(jstr \<Rightarrow> obj_match \<Rightarrow> js_error + result list) \<Rightarrow> (jstr \<times> obj_match) list \<Rightarrow> js_error + result list" where
  "obj_loop f [] = Inr []"
| "obj_loop f ((pre, m) # mts) =
     (case f pre m of Inl e \<Rightarrow> Inl e | Inr rs \<Rightarrow> map_sum id (\<lambda>rs'. rs @ rs') (obj_loop f mts))"

definition performObjectSearch ::
  "(jstr \<Rightarrow> jstr) \<Rightarrow> i18n \<Rightarrow> search_index \<Rightarrow> jstr \<Rightarrow> jstr list \<Rightarrow> js_error + result list" where
  "performObjectSearch lower tr ix ob otherterms =
     obj_loop (obj_result lower tr ix ob otherterms)
       (concat (map (\<lambda>(pre, mts). map (Pair pre) mts) (ix_objects ix)))"

section \<open>escapeRegExp\<close>

text \<open>The characters of \<open>[.*+\-?^${}()|[\]\\]\<close>.\<close>

definition rx_special :: "int list" where
  "rx_special = [46, 42, 43, 45, 63, 94, 36, 123, 125, 40, 41, 124, 91, 93, 92]"

definition escapeRegExp :: "jstr \<Rightarrow> jstr" where
  "escapeRegExp s = concat (map (\<lambda>c. if c \<in> set rx_special then [92, c] else [c]) s)"

text \<open>
  \<open>w.match(pattern)\<close> compiles the pattern. \<open>parse_literal\<close> reads the patterns built from plain
  characters and escaped special characters; other patterns are not read (\<open>None\<close>).
\<close>

fun parse_literal :: "jstr \<Rightarrow> rx option" where
  "parse_literal [] = Some REmpty"
| "parse_literal [c] = (if c \<in> set rx_special \<and> c \<noteq> 45 then None else Some (RLit [c]))"
| "parse_literal (c # d # cs) =
     (if c = 92 then
        (if d \<in> set rx_special then map_option (RSeq (RLit [d])) (parse_literal cs) else None)
      else if c \<in> set rx_special \<and> c \<noteq> 45 then None
      else map_option (RSeq (RLit [c])) (parse_literal (d # cs)))"

definition str_match :: "jstr \<Rightarrow> jstr \<Rightarrow> bool" where
  "str_match w pattern = (case parse_literal pattern of None \<Rightarrow> False | Some r \<Rightarrow> re_test r w)"

section \<open>performTermsSearch\<close>

definition inherited :: "jstr \<Rightarrow> entry option" where
  "inherited k =
     (if k = lit ''__proto__'' \<or> k \<notin> set object_proto then None
      else Some (FFun (lit ''function '' @ (if k = lit ''constructor'' then lit ''Object'' else k) @
                       lit ''() { [native code] }'')
                   (if k \<in> {lit ''__defineGetter__'', lit ''__defineSetter__''} then 2
                    else if k \<in> {lit ''toString'', lit ''valueOf'', lit ''toLocaleString''} then 0
                    else 1)))"

definition tab_get :: "(jstr \<times> entry) list \<Rightarrow> jstr \<Rightarrow> entry option" where
  "tab_get t k = (case obj_get t k of Some e \<Rightarrow> Some e | None \<Rightarrow> inherited k)"

definition entry_truthy :: "entry option \<Rightarrow> bool" where
  "entry_truthy e = (e \<noteq> None \<and> e \<noteq> Some (FNum 0))"

definition partial_matches :: "(jstr \<times> entry) list \<Rightarrow> jstr \<Rightarrow> int \<Rightarrow> (entry option \<times> int) list" where
  "partial_matches t wd sc =
     concat (map (\<lambda>(w, e). if str_match w (escapeRegExp wd) \<and> \<not> entry_truthy (tab_get t wd)
                           then [(Some e, sc)] else []) t)"

text \<open>The list \<open>_o\<close> of candidates for a word.\<close>

definition candidates :: "search_index \<Rightarrow> jstr \<Rightarrow> (entry option \<times> int) list" where
  "candidates ix wd =
     [(tab_get (ix_terms ix) wd, sc_term), (tab_get (ix_titleterms ix) wd, sc_title)] @
     (if 2 < length wd
      then partial_matches (ix_terms ix) wd sc_partialTerm @
           partial_matches (ix_titleterms ix) wd sc_partialTitle
      else [])"

text \<open>
  The keys an entry adds to \<open>files\<close>, and those whose score is set. A function is not spread by
  \<open>concat\<close>, but its \<open>length\<close> drives the scoring loop, which reads \<open>undefined\<close> elements.
\<close>

fun file_keys :: "entry \<Rightarrow> jstr list" where
  "file_keys (FNum n) = [dec n]"
| "file_keys (FArr ns) = map dec ns"
| "file_keys (FFun src n) = [src]"

fun score_keys :: "entry \<Rightarrow> jstr list" where
  "score_keys (FNum n) = [dec n]"
| "score_keys (FArr ns) = map dec ns"
| "score_keys (FFun src n) = replicate n (lit ''undefined'')"

type_synonym score_map = "(jstr \<times> (jstr \<times> int) list) list"
type_synonym file_map = "(jstr \<times> jstr list) list"

definition put_score :: "jstr \<Rightarrow> int \<Rightarrow> score_map \<Rightarrow> jstr \<Rightarrow> score_map" where
  "put_score wd sc sm file =
     obj_put file (obj_put wd sc (case obj_get sm file of None \<Rightarrow> [] | Some m \<Rightarrow> m)) sm"

definition add_candidate ::
  "jstr \<Rightarrow> jstr list \<times> score_map \<Rightarrow> entry option \<times> int \<Rightarrow> jstr list \<times> score_map" where
  "add_candidate wd fs os =
     (case fst os of
        None \<Rightarrow> fs
      | Some e \<Rightarrow> (fst fs @ file_keys e, foldl (put_score wd (snd os)) (snd fs) (score_keys e)))"

definition map_file :: "jstr \<Rightarrow> file_map \<Rightarrow> jstr \<Rightarrow> file_map" where
  "map_file wd fm file =
     (case obj_get fm file of
        Some ws \<Rightarrow> if wd \<notin> set ws then obj_put file (ws @ [wd]) fm else obj_put file [wd] fm
      | None \<Rightarrow> obj_put file [wd] fm)"

text \<open>The loop over the search terms; it stops at the first word nobody knows.\<close>

fun terms_loop :: "search_index \<Rightarrow> jstr list \<Rightarrow> file_map \<Rightarrow> score_map \<Rightarrow> file_map \<times> score_map" where
  "terms_loop ix [] fm sm = (fm, sm)"
| "terms_loop ix (wd # wds) fm sm =
     (let os = candidates ix wd
      in if list_all (\<lambda>c. fst c = None) os then (fm, sm)
         else (let (files, sm') = foldl (add_candidate wd) ([], sm) os
               in terms_loop ix wds (foldl (map_file wd) fm files) sm'))"

text \<open>The table entry as a value, and \<open>entry == file\<close> for a string \<open>file\<close>.\<close>

fun entry_val :: "entry option \<Rightarrow> jsval" where
  "entry_val None = VUndef"
| "entry_val (Some (FNum n)) = VInt (int n)"
| "entry_val (Some (FArr ns)) = VArr 0 (map (\<lambda>n. VInt (int n)) ns)"
| "entry_val (Some (FFun src n)) = VFun 0 n src"

fun loose_eq_str :: "jsval \<Rightarrow> jstr \<Rightarrow> bool" where
  "loose_eq_str (VNum n) s = num_eq n (str_num s)"
| "loose_eq_str (VArr i xs) s = (to_str (VArr i xs) = s)"
| "loose_eq_str (VFun i n src) s = (src = s)"
| "loose_eq_str v s = False"

definition or_empty :: "jsval \<Rightarrow> jsval" where
  "or_empty v = (if truthy v then v else VArr 0 [])"

definition is_excluded :: "search_index \<Rightarrow> jstr \<Rightarrow> jstr \<Rightarrow> bool" where
  "is_excluded ix file ex =
     (let t = entry_val (tab_get (ix_terms ix) ex); tt = entry_val (tab_get (ix_titleterms ix) ex)
      in loose_eq_str t file \<or> loose_eq_str tt file \<or>
         contains (or_empty t) (VStr file) NoIdx \<or> contains (or_empty tt) (VStr file) NoIdx)"

definition all_terms_found :: "jstr list \<Rightarrow> jstr list \<Rightarrow> bool" where
  "all_terms_found searchterms ws =
     (length ws = length searchterms \<or>
      length ws = length (filter (\<lambda>t. 2 < length t) searchterms))"

definition key_nth :: "'a list \<Rightarrow> jstr \<Rightarrow> 'a option" where
  "key_nth xs k = (if index_key k then nth_opt xs (dec_val k) else None)"

text \<open>The score of a file: \<open>$u.max\<close> over the scores of its words.\<close>

definition file_score :: "score_map \<Rightarrow> jstr \<Rightarrow> jstr list \<Rightarrow> js_error + jsval" where
  "file_score sm file ws =
     (case obj_get sm file of
        None \<Rightarrow> if ws = [] then Inr (VNum NInf) else Inl TypeError
      | Some scores \<Rightarrow>
          Inr (max_us (VArr 0 (map (\<lambda>w. case obj_get scores w of Some n \<Rightarrow> VInt n | None \<Rightarrow> VUndef) ws))))"

fun results_loop ::
  "search_index \<Rightarrow> jstr list \<Rightarrow> jstr list \<Rightarrow> score_map \<Rightarrow> file_map \<Rightarrow> js_error + result list" where
  "results_loop ix searchterms excluded sm [] = Inr []"
| "results_loop ix searchterms excluded sm ((file, ws) # fm) =
     (if \<not> all_terms_found searchterms ws \<or> list_ex (is_excluded ix file) excluded
      then results_loop ix searchterms excluded sm fm
      else (case file_score sm file ws of
              Inr (VNum (Fin n)) \<Rightarrow>
                map_sum id (\<lambda>rs. \<lparr>r_doc = key_nth (docnames ix) file, r_title = key_nth (titles ix) file,
                    r_anchor = [], r_descr = None, r_score = n,
                    r_file = key_nth (filenames ix) file\<rparr> # rs)
                  (results_loop ix searchterms excluded sm fm)
            | _ \<Rightarrow> Inl TypeError))"

definition performTermsSearch ::
  "search_index \<Rightarrow> jstr list \<Rightarrow> jstr list \<Rightarrow> js_error + result list" where
  "performTermsSearch ix searchterms excluded =
     (let (fm, sm) = terms_loop ix searchterms [] []
      in results_loop ix searchterms excluded sm fm)"

section \<open>Escaped patterns are literal\<close>

lemma escapeRegExp_simps [simp]:
  "escapeRegExp [] = []"
  "escapeRegExp (c # cs) = (if c \<in> set rx_special then [92, c] else [c]) @ escapeRegExp cs"
  by (simp_all add: escapeRegExp_def)

lemma parse_literal_plain:
  "c \<notin> set rx_special \<Longrightarrow> parse_literal (c # cs) =
     (if cs = [] then Some (RLit [c]) else map_option (RSeq (RLit [c])) (parse_literal cs))"
  by (cases cs) (auto simp: rx_special_def)

lemma parse_escape:
  "\<exists>r. parse_literal (escapeRegExp s) = Some r \<and> plain r \<and> (\<forall>u. word r u \<longleftrightarrow> u = s)"
proof (induction s)
  case Nil
  then show ?case by (simp add: word_simps)
next
  case (Cons c cs)
  then obtain r where r: "parse_literal (escapeRegExp cs) = Some r" "plain r" "\<And>u. word r u \<longleftrightarrow> u = cs"
    by auto
  show ?case
  proof (cases "c \<in> set rx_special")
    case True
    with r show ?thesis
      by (intro exI [of _ "RSeq (RLit [c]) r"]) (auto simp: word_simps in_class_def simp del: RLit.simps)
  next
    case False
    show ?thesis
    proof (cases "cs = []")
      case True
      with False show ?thesis
        by (intro exI [of _ "RLit [c]"]) (simp add: parse_literal_plain del: RLit.simps)
    next
      case nonempty: False
      then have "escapeRegExp cs \<noteq> []" by (cases cs) auto
      with False r show ?thesis
        by (intro exI [of _ "RSeq (RLit [c]) r"])
          (auto simp: parse_literal_plain word_simps simp del: RLit.simps)
    qed
  qed
qed

lemma str_match_escape: "str_match w (escapeRegExp s) \<longleftrightarrow> sublist s w"
proof -
  obtain r where r: "parse_literal (escapeRegExp s) = Some r" "plain r" "\<And>u. word r u \<longleftrightarrow> u = s"
    using parse_escape [of s] by blast
  then have "str_match w (escapeRegExp s) \<longleftrightarrow> (\<exists>u x v. w = u @ x @ v \<and> x = s)"
    by (simp add: str_match_def re_test_anywhere)
  then show ?thesis by (simp add: sublist_def)
qed

section \<open>The file and score maps\<close>

definition files_of :: "search_index \<Rightarrow> jstr \<Rightarrow> jstr list" where
  "files_of ix w = concat (map (\<lambda>(e, _). case e of None \<Rightarrow> [] | Some e \<Rightarrow> file_keys e) (candidates ix w))"

lemma fst_add_candidates:
  "fst (foldl (add_candidate w) (fs, sm) cs) =
     fs @ concat (map (\<lambda>(e, _). case e of None \<Rightarrow> [] | Some e \<Rightarrow> file_keys e) cs)"
proof (induction cs arbitrary: fs sm)
  case (Cons c cs)
  then show ?case by (cases c; cases "fst c") (simp_all add: add_candidate_def)
qed simp

lemma files_fold [simp]:
  "fst (foldl (add_candidate w) ([], sm) (candidates ix w)) = files_of ix w"
  by (simp add: fst_add_candidates files_of_def)

lemma known_word:
  "files_of ix w \<noteq> [] \<Longrightarrow> \<not> list_all (\<lambda>c. fst c = None) (candidates ix w)"
  by (auto simp: files_of_def list_all_iff split: option.splits) force

lemma map_file_get:
  "obj_get (map_file w fm file) f =
     (if f = file then Some (case obj_get fm file of Some ws \<Rightarrow> if w \<in> set ws then [w] else ws @ [w] | None \<Rightarrow> [w])
      else obj_get fm f)"
  by (auto simp: map_file_def obj_get_put split: option.splits)

lemma map_file_ok: "obj_ok fm \<Longrightarrow> obj_ok (map_file w fm file)"
  by (auto simp: map_file_def obj_ok_put split: option.splits)

lemma map_files_ok: "obj_ok fm \<Longrightarrow> obj_ok (foldl (map_file w) fm files)"
  by (induction files arbitrary: fm) (simp_all add: map_file_ok)

definition opt_list :: "'a list option \<Rightarrow> 'a list" where
  "opt_list x = (case x of None \<Rightarrow> [] | Some xs \<Rightarrow> xs)"

text \<open>One word: every file of a list without repetitions gets the word appended.\<close>

lemma map_files_get:
  "distinct files \<Longrightarrow> (\<And>f. w \<notin> set (opt_list (obj_get fm f))) \<Longrightarrow>
     obj_get (foldl (map_file w) fm files) f =
     (if f \<in> set files then Some (opt_list (obj_get fm f) @ [w]) else obj_get fm f)"
proof (induction files rule: rev_induct)
  case (snoc x files)
  have "w \<notin> set ws" if "obj_get fm x = Some ws" for ws
    using snoc.prems(2) [of x] that by (simp add: opt_list_def)
  with snoc show ?case
    by (auto simp: map_file_get opt_list_def split: option.splits)
qed simp

text \<open>The score of a word in a file, and how the candidates set it: the last one wins.\<close>

definition score_get :: "score_map \<Rightarrow> jstr \<Rightarrow> jstr \<Rightarrow> int option" where
  "score_get sm f w = (case obj_get sm f of None \<Rightarrow> None | Some m \<Rightarrow> obj_get m w)"

lemma score_get_put [simp]:
  "score_get (put_score w sc sm file) f v =
     (if f = file \<and> v = w then Some sc else score_get sm f v)"
  by (auto simp: score_get_def put_score_def obj_get_put split: option.splits)

lemma score_get_puts:
  "score_get (foldl (put_score w sc) sm fs) f v =
     (if f \<in> set fs \<and> v = w then Some sc else score_get sm f v)"
  by (induction fs arbitrary: sm) auto

definition last_score :: "(entry option \<times> int) list \<Rightarrow> jstr \<Rightarrow> int option \<Rightarrow> int option" where
  "last_score cs f a =
     foldl (\<lambda>a (e, sc). case e of None \<Rightarrow> a | Some e \<Rightarrow> if f \<in> set (score_keys e) then Some sc else a) a cs"

lemma snd_add_candidates:
  "score_get (snd (foldl (add_candidate w) (fs, sm) cs)) f v =
     (if v = w then last_score cs f (score_get sm f v) else score_get sm f v)"
proof (induction cs arbitrary: fs sm)
  case (Cons c cs)
  then show ?case
    by (cases c; cases "fst c") (auto simp: add_candidate_def last_score_def score_get_puts)
qed (simp add: last_score_def)

lemma last_score_None_iff:
  "last_score cs f a = None \<longleftrightarrow> a = None \<and> (\<forall>(e, sc) \<in> set cs. \<forall>x. e = Some x \<longrightarrow> f \<notin> set (score_keys x))"
proof (induction cs arbitrary: a)
  case (Cons c cs)
  then show ?case by (cases c; cases "fst c") (auto simp: last_score_def)
qed (simp add: last_score_def)

text \<open>The whole loop, when every word is known and lists no file twice.\<close>

lemma terms_loop_get:
  assumes "distinct wds" and "\<And>w. w \<in> set wds \<Longrightarrow> files_of ix w \<noteq> [] \<and> distinct (files_of ix w)"
    and "\<And>w f. w \<in> set wds \<Longrightarrow> w \<notin> set (opt_list (obj_get fm f))" and "obj_ok fm"
  shows "obj_ok (fst (terms_loop ix wds fm sm)) \<and>
    (\<forall>f. opt_list (obj_get (fst (terms_loop ix wds fm sm)) f) =
      opt_list (obj_get fm f) @ filter (\<lambda>w. f \<in> set (files_of ix w)) wds) \<and>
    (\<forall>f v. score_get (snd (terms_loop ix wds fm sm)) f v =
      (if v \<in> set wds then last_score (candidates ix v) f (score_get sm f v) else score_get sm f v))"
  using assms
proof (induction wds arbitrary: fm sm)
  case (Cons w wds)
  let ?fm = "foldl (map_file w) fm (files_of ix w)"
  let ?sm = "snd (foldl (add_candidate w) ([], sm) (candidates ix w))"
  have known: "\<not> list_all (\<lambda>c. fst c = None) (candidates ix w)"
    using Cons.prems(2) [of w] by (simp add: known_word)
  have get: "opt_list (obj_get ?fm f) =
      opt_list (obj_get fm f) @ (if f \<in> set (files_of ix w) then [w] else [])" for f
    using Cons.prems(2) [of w] Cons.prems(3) [of w]
    by (subst map_files_get) (auto simp: opt_list_def)
  have "obj_ok (fst (terms_loop ix wds ?fm ?sm)) \<and>
    (\<forall>f. opt_list (obj_get (fst (terms_loop ix wds ?fm ?sm)) f) =
      opt_list (obj_get ?fm f) @ filter (\<lambda>w. f \<in> set (files_of ix w)) wds) \<and>
    (\<forall>f v. score_get (snd (terms_loop ix wds ?fm ?sm)) f v =
      (if v \<in> set wds then last_score (candidates ix v) f (score_get ?sm f v) else score_get ?sm f v))"
    using Cons.prems by (intro Cons.IH) (auto simp: get map_files_ok)
  moreover have "terms_loop ix (w # wds) fm sm = terms_loop ix wds ?fm ?sm"
    using known by (simp add: Let_def split_def)
  ultimately show ?case
    using Cons.prems(1) by (auto simp: get snd_add_candidates)
qed simp

text \<open>A file listed twice for a word loses the words found before.\<close>

lemma map_files_listed:
  "f \<in> set files \<Longrightarrow> \<exists>ws. obj_get (foldl (map_file w) fm files) f = Some ws \<and> w \<in> set ws"
  by (induction files rule: rev_induct) (auto simp: map_file_get split: option.splits)

lemma map_files_repeated:
  "2 \<le> count_list files f \<Longrightarrow> obj_get (foldl (map_file w) fm files) f = Some [w]"
proof (induction files rule: rev_induct)
  case (snoc x files)
  show ?case
  proof (cases "x = f")
    case True
    with snoc.prems have "f \<in> set files" using count_notin [of f files] by fastforce
    then show ?thesis using map_files_listed [of f files w fm] True by (auto simp: map_file_get)
  next
    case False
    with snoc show ?thesis by (simp add: map_file_get)
  qed
qed simp

section \<open>The results\<close>

definition term_result :: "search_index \<Rightarrow> jstr \<Rightarrow> int \<Rightarrow> result" where
  "term_result ix f n = \<lparr>r_doc = key_nth (docnames ix) f, r_title = key_nth (titles ix) f,
     r_anchor = [], r_descr = None, r_score = n, r_file = key_nth (filenames ix) f\<rparr>"

lemma file_score_ints:
  assumes "ws \<noteq> []" "arr_ok ws" "\<And>w. w \<in> set ws \<Longrightarrow> score_get sm f w = Some (g w)"
  shows "file_score sm f ws = Inr (VInt (Max (g ` set ws)))"
proof -
  obtain m where m: "obj_get sm f = Some m"
    using assms(1) assms(3) [of "hd ws"] by (auto simp: score_get_def split: option.splits)
  have "map (\<lambda>w. case obj_get m w of Some n \<Rightarrow> VInt n | None \<Rightarrow> VUndef) ws = map VInt (map g ws)"
    using assms(3) m by (auto simp: score_get_def)
  moreover have "arr_ok (map g ws)" using assms(2) by (simp add: arr_ok_def)
  ultimately show ?thesis
    using m assms(1) max_us_ints [of "map g ws" 0] by (simp add: file_score_def del: map_map)
qed

lemma results_loop_filter:
  assumes "\<And>f ws. (f, ws) \<in> set fm \<Longrightarrow> all_terms_found sts ws \<Longrightarrow>
      file_score sm f ws = Inr (VInt (g f))"
  shows "results_loop ix sts [] sm fm =
    Inr (map (\<lambda>(f, ws). term_result ix f (g f)) (filter (\<lambda>(f, ws). all_terms_found sts ws) fm))"
  using assms
proof (induction fm)
  case (Cons e fm)
  then show ?case by (cases e) (auto simp: term_result_def)
qed simp

text \<open>Tables that hold file numbers only, as the index files do.\<close>

definition tables_ok :: "search_index \<Rightarrow> bool" where
  "tables_ok ix = (\<forall>(k, e) \<in> set (ix_terms ix) \<union> set (ix_titleterms ix). file_keys e = score_keys e)"

lemma candidates_ok:
  assumes "tables_ok ix" "w \<notin> set object_proto" "(Some e, sc) \<in> set (candidates ix w)"
  shows "file_keys e = score_keys e"
proof -
  have "tab_get t w = obj_get t w" for t
    using assms(2) by (auto simp: tab_get_def inherited_def split: option.splits)
  moreover have "\<exists>k. (k, e) \<in> set t" if "obj_get t w = Some e" for t
    using that by (auto simp: obj_get_def dest: map_of_SomeD)
  moreover have "\<exists>k. (k, e) \<in> set t" if "(Some e, sc) \<in> set (partial_matches t w n)" for t n
    using that by (auto simp: partial_matches_def split: if_splits)
  ultimately have "\<exists>k. (k, e) \<in> set (ix_terms ix) \<union> set (ix_titleterms ix)"
    using assms(3) by (auto simp: candidates_def split: if_splits) blast+
  with assms(1) show ?thesis by (auto simp: tables_ok_def)
qed

lemma listed_has_score:
  assumes "tables_ok ix" "w \<notin> set object_proto" "f \<in> set (files_of ix w)"
  shows "last_score (candidates ix w) f None \<noteq> None"
proof -
  from assms(3) obtain e sc where e: "(Some e, sc) \<in> set (candidates ix w)" "f \<in> set (file_keys e)"
    by (auto simp: files_of_def split: option.splits)
  with candidates_ok [OF assms(1,2) e(1)] show ?thesis by (auto simp: last_score_None_iff)
qed

definition word_score :: "search_index \<Rightarrow> jstr \<Rightarrow> jstr \<Rightarrow> int" where
  "word_score ix f w = the (last_score (candidates ix w) f None)"

lemma all_terms_found_filter:
  "(\<And>w. w \<in> set sts \<Longrightarrow> 2 < length w) \<Longrightarrow>
     all_terms_found sts (filter P sts) \<longleftrightarrow> (\<forall>w \<in> set sts. P w)"
proof -
  assume "\<And>w. w \<in> set sts \<Longrightarrow> 2 < length w"
  then have "filter (\<lambda>t. 2 < length t) sts = sts" by (simp add: filter_id_conv)
  then have "all_terms_found sts (filter P sts) \<longleftrightarrow> length (filter P sts) = length sts"
    by (simp add: all_terms_found_def)
  then show ?thesis using length_filter_less [of _ sts P] by (metis filter_True nat_neq_iff)
qed

lemma comma_in_join: "2 \<le> length xs \<Longrightarrow> 44 \<in> set (join [44] xs)"
  by (cases xs; cases "tl xs") auto

section \<open>Properties\<close>


definition small_index :: search_index where
  "small_index =
     \<lparr>docnames = map lit [''d0'', ''d1'', ''d2''], filenames = map lit [''d0.rst'', ''d1.rst'', ''d2.rst''],
      titles = map lit [''T0'', ''T1'', ''T2''],
      ix_terms = [(lit ''alpha'', FArr [1, 2]), (lit ''beta'', FNum 2), (lit ''gamma'', FArr [0, 2]),
                  (lit ''delta'', FNum 0)],
      ix_titleterms = [(lit ''gamma'', FNum 2)], ix_objects = [], objnames = []\<rparr>"


text \<open>
  A file that a later term lists twice (in the text and in the title) is lost: with two terms,
  the word list of the file is reset to the second term, which then fails the check that all
  terms were found.
\<close>

theorem terms_search_repeated_file:
  assumes "files_of ix w1 \<noteq> []" "2 \<le> count_list (files_of ix w2) f" "2 < length w1" "2 < length w2"
  shows "obj_get (fst (terms_loop ix [w1, w2] [] [])) f = Some [w2] \<and>
    \<not> all_terms_found [w1, w2] [w2]"
proof
  have "files_of ix w2 \<noteq> []" using assms(2) by auto
  then show "obj_get (fst (terms_loop ix [w1, w2] [] [])) f = Some [w2]"
    using known_word assms(1) map_files_repeated [OF assms(2)] by (simp add: Let_def split_def)
  show "\<not> all_terms_found [w1, w2] [w2]" using assms(3,4) by (simp add: all_terms_found_def)
qed

theorem terms_search_repeated_file_witness:
  "obj_get (fst (terms_loop small_index [lit ''alpha'', lit ''gamma''] [] [])) (lit ''2'') =
     Some [lit ''gamma''] \<and>
   performTermsSearch small_index [lit ''alpha'', lit ''gamma''] [] = Inr [] \<and>
   lit ''2'' \<in> set (files_of small_index (lit ''alpha''))"
proof -
  have a: "files_of small_index (lit ''alpha'') = [lit ''1'', lit ''2'']"
    and b: "files_of small_index (lit ''gamma'') = [lit ''0'', lit ''2'', lit ''2'']"
    and c: "performTermsSearch small_index [lit ''alpha'', lit ''gamma''] [] = Inr []" by code_simp+
  have "2 \<le> count_list (files_of small_index (lit ''gamma'')) (lit ''2'')"
    unfolding b by (simp add: lit_def)
  with terms_search_repeated_file [of small_index "lit ''alpha''" "lit ''gamma''" "lit ''2''"] a c
  show ?thesis by (simp add: lit_def)
qed

text \<open>
  Excluding a term that occurs in several files has no effect: the table lists numbers, the file
  is a string, and \<open>===\<close> never holds between them.
\<close>

theorem excluded_term_ignored:
  assumes "tab_get (ix_terms ix) ex = Some (FArr ns)" "2 \<le> length ns" "arr_ok ns"
    and "tab_get (ix_titleterms ix) ex = None"
  shows "\<not> is_excluded ix (dec n) ex"
proof -
  have "44 \<notin> set (dec n)" using is_digits_dec [of n] by (auto simp: is_digits_def list_all_iff)
  then have "to_str (VArr 0 (map (\<lambda>n. VInt (int n)) ns)) \<noteq> dec n"
    using comma_in_join [of "map (\<lambda>x. if x = VUndef \<or> x = VNull then [] else to_str x)
        (map (\<lambda>n. VInt (int n)) ns)"] assms(2)
    by (auto simp: lit_def simp del: map_map)
  moreover have "arr_ok (map int ns)" using assms(3) by (simp add: arr_ok_def)
  then have "\<not> contains (VArr 0 (map (\<lambda>n. VInt (int n)) ns)) (VStr (dec n)) NoIdx"
    using contains_number_as_string [of "map int ns" 0 "dec n"] by (simp add: comp_def)
  moreover have "\<not> contains (VArr 0 []) (VStr (dec n)) NoIdx"
    using contains_number_as_string [of "[]" 0 "dec n"] by (simp add: arr_ok_def MAX_ARRAY_INDEX_def)
  ultimately show ?thesis using assms(1,4) by (simp add: is_excluded_def or_empty_def)
qed

theorem excluded_term_ignored_witness:
  "performTermsSearch small_index [lit ''beta''] [lit ''alpha''] =
     performTermsSearch small_index [lit ''beta''] [] \<and>
   \<not> is_excluded small_index (dec 2) (lit ''alpha'')"
proof
  show "\<not> is_excluded small_index (dec 2) (lit ''alpha'')"
    by (rule excluded_term_ignored [of _ _ "[1, 2]"])
      (simp_all add: small_index_def tab_get_def obj_get_def inherited_def object_proto_def lit_def
        arr_ok_def MAX_ARRAY_INDEX_def)
  show "performTermsSearch small_index [lit ''beta''] [lit ''alpha''] =
     performTermsSearch small_index [lit ''beta''] []" by code_simp
qed

text \<open>
  A term that occurs only in document 0 is stored as the number 0, which \<open>!terms[word]\<close> takes for
  a missing entry: the term is then also found as a partial match of itself, and the document is
  scored as one (2 instead of 5).
\<close>

lemma document_zero_scored_as_partial:
  "performTermsSearch small_index [lit ''delta''] [] = Inr [term_result small_index (lit ''0'') 2] \<and>
   performTermsSearch small_index [lit ''beta''] [] = Inr [term_result small_index (lit ''2'') 5]"
  by code_simp

text \<open>
  \<open>escapeRegExp\<close> makes a word literal: the compiled pattern matches exactly the strings that
  contain the word.
\<close>

theorem escapeRegExp_literal: "str_match w (escapeRegExp s) \<longleftrightarrow> sublist s w"
  by (rule str_match_escape)

end
