(* ===== verification/Stemmer.thy ===== *)
theory Stemmer
  imports JS_Regex
begin

text \<open>
  The Porter stemmer of \<open>language_data.js\<close> (\<open>Stemmer.stemWord\<close>), translated step by step with
  the source's regular expressions as values of \<open>rx\<close>. The lemmas relate the measure
  expressions \<open>mgr0\<close>, \<open>mgr1\<close>, \<open>meq1\<close> and \<open>s_v\<close> to Porter's measure, and show that every step
  keeps the first letter of a word and never lengthens it.
\<close>

section \<open>The Porter stemmer\<close>

definition step2list :: "(jstr \<times> jstr) list" where
  "step2list = map (\<lambda>(a, b). (lit a, lit b)) [
    (''ational'', ''ate''), (''tional'', ''tion''), (''enci'', ''ence''),
    (''anci'', ''ance''), (''izer'', ''ize''), (''bli'', ''ble''), (''alli'', ''al''),
    (''entli'', ''ent''), (''eli'', ''e''), (''ousli'', ''ous''), (''ization'', ''ize''),
    (''ation'', ''ate''), (''ator'', ''ate''), (''alism'', ''al''), (''iveness'', ''ive''),
    (''fulness'', ''ful''), (''ousness'', ''ous''), (''aliti'', ''al''),
    (''iviti'', ''ive''), (''biliti'', ''ble''), (''logi'', ''log'')]"

definition step3list :: "(jstr \<times> jstr) list" where
  "step3list = map (\<lambda>(a, b). (lit a, lit b)) [
    (''icate'', ''ic''), (''ative'', ''''), (''alize'', ''al''), (''iciti'', ''ic''),
    (''ical'', ''ic''), (''ful'', ''''), (''ness'', '''')]"

definition rx_c :: rx where "rx_c = RSet True (chars ''aeiou'')"
definition rx_v :: rx where "rx_v = RSet False (chars ''aeiouy'')"
definition rx_C :: rx where "rx_C = RSeq rx_c (RStar True (RSet True (chars ''aeiouy'')))"
definition rx_V :: rx where "rx_V = RSeq rx_v (RStar True (RSet False (chars ''aeiou'')))"

definition mgr0 :: rx where
  "mgr0 = RSeq RBol (RSeq (ROpt (RGroup 1 rx_C)) (RSeq rx_V rx_C))"

definition meq1 :: rx where
  "meq1 = RSeq RBol (RSeq (RSeq (ROpt (RGroup 1 rx_C))
            (RSeq rx_V (RSeq rx_C (ROpt (RGroup 2 rx_V))))) REol)"

definition mgr1 :: rx where
  "mgr1 = RSeq RBol (RSeq (ROpt (RGroup 1 rx_C)) (RSeq rx_V (RSeq rx_C (RSeq rx_V rx_C))))"

definition s_v :: rx where
  "s_v = RSeq RBol (RSeq (ROpt (RGroup 1 rx_C)) rx_v)"

text \<open>The expression \<open>"^" + C + v + "[^aeiouwxy]$"\<close>, used in steps 1b and 5.\<close>

definition cvc :: rx where
  "cvc = RSeq RBol (RSeq (RSeq rx_C (RSeq rx_v (RSet True (chars ''aeiouwxy'')))) REol)"

definition last_char :: rx where
  "last_char = RSeq RDot REol"

definition drop_last :: "jstr \<Rightarrow> jstr" where
  "drop_last w = re_replace last_char (\<lambda>_. []) w"

definition dollar12 :: "re_match \<Rightarrow> jstr" where
  "dollar12 m = cap m 1 @ cap m 2"

definition re1a :: rx where
  "re1a = stem_pat (RSeq (RGroup 2 (RWords [''ss'', ''i''])) (RLit (lit ''es'')))"
definition re1a2 :: rx where
  "re1a2 = stem_pat (RSeq (RGroup 2 (RSet True (chars ''s''))) (RLit (lit ''s'')))"

definition step1a :: "jstr \<Rightarrow> jstr" where
  "step1a w =
     (if re_test re1a w then re_replace re1a dollar12 w
      else if re_test re1a2 w then re_replace re1a2 dollar12 w
      else w)"

definition re1b :: rx where
  "re1b = stem_pat (RLit (lit ''eed''))"
definition re1b2 :: rx where
  "re1b2 = stem_pat (RGroup 2 (RWords [''ed'', ''ing'']))"
definition re1b_at :: rx where
  "re1b_at = RSeq (RGroup 1 (RWords [''at'', ''bl'', ''iz''])) REol"
definition re1b_dbl :: rx where
  "re1b_dbl = RSeq (RGroup 1 (RSet True (chars ''aeiouylsz''))) (RSeq (RBack 1) REol)"

definition step1b :: "jstr \<Rightarrow> jstr" where
  "step1b w =
     (case re_exec re1b w of
        Some fp \<Rightarrow> if re_test mgr0 (cap fp 1) then drop_last w else w
      | None \<Rightarrow>
          (case re_exec re1b2 w of
             Some fp \<Rightarrow>
               (let stem = cap fp 1 in
                if re_test s_v stem then
                  (if re_test re1b_at stem then stem @ lit ''e''
                   else if re_test re1b_dbl stem then drop_last stem
                   else if re_test cvc stem then stem @ lit ''e''
                   else stem)
                else w)
           | None \<Rightarrow> w))"

definition re1c :: rx where
  "re1c = stem_pat (RLit (lit ''y''))"

definition step1c :: "jstr \<Rightarrow> jstr" where
  "step1c w =
     (case re_exec re1c w of
        Some fp \<Rightarrow> if re_test s_v (cap fp 1) then cap fp 1 @ lit ''i'' else w
      | None \<Rightarrow> w)"

definition re2 :: rx where
  "re2 = stem_pat (RGroup 2 (RWords [''ational'', ''tional'', ''enci'', ''anci'', ''izer'',
     ''bli'', ''alli'', ''entli'', ''eli'', ''ousli'', ''ization'', ''ation'', ''ator'',
     ''alism'', ''iveness'', ''fulness'', ''ousness'', ''aliti'', ''iviti'', ''biliti'',
     ''logi'']))"

text \<open>\<open>list[suffix]\<close>: the table has an list_entry for every alternative of the pattern, so the
  \<open>undefined\<close> of a missing list_entry is never appended (\<open>step2list_total\<close> below).\<close>

definition list_entry :: "(jstr \<times> jstr) list \<Rightarrow> jstr \<Rightarrow> jstr" where
  "list_entry tab k = (case map_of tab k of Some v \<Rightarrow> v | None \<Rightarrow> lit ''undefined'')"

definition step2 :: "jstr \<Rightarrow> jstr" where
  "step2 w =
     (case re_exec re2 w of
        Some fp \<Rightarrow> if re_test mgr0 (cap fp 1) then cap fp 1 @ list_entry step2list (cap fp 2) else w
      | None \<Rightarrow> w)"

definition re3 :: rx where
  "re3 = stem_pat (RGroup 2 (RWords [''icate'', ''ative'', ''alize'', ''iciti'', ''ical'',
     ''ful'', ''ness'']))"

definition step3 :: "jstr \<Rightarrow> jstr" where
  "step3 w =
     (case re_exec re3 w of
        Some fp \<Rightarrow> if re_test mgr0 (cap fp 1) then cap fp 1 @ list_entry step3list (cap fp 2) else w
      | None \<Rightarrow> w)"

definition re4 :: rx where
  "re4 = stem_pat (RGroup 2 (RWords [''al'', ''ance'', ''ence'', ''er'', ''ic'', ''able'',
     ''ible'', ''ant'', ''ement'', ''ment'', ''ent'', ''ou'', ''ism'', ''ate'', ''iti'',
     ''ous'', ''ive'', ''ize'']))"
definition re4_ion :: rx where
  "re4_ion = stem_pat (RSeq (RGroup 2 (RWords [''s'', ''t''])) (RGroup 3 (RLit (lit ''ion''))))"

definition step4 :: "jstr \<Rightarrow> jstr" where
  "step4 w =
     (case re_exec re4 w of
        Some fp \<Rightarrow> if re_test mgr1 (cap fp 1) then cap fp 1 else w
      | None \<Rightarrow>
          (case re_exec re4_ion w of
             Some fp \<Rightarrow> (let stem = cap fp 1 @ cap fp 2 in if re_test mgr1 stem then stem else w)
           | None \<Rightarrow> w))"

definition re5 :: rx where
  "re5 = stem_pat (RLit (lit ''e''))"
definition re5_ll :: rx where
  "re5_ll = RSeq (RLit (lit ''ll'')) REol"

definition step5 :: "jstr \<Rightarrow> jstr" where
  "step5 w =
     (let w1 = (case re_exec re5 w of
                  Some fp \<Rightarrow>
                    (let stem = cap fp 1 in
                     if re_test mgr1 stem \<or> (re_test meq1 stem \<and> \<not> re_test cvc stem)
                     then stem else w)
                | None \<Rightarrow> w)
      in if re_test re5_ll w1 \<and> re_test mgr1 w1 then drop_last w1 else w1)"

definition stemWord :: "jstr \<Rightarrow> jstr" where
  "stemWord w =
     (if length w < 3 then w
      else let firstch = take 1 w;
               w0 = (if firstch = lit ''y'' then lit ''Y'' @ drop 1 w else w);
               w5 = step5 (step4 (step3 (step2 (step1c (step1b (step1a w0))))))
           in if firstch = lit ''y'' then lit ''y'' @ drop 1 w5 else w5)"

section \<open>The measure expressions compute Porter's measure\<close>

text \<open>
  Porter's definitions: a letter is a vowel if it is one of \<open>aeiou\<close>, or a \<open>y\<close> preceded by a
  consonant; the measure of a word is the number of vowel-consonant changes in it.
\<close>

definition vowel :: "int \<Rightarrow> bool" where
  "vowel c \<longleftrightarrow> c \<in> set (lit ''aeiou'')"

definition chr_y :: int where
  "chr_y = of_char (CHR ''y'')"

definition is_v :: "bool \<Rightarrow> int \<Rightarrow> bool" where
  "is_v pv c \<longleftrightarrow> vowel c \<or> c = chr_y \<and> \<not> pv"

primrec vflags :: "bool \<Rightarrow> jstr \<Rightarrow> bool list" where
  "vflags pv [] = []"
| "vflags pv (c # cs) = is_v pv c # vflags (is_v pv c) cs"

fun vc :: "bool list \<Rightarrow> nat" where
  "vc (True # False # bs) = Suc (vc (False # bs))"
| "vc (b # bs) = vc bs"
| "vc [] = 0"

definition porter_m :: "jstr \<Rightarrow> nat" where
  "porter_m w = vc (vflags True w)"

definition block :: "bool \<Rightarrow> jstr \<Rightarrow> bool" where
  "block t u \<longleftrightarrow> u \<noteq> [] \<and> vflags (\<not> t) u = replicate (length u) t"

lemma not_vowel_y [simp]: "\<not> vowel chr_y"
  by (simp add: vowel_def chr_y_def lit_def)

lemma in_class_chars: "in_class neg (chars s) c \<longleftrightarrow> (neg \<noteq> (c \<in> set (lit s)))"
  by (auto simp: in_class_def chars_def list_ex_iff)

lemma class_vowels:
  "in_class neg (chars ''aeiou'') c \<longleftrightarrow> neg \<noteq> vowel c"
  "in_class neg (chars ''aeiouy'') c \<longleftrightarrow> neg \<noteq> (vowel c \<or> c = chr_y)"
  by (auto simp: in_class_chars vowel_def chr_y_def lit_def)

lemma word_set_seq:
  "word (RSeq (RSet n rs) b) u \<longleftrightarrow> (\<exists>c cs. u = c # cs \<and> in_class n rs c \<and> word b cs)"
  by (auto simp: word_simps) (metis append_Cons append_Nil)

lemma vflags_consonants:
  "vflags False u = replicate (length u) False \<longleftrightarrow> (\<forall>c \<in> set u. \<not> vowel c \<and> c \<noteq> chr_y)"
  by (induction u) (auto simp: is_v_def)

lemma vflags_vowels:
  "vflags True u = replicate (length u) True \<longleftrightarrow> (\<forall>c \<in> set u. vowel c)"
  by (induction u) (auto simp: is_v_def)

lemma word_rx_C: "word rx_C u \<longleftrightarrow> block False u"
  by (cases u) (auto simp: rx_C_def rx_c_def block_def word_set_seq word_star_set class_vowels
      vflags_consonants is_v_def)

lemma word_rx_V: "word rx_V u \<longleftrightarrow> block True u"
  by (cases u) (auto simp: rx_V_def rx_v_def block_def word_set_seq word_star_set class_vowels
      vflags_vowels is_v_def)

lemma plain_rx: "plain rx_C" "plain rx_V" "plain rx_v"
  by (simp_all add: rx_C_def rx_V_def rx_c_def rx_v_def)

lemma vflags_append_run:
  "vflags pv w = replicate (length w) t \<Longrightarrow>
     vflags pv (w @ v) = replicate (length w) t @ vflags (if w = [] then pv else t) v"
  by (induction w arbitrary: pv) auto

lemma block_append: "block t u \<Longrightarrow> vflags (\<not> t) (u @ v) = replicate (length u) t @ vflags t v"
  by (simp add: block_def vflags_append_run)

lemma vflags_split:
  "vflags pv s = x @ y \<Longrightarrow>
     \<exists>u v. s = u @ v \<and> vflags pv u = x \<and> vflags (if x = [] then pv else last x) v = y"
proof (induction x arbitrary: pv s)
  case (Cons b x)
  show ?case
  proof (cases s)
    case Nil
    with Cons.prems show ?thesis by simp
  next
    case s: (Cons c cs)
    with Cons.prems have b: "b = is_v pv c" and cs: "vflags b cs = x @ y" by auto
    from Cons.IH [OF cs] obtain u v where
      uv: "cs = u @ v" "vflags b u = x" "vflags (if x = [] then b else last x) v = y" by blast
    have "s = (c # u) @ v" "vflags pv (c # u) = b # x" using s uv b by simp_all
    moreover have "vflags (if b # x = [] then pv else last (b # x)) v = y" using uv(3) by simp
    ultimately show ?thesis by blast
  qed
qed (auto intro: exI [of _ "[]"])

lemma length_vflags [simp]: "length (vflags pv s) = length s"
  by (induction s arbitrary: pv) auto

lemma block_split:
  assumes "vflags (\<not> t) s = replicate (Suc n) t @ y"
  obtains u v where "s = u @ v" "block t u" "vflags t v = y"
proof -
  from vflags_split [OF assms] obtain u v where
    uv: "s = u @ v" "vflags (\<not> t) u = replicate (Suc n) t" "vflags t v = y" by auto
  from uv(2) have "length u = Suc n" by (metis length_replicate length_vflags)
  with uv(2) have "block t u" by (auto simp: block_def)
  with uv show ?thesis using that by simp
qed

lemma vflags_initial: "s \<noteq> [] \<Longrightarrow> hd s \<noteq> chr_y \<Longrightarrow> vflags pv s = vflags qv s"
  by (cases s) (auto simp: is_v_def)

lemma vc_consonants [simp]: "vc (replicate n False @ x) = vc x"
  by (induction n) (auto)


lemma vc_change [simp]:
  "vc (replicate (Suc n) True @ replicate (Suc k) False @ x) = Suc (vc x)"
proof (induction n)
  case 0
  then show ?case using vc_consonants [of "Suc k" x] by simp
qed simp

lemma vc_run_True: "vc (replicate n True) = 0"
proof (induction n)
  case (Suc n)
  then show ?case by (cases n) auto
qed simp

lemma run_split: "\<exists>n y. fs = replicate n b @ y \<and> (y = [] \<or> hd y = (\<not> b))"
proof (induction fs)
  case (Cons f fs)
  then obtain n y where *: "fs = replicate n b @ y" "y = [] \<or> hd y = (\<not> b)" by auto
  show ?case
  proof (cases "f = b")
    case True
    with * show ?thesis by (intro exI [of _ "Suc n"] exI [of _ y]) auto
  next
    case False
    then show ?thesis by (intro exI [of _ 0] exI [of _ "f # fs"]) auto
  qed
qed simp

lemma vowel_run:
  assumes "y \<noteq> []" "hd y" "0 < vc y"
  obtains n k z where "y = replicate (Suc n) True @ replicate (Suc k) False @ z"
    "z = [] \<or> hd z" "vc y = Suc (vc z)"
proof -
  obtain n x where x: "y = replicate n True @ x" "x = [] \<or> \<not> hd x"
    using run_split [of y True] by auto
  obtain k z where z: "x = replicate k False @ z" "z = [] \<or> hd z"
    using run_split [of x False] by auto
  from x assms have n: "n \<noteq> 0" by (cases n) auto
  from x assms(3) have "x \<noteq> []" by (auto simp: vc_run_True)
  with x z have k: "k \<noteq> 0" by (cases k) auto
  from n k obtain n' k' where "n = Suc n'" "k = Suc k'" by (metis not0_implies_Suc)
  with x z that [of n' k' z] show ?thesis using vc_change [of n' k' z] by simp
qed

lemma vowel_only_run: "vc y = 0 \<Longrightarrow> hd y \<Longrightarrow> y \<noteq> [] \<Longrightarrow> y = replicate (length y) True"
proof -
  assume a: "vc y = 0" "hd y" "y \<noteq> []"
  obtain n x where x: "y = replicate n True @ x" "x = [] \<or> \<not> hd x"
    using run_split [of y True] by auto
  show ?thesis
  proof (cases "x = []")
    case True
    with x show ?thesis by simp
  next
    case False
    with x obtain x' where x': "x = replicate (Suc 0) False @ x'" by (cases x) auto
    from x a False obtain n' where "n = Suc n'" by (cases n) auto
    with x x' a(1) vc_change [of n' 0 x'] show ?thesis by simp
  qed
qed

lemma measure_split:
  assumes "0 < vc fs"
  obtains i n k z where "fs = replicate i False @ replicate (Suc n) True @ replicate (Suc k) False @ z"
    "z = [] \<or> hd z" "vc fs = Suc (vc z)"
proof -
  obtain i y where y: "fs = replicate i False @ y" "y = [] \<or> hd y"
    using run_split [of fs False] by auto
  with assms have "0 < vc y" "y \<noteq> []" "hd y" by auto
  with y that show ?thesis by (metis vc_consonants vowel_run)
qed

text \<open>An optional consonant block followed by a vowel block, at the start of a word that does
  not begin with \<open>y\<close> (the stemmer replaces an initial \<open>y\<close> by \<open>Y\<close>).\<close>

definition onset :: "jstr \<Rightarrow> bool" where
  "onset p \<longleftrightarrow> p = [] \<or> block False p"

lemma block_not_Nil: "block t u \<Longrightarrow> u \<noteq> []"
  by (simp add: block_def)

lemma vflags_onset:
  assumes "onset p" "block True u" "hd (p @ u @ v) \<noteq> chr_y"
  shows "vflags True (p @ u @ v) = replicate (length p) False @ replicate (length u) True @ vflags True v"
proof (cases "p = []")
  case True
  then have "vflags True (u @ v) = vflags False (u @ v)"
    using assms block_not_Nil by (intro vflags_initial) auto
  with True assms(2) block_append [of True u v] show ?thesis by simp
next
  case False
  with assms(1) have "block False p" by (simp add: onset_def)
  with block_append [of False p "u @ v"] block_append [OF assms(2), of v] show ?thesis by simp
qed

lemma onset_split:
  assumes "vflags True s = replicate i False @ replicate (Suc n) True @ y" "hd s \<noteq> chr_y"
  obtains p u v where "s = p @ u @ v" "onset p" "block True u" "vflags True v = y"
proof (cases i)
  case 0
  with assms(1) have "vflags True s = replicate (Suc n) True @ y" by simp
  moreover from this have "vflags True s = vflags (\<not> True) s"
    using assms(2) by (intro vflags_initial) auto
  ultimately have "vflags (\<not> True) s = replicate (Suc n) True @ y" by simp
  then obtain u v where "s = u @ v" "block True u" "vflags True v = y"
    by (rule block_split)
  with that [of "[]" u v] show ?thesis by (simp add: onset_def)
next
  case (Suc k)
  with assms(1) have "vflags (\<not> False) s = replicate (Suc k) False @ (replicate (Suc n) True @ y)"
    by simp
  then obtain p v where p: "s = p @ v" "block False p" "vflags False v = replicate (Suc n) True @ y"
    by (rule block_split)
  from p(3) have "vflags (\<not> True) v = replicate (Suc n) True @ y" by simp
  then obtain u v' where "v = u @ v'" "block True u" "vflags True v' = y"
    by (rule block_split)
  with p that [of p u v'] show ?thesis by (simp add: onset_def)
qed

lemma coda_split:
  assumes "vflags True v = replicate (Suc k) False @ z"
  obtains w x where "v = w @ x" "block False w" "vflags False x = z"
proof -
  from assms have "vflags (\<not> False) v = replicate (Suc k) False @ z" by simp
  then show ?thesis using that by (rule block_split)
qed

lemma nucleus_split:
  assumes "vflags False v = replicate (Suc k) True @ z"
  obtains w x where "v = w @ x" "block True w" "vflags True x = z"
proof -
  from assms have "vflags (\<not> True) v = replicate (Suc k) True @ z" by simp
  then show ?thesis using that by (rule block_split)
qed

lemma vflags_coda: "block False w \<Longrightarrow> vflags True (w @ x) = replicate (length w) False @ vflags False x"
  using block_append [of False w x] by simp

lemma vflags_nucleus: "block True w \<Longrightarrow> vflags False (w @ x) = replicate (length w) True @ vflags True x"
  using block_append [of True w x] by simp

lemma block_length: "block t u \<Longrightarrow> \<exists>n. length u = Suc n"
  by (cases u) (auto simp: block_def)

lemma vc_onset_coda:
  assumes "onset p" "block True u" "block False w" "hd (p @ u @ w @ v) \<noteq> chr_y"
  shows "vc (vflags True (p @ u @ w @ v)) = Suc (vc (vflags False v))"
proof -
  obtain n k where "length u = Suc n" "length w = Suc k" using assms block_length by blast
  then show ?thesis
    using vflags_onset [OF assms(1,2,4)] vflags_coda [OF assms(3), of v]
      vc_change [of n k "vflags False v"] by simp
qed

lemma re_test_prefixI: "plain r \<Longrightarrow> word r w \<Longrightarrow> re_test (RSeq RBol r) (w @ v)"
  by (auto simp: re_test_prefix)

lemma word_opt_C: "word (ROpt (RGroup n rx_C)) p \<longleftrightarrow> onset p"
  by (auto simp: word_simps word_rx_C onset_def)

lemma mgr0_measure:
  assumes "w \<noteq> []" "hd w \<noteq> chr_y"
  shows "re_test mgr0 w \<longleftrightarrow> 0 < porter_m w"
proof
  assume "re_test mgr0 w"
  then obtain p u x v where "w = p @ u @ x @ v" "onset p" "block True u" "block False x"
    by (auto simp: mgr0_def re_test_prefix plain_rx word_simps(3) word_opt_C word_rx_C word_rx_V)
  with assms vc_onset_coda show "0 < porter_m w" by (simp add: porter_m_def)
next
  assume "0 < porter_m w"
  then obtain i n k z where "vflags True w =
      replicate i False @ replicate (Suc n) True @ replicate (Suc k) False @ z"
    unfolding porter_m_def by (rule measure_split)
  then obtain p u v where w: "w = p @ u @ v" "onset p" "block True u"
      "vflags True v = replicate (Suc k) False @ z"
    using assms(2) by (rule onset_split)
  from w(4) obtain x y where "v = x @ y" "block False x" by (rule coda_split)
  moreover from this w have "word (RSeq (ROpt (RGroup 1 rx_C)) (RSeq rx_V rx_C)) (p @ u @ x)"
    by (intro w_seq) (simp_all add: word_opt_C word_rx_C word_rx_V)
  ultimately show "re_test mgr0 w"
    unfolding mgr0_def using re_test_prefixI [of _ "p @ u @ x" y] w plain_rx by simp
qed

lemma mgr1_measure:
  assumes "w \<noteq> []" "hd w \<noteq> chr_y"
  shows "re_test mgr1 w \<longleftrightarrow> 1 < porter_m w"
proof
  assume "re_test mgr1 w"
  then obtain p u x u2 x2 v where w: "w = p @ u @ x @ u2 @ x2 @ v" "onset p"
      "block True u" "block False x" "block True u2" "block False x2"
    by (auto simp: mgr1_def re_test_prefix plain_rx word_simps(3) word_opt_C word_rx_C word_rx_V)
  obtain n k where "length u2 = Suc n" "length x2 = Suc k" using w block_length by blast
  then have "vc (vflags False (u2 @ x2 @ v)) = Suc (vc (vflags False v))"
    using vc_change [of n k "vflags False v"]
    by (simp add: vflags_nucleus [OF w(5)] vflags_coda [OF w(6)])
  then show "1 < porter_m w"
    using assms vc_onset_coda [OF w(2-4), of "u2 @ x2 @ v"] w(1) by (simp add: porter_m_def)
next
  assume m: "1 < porter_m w"
  then have "0 < vc (vflags True w)" by (simp add: porter_m_def)
  then obtain i n k z where z: "vflags True w =
      replicate i False @ replicate (Suc n) True @ replicate (Suc k) False @ z"
      "z = [] \<or> hd z" "vc (vflags True w) = Suc (vc z)"
    by (rule measure_split)
  with m have "z \<noteq> []" "hd z" "0 < vc z" by (auto simp: porter_m_def)
  then obtain n2 k2 z2 where z2: "z = replicate (Suc n2) True @ replicate (Suc k2) False @ z2"
    by (rule vowel_run)
  from z(1) assms(2) obtain p u v where w: "w = p @ u @ v" "onset p" "block True u"
      "vflags True v = replicate (Suc k) False @ z"
    by (rule onset_split)
  from w(4) obtain x v2 where x: "v = x @ v2" "block False x"
      "vflags False v2 = replicate (Suc n2) True @ replicate (Suc k2) False @ z2"
    unfolding z2 by (rule coda_split)
  from x(3) obtain u2 v3 where u2: "v2 = u2 @ v3" "block True u2"
      "vflags True v3 = replicate (Suc k2) False @ z2"
    by (rule nucleus_split)
  from u2(3) obtain x2 v4 where x2: "v3 = x2 @ v4" "block False x2" by (rule coda_split)
  have "word (RSeq (ROpt (RGroup 1 rx_C)) (RSeq rx_V (RSeq rx_C (RSeq rx_V rx_C))))
      (p @ u @ x @ u2 @ x2)"
    by (intro w_seq) (simp_all add: word_opt_C word_rx_C word_rx_V w x u2 x2)
  then show "re_test mgr1 w"
    unfolding mgr1_def using re_test_prefixI [of _ "p @ u @ x @ u2 @ x2" v4] w x u2 x2 plain_rx
    by simp
qed

lemma meq1_measure:
  assumes "w \<noteq> []" "hd w \<noteq> chr_y"
  shows "re_test meq1 w \<longleftrightarrow> porter_m w = 1"
proof
  assume "re_test meq1 w"
  then have "word (RSeq (ROpt (RGroup 1 rx_C)) (RSeq rx_V (RSeq rx_C (ROpt (RGroup 2 rx_V))))) w"
    by (simp add: meq1_def re_test_whole plain_rx)
  then obtain p u x v where w: "w = p @ u @ x @ v" "onset p" "block True u" "block False x"
      "v = [] \<or> block True v"
    unfolding word_simps(3) word_opt_C word_rx_C word_rx_V
    by (auto simp: word_simps word_rx_V)
  from w(5) have "vc (vflags False v) = 0"
    by (auto simp: block_def vc_run_True)
  then show "porter_m w = 1"
    using assms vc_onset_coda [OF w(2-4), of v] w(1) by (simp add: porter_m_def)
next
  assume m: "porter_m w = 1"
  then have "0 < vc (vflags True w)" by (simp add: porter_m_def)
  then obtain i n k z where z: "vflags True w =
      replicate i False @ replicate (Suc n) True @ replicate (Suc k) False @ z"
      "z = [] \<or> hd z" "vc (vflags True w) = Suc (vc z)"
    by (rule measure_split)
  with m have vz: "vc z = 0" by (simp add: porter_m_def)
  from z(1) assms(2) obtain p u v where w: "w = p @ u @ v" "onset p" "block True u"
      "vflags True v = replicate (Suc k) False @ z"
    by (rule onset_split)
  from w(4) obtain x v2 where x: "v = x @ v2" "block False x" "vflags False v2 = z"
    by (rule coda_split)
  have "v2 = [] \<or> block True v2"
  proof (cases "z = []")
    case True
    with x(3) show ?thesis by (metis length_0_conv length_vflags)
  next
    case False
    with z(2) vz have "z = replicate (length z) True" by (simp add: vowel_only_run)
    with x(3) False show ?thesis
      by (metis (full_types) block_def length_vflags list.size(3) length_0_conv)
  qed
  then have "word (RSeq (ROpt (RGroup 1 rx_C)) (RSeq rx_V (RSeq rx_C (ROpt (RGroup 2 rx_V)))))
      (p @ u @ x @ v2)"
    by (intro w_seq) (auto simp: word_opt_C word_rx_C word_rx_V word_simps(1,4,5) w x,
        use w(2) in \<open>auto simp: onset_def\<close>)
  then show "re_test meq1 w"
    using w x by (simp add: meq1_def re_test_whole plain_rx)
qed

lemma s_v_vowel:
  assumes "w \<noteq> []" "hd w \<noteq> chr_y"
  shows "re_test s_v w \<longleftrightarrow> True \<in> set (vflags True w)"
proof
  assume "re_test s_v w"
  then obtain p c v where w: "w = p @ c # v" "onset p" "vowel c \<or> c = chr_y"
    using plain_rx
    by (auto simp: s_v_def re_test_prefix word_simps(3) word_opt_C rx_v_def word_simps(2) class_vowels)
  then have "is_v (p = []) c" "p \<noteq> [] \<Longrightarrow> is_v False c" using assms by (auto simp: is_v_def)
  with w block_append [of False p "c # v"] show "True \<in> set (vflags True w)"
    by (auto simp: onset_def block_not_Nil)
next
  assume t: "True \<in> set (vflags True w)"
  obtain i y where y: "vflags True w = replicate i False @ y" "y = [] \<or> hd y"
    using run_split [of "vflags True w" False] by auto
  with t have "y \<noteq> []" by auto
  with y obtain z where "vflags True w = replicate i False @ replicate (Suc 0) True @ z"
    by (cases y) auto
  then obtain p u v where w: "w = p @ u @ v" "onset p" "block True u"
    using assms(2) by (rule onset_split)
  then obtain c cs where "u = c # cs" "vowel c \<or> c = chr_y"
    by (cases u) (auto simp: block_def is_v_def)
  then have "word (RSeq (ROpt (RGroup 1 rx_C)) rx_v) (p @ [c])"
    using w by (intro w_seq) (simp_all add: word_opt_C rx_v_def word_simps(2) class_vowels)
  then show "re_test s_v w"
    unfolding s_v_def using re_test_prefixI [of _ "p @ [c]" "cs @ v"] w \<open>u = c # cs\<close> plain_rx
    by simp
qed

section \<open>Stemming keeps the first letter and never lengthens a word\<close>

definition shrinks :: "jstr \<Rightarrow> jstr \<Rightarrow> bool" where
  "shrinks w w' \<longleftrightarrow> w' \<noteq> [] \<and> hd w' = hd w \<and> length w' \<le> length w"

lemma shrinks_refl: "w \<noteq> [] \<Longrightarrow> shrinks w w"
  by (simp add: shrinks_def)

lemma shrinks_trans: "shrinks u v \<Longrightarrow> shrinks v w \<Longrightarrow> shrinks u w"
  by (auto simp: shrinks_def)

lemma shrinks_stem: "stem \<noteq> [] \<Longrightarrow> length x \<le> length y \<Longrightarrow> shrinks (stem @ y) (stem @ x)"
  by (simp add: shrinks_def)

lemma shrinks_stem_only: "stem \<noteq> [] \<Longrightarrow> shrinks (stem @ y) stem"
  by (simp add: shrinks_def)

lemma shrinks_butlast: "2 \<le> length w \<Longrightarrow> shrinks w (butlast w)"
  by (cases w; cases "tl w") (auto simp: shrinks_def)

lemma re_exec_last_char:
  "re_exec_from last_char i s = Some m \<Longrightarrow>
     s \<noteq> [] \<and> mt_start m = i + length s - 1 \<and> mt_end m = i + length s"
proof (induction s arbitrary: i)
  case Nil
  then show ?case by (simp add: last_char_def re_exec_from.simps)
next
  case (Cons c cs)
  show ?case
  proof (cases "cs = []")
    case True
    with Cons.prems show ?thesis
      by (auto simp: last_char_def re_exec_from.simps [of _ _ "[c]"] re_exec_from.simps [of _ _ "[]"]
          split: if_splits)
  next
    case False
    then have "ms last_char (MS i (c # cs) []) = []" by (simp add: last_char_def)
    with Cons.prems have "re_exec_from last_char (Suc i) cs = Some m"
      by (simp add: re_exec_from.simps [of _ _ "c # cs"])
    from Cons.IH [OF this] show ?thesis by auto
  qed
qed

lemma drop_last_cases: "drop_last w = w \<or> drop_last w = butlast w"
proof (cases "re_exec last_char w")
  case None
  then show ?thesis by (simp add: drop_last_def re_replace_def)
next
  case (Some m)
  with re_exec_last_char [of 0 w m] show ?thesis
    by (simp add: drop_last_def re_replace_def re_exec_def butlast_conv_take)
qed

lemma shrinks_drop_last: "2 \<le> length w \<Longrightarrow> shrinks w (drop_last w)"
  using drop_last_cases [of w] shrinks_butlast [of w] shrinks_refl [of w] by (cases w) auto

lemma lit_simps [simp]:
  "lit [] = []" "lit (c # cs) = of_char c # lit cs" "length (lit s) = length s"
  by (simp_all add: lit_def)

lemma re_replace_whole:
  "re_exec r w = Some m \<Longrightarrow> mt_start m = 0 \<Longrightarrow> mt_end m = length w \<Longrightarrow> re_replace r f w = f m"
  by (simp add: re_replace_def)

lemma shrinks_step1a: "w \<noteq> [] \<Longrightarrow> shrinks w (step1a w)"
proof -
  assume w: "w \<noteq> []"
  have a: "shrinks w (re_replace re1a dollar12 w)" if "re_exec re1a w = Some m" for m
    using that [unfolded re1a_def]
    by (rule re_exec_stem_pat_group2_lit)
      (use that in \<open>auto simp: re_replace_whole dollar12_def intro: shrinks_stem\<close>)
  have b: "shrinks w (re_replace re1a2 dollar12 w)" if "re_exec re1a2 w = Some m" for m
    using that [unfolded re1a2_def]
    by (rule re_exec_stem_pat_group2_lit)
      (use that in \<open>auto simp: re_replace_whole dollar12_def intro: shrinks_stem\<close>)
  show ?thesis
    using a b w by (auto simp: step1a_def re_test_def intro: shrinks_refl)
qed

lemma re_exec_stem_pat_lit:
  assumes "re_exec (stem_pat (RLit (lit x))) w = Some m"
  obtains stem where "w = stem @ lit x" "stem \<noteq> []" "cap m 1 = stem"
  using assms by (rule re_exec_stem_pat) (auto simp: cap_def)

lemma re1b_dbl_length:
  assumes "re_test re1b_dbl w" shows "2 \<le> length w"
proof -
  have "re_exec_from re1b_dbl i s = Some m \<Longrightarrow> 2 \<le> length s" for i s m
  proof (induction s arbitrary: i)
    case Nil
    then show ?case by (simp add: re1b_dbl_def re_exec_from.simps)
  next
    case (Cons c cs)
    show ?case
    proof (cases cs)
      case Nil
      with Cons.prems show ?thesis
        by (auto simp: re1b_dbl_def re_exec_from.simps [of _ _ "[c]"] re_exec_from.simps [of _ _ "[]"]
            capture_def split: if_splits)
    qed simp
  qed
  with assms show ?thesis by (auto simp: re_test_def re_exec_def)
qed

lemma re1b2_split:
  assumes "re_exec re1b2 w = Some m"
  obtains y where "w = cap m 1 @ y" "cap m 1 \<noteq> []" "2 \<le> length y"
  using assms [unfolded re1b2_def] by (rule re_exec_stem_pat_group2) auto

lemma shrinks_step1b: "w \<noteq> [] \<Longrightarrow> shrinks w (step1b w)"
proof (cases "re_exec re1b w")
  case (Some m)
  then obtain stem where "w = stem @ lit ''eed''" "stem \<noteq> []" "cap m 1 = stem"
    unfolding re1b_def by (rule re_exec_stem_pat_lit)
  with Some show ?thesis
    by (auto simp: step1b_def intro: shrinks_drop_last shrinks_refl)
next
  case None
  assume w: "w \<noteq> []"
  show ?thesis
  proof (cases "re_exec re1b2 w")
    case None': None
    with None w show ?thesis by (simp add: step1b_def shrinks_refl)
  next
    case (Some m)
    then obtain y where y: "w = cap m 1 @ y" "cap m 1 \<noteq> []" "2 \<le> length y"
      by (rule re1b2_split)
    then have "shrinks w (cap m 1)" "shrinks w (cap m 1 @ lit ''e'')"
      using shrinks_stem_only shrinks_stem [of "cap m 1" "lit ''e''" y] by auto
    moreover have "shrinks w (drop_last (cap m 1))" if "re_test re1b_dbl (cap m 1)"
      using shrinks_trans [OF \<open>shrinks w (cap m 1)\<close>] shrinks_drop_last re1b_dbl_length [OF that]
      by blast
    ultimately show ?thesis
      using None Some shrinks_refl [OF w] by (simp add: step1b_def Let_def)
  qed
qed

lemma shrinks_step1c: "w \<noteq> [] \<Longrightarrow> shrinks w (step1c w)"
proof (cases "re_exec re1c w")
  case (Some m)
  then obtain stem where "w = stem @ lit ''y''" "stem \<noteq> []" "cap m 1 = stem"
    unfolding re1c_def by (rule re_exec_stem_pat_lit)
  with Some show ?thesis by (auto simp: step1c_def intro!: shrinks_stem shrinks_refl)
qed (simp add: step1c_def shrinks_refl)

text \<open>Both tables have an list_entry for every suffix of their pattern, and it is no longer than
  the suffix it replaces.\<close>

lemma step2list_total:
  "word (RWords [''ational'', ''tional'', ''enci'', ''anci'', ''izer'',
     ''bli'', ''alli'', ''entli'', ''eli'', ''ousli'', ''ization'', ''ation'', ''ator'',
     ''alism'', ''iveness'', ''fulness'', ''ousness'', ''aliti'', ''iviti'', ''biliti'',
     ''logi'']) v \<Longrightarrow> (\<exists>x. map_of step2list v = Some x \<and> length x \<le> length v)"
  by (simp add: step2list_def) (elim disjE; simp)

lemma step3list_total:
  "word (RWords [''icate'', ''ative'', ''alize'', ''iciti'', ''ical'', ''ful'', ''ness'']) v \<Longrightarrow>
     (\<exists>x. map_of step3list v = Some x \<and> length x \<le> length v)"
  by (simp add: step3list_def) (elim disjE; simp)

lemma shrinks_step2: "w \<noteq> [] \<Longrightarrow> shrinks w (step2 w)"
proof (cases "re_exec re2 w")
  case (Some m)
  assume w: "w \<noteq> []"
  from Some [unfolded re2_def] show ?thesis
    by (rule re_exec_stem_pat_group2)
      (use Some w in \<open>auto simp: step2_def list_entry_def dest!: step2list_total
        intro: shrinks_stem shrinks_refl simp del: RWords_props(3)\<close>)
qed (simp add: step2_def shrinks_refl)

lemma shrinks_step3: "w \<noteq> [] \<Longrightarrow> shrinks w (step3 w)"
proof (cases "re_exec re3 w")
  case (Some m)
  assume w: "w \<noteq> []"
  from Some [unfolded re3_def] show ?thesis
    by (rule re_exec_stem_pat_group2)
      (use Some w in \<open>auto simp: step3_def list_entry_def dest!: step3list_total
        intro: shrinks_stem shrinks_refl simp del: RWords_props(3)\<close>)
qed (simp add: step3_def shrinks_refl)

lemma re4_ion_split:
  assumes "re_exec re4_ion w = Some m"
  obtains y where "w = (cap m 1 @ cap m 2) @ y" "cap m 1 \<noteq> []"
proof -
  from assms obtain stem v st where *: "w = stem @ v" "stem \<noteq> []" "group_of m 1 = Some stem"
    "st \<in> set (ms (RSeq (RGroup 2 (RWords [''s'', ''t''])) (RGroup 3 (RLit (lit ''ion''))))
       (MS (length stem) v [(1, stem)]))" "mt_caps m = m_caps st"
    unfolding re4_ion_def by (rule re_exec_stem_pat) auto
  then obtain s1 s2 where s1: "s1 \<in> set (ms (RWords [''s'', ''t'']) (MS (length stem) v [(1, stem)]))"
      and s2: "s2 \<in> set (ms (RLit (lit ''ion'')) (capture 2 (MS (length stem) v [(1, stem)]) s1))"
      and st: "st = capture 3 (capture 2 (MS (length stem) v [(1, stem)]) s1) s2"
    by (auto simp del: lit_simps)
  from ms_sound [OF s1] obtain x where x: "consumed (MS (length stem) v [(1, stem)]) x s1" by auto
  from ms_caps_no_groups [OF _ s2] have "m_caps s2 = (2, x) # m_caps s1"
    using x by (simp add: capture_def consumed_def del: lit_simps)
  with st * have "group_of m 2 = Some x" by (simp add: group_of_def capture_def)
  with * x that show ?thesis by (simp add: cap_def consumed_def)
qed

lemma shrinks_step4: "w \<noteq> [] \<Longrightarrow> shrinks w (step4 w)"
proof (cases "re_exec re4 w")
  case (Some m)
  assume w: "w \<noteq> []"
  from Some [unfolded re4_def] show ?thesis
    by (rule re_exec_stem_pat_group2)
      (use Some w in \<open>auto simp: step4_def intro: shrinks_stem_only shrinks_refl
        simp del: RWords_props(3)\<close>)
next
  case None
  assume w: "w \<noteq> []"
  show ?thesis
  proof (cases "re_exec re4_ion w")
    case None': None
    with None w show ?thesis by (simp add: step4_def shrinks_refl)
  next
    case (Some m)
    then obtain y where "w = (cap m 1 @ cap m 2) @ y" "cap m 1 \<noteq> []" by (rule re4_ion_split)
    then have "shrinks w (cap m 1 @ cap m 2)"
      by (metis append_is_Nil_conv shrinks_stem_only)
    with None Some w show ?thesis by (simp add: step4_def Let_def shrinks_refl)
  qed
qed

lemma shrinks_step5: "w \<noteq> [] \<Longrightarrow> shrinks w (step5 w)"
proof -
  assume w: "w \<noteq> []"
  have ll: "2 \<le> length u" if "re_test re5_ll u" for u
    using that by (auto simp: re5_ll_def re_test_suffix simp del: RLit.simps)
  define w1 where "w1 = (case re_exec re5 w of
      Some fp \<Rightarrow> (let stem = cap fp 1 in
        if re_test mgr1 stem \<or> (re_test meq1 stem \<and> \<not> re_test cvc stem) then stem else w)
    | None \<Rightarrow> w)"
  have "shrinks w w1"
  proof (cases "re_exec re5 w")
    case (Some m)
    then obtain stem where "w = stem @ lit ''e''" "stem \<noteq> []" "cap m 1 = stem"
      unfolding re5_def by (rule re_exec_stem_pat_lit)
    with Some w show ?thesis
      by (auto simp: w1_def Let_def intro: shrinks_stem_only shrinks_refl)
  qed (simp add: w1_def shrinks_refl w)
  moreover have "step5 w = (if re_test re5_ll w1 \<and> re_test mgr1 w1 then drop_last w1 else w1)"
    by (simp add: step5_def w1_def Let_def)
  ultimately show ?thesis
    using shrinks_trans shrinks_drop_last ll by auto
qed

lemma shrinks_app: "shrinks w v \<Longrightarrow> (\<And>u. u \<noteq> [] \<Longrightarrow> shrinks u (f u)) \<Longrightarrow> shrinks w (f v)"
  using shrinks_trans [of w v "f v"] by (simp add: shrinks_def)

lemmas shrinks_steps =
  shrinks_app [OF _ shrinks_step1a] shrinks_app [OF _ shrinks_step1b]
  shrinks_app [OF _ shrinks_step1c] shrinks_app [OF _ shrinks_step2]
  shrinks_app [OF _ shrinks_step3] shrinks_app [OF _ shrinks_step4]
  shrinks_app [OF _ shrinks_step5]

lemma shrinks_pipeline:
  "w \<noteq> [] \<Longrightarrow> shrinks w (step5 (step4 (step3 (step2 (step1c (step1b (step1a w)))))))"
  by (intro shrinks_steps shrinks_refl)

lemma shrinks_stemWord: "w \<noteq> [] \<Longrightarrow> shrinks w (stemWord w)"
proof -
  assume w: "w \<noteq> []"
  let ?p = "\<lambda>w. step5 (step4 (step3 (step2 (step1c (step1b (step1a w))))))"
  consider (short) "length w < 3" | (y) "\<not> length w < 3" "take 1 w = lit ''y''"
    | (other) "\<not> length w < 3" "take 1 w \<noteq> lit ''y''" by blast
  then show ?thesis
  proof cases
    case short
    then show ?thesis using w by (simp add: stemWord_def shrinks_refl)
  next
    case y
    then obtain cs where cs: "w = of_char (CHR ''y'') # cs" by (cases w) auto
    have "shrinks (lit ''Y'' @ cs) (?p (lit ''Y'' @ cs))"
      by (rule shrinks_pipeline) simp
    then have "length (lit ''y'' @ drop 1 (?p (lit ''Y'' @ cs))) \<le> length w"
      using cs by (auto simp: shrinks_def)
    moreover have "stemWord w = lit ''y'' @ drop 1 (?p (lit ''Y'' @ cs))"
      using y cs by (simp add: stemWord_def Let_def)
    ultimately show ?thesis using cs by (simp add: shrinks_def)
  next
    case other
    then have "stemWord w = ?p w" by (simp add: stemWord_def Let_def)
    with shrinks_pipeline [OF w] show ?thesis by simp
  qed
qed

section \<open>Properties\<close>

text \<open>
  C2. The stemmer's measure expressions decide Porter's measure: for a word that does not begin
  with \<open>y\<close> (which \<open>stemWord\<close> never passes to them), \<open>mgr0\<close> tests \<open>m > 0\<close>, \<open>mgr1\<close> tests
  \<open>m > 1\<close>, \<open>meq1\<close> tests \<open>m = 1\<close> and \<open>s_v\<close> tests that the word has a vowel, where \<open>m\<close> counts the
  vowel-consonant changes and \<open>y\<close> is a vowel exactly after a consonant.
\<close>

theorem measure_expressions:
  assumes "w \<noteq> []" "hd w \<noteq> chr_y"
  shows "(re_test mgr0 w \<longleftrightarrow> 0 < porter_m w) \<and> (re_test mgr1 w \<longleftrightarrow> 1 < porter_m w) \<and>
    (re_test meq1 w \<longleftrightarrow> porter_m w = 1) \<and> (re_test s_v w \<longleftrightarrow> True \<in> set (vflags True w))"
  using assms by (simp add: mgr0_measure mgr1_measure meq1_measure s_v_vowel)

theorem measure_expressions_witness:
  "re_test mgr1 (lit ''private'') \<and> 1 < porter_m (lit ''private'')"
proof -
  have w: "lit ''private'' \<noteq> []" "hd (lit ''private'') \<noteq> chr_y" by (simp_all add: chr_y_def)
  have "1 < porter_m (lit ''private'')" by code_simp
  with measure_expressions [OF w] show ?thesis by blast
qed

text \<open>
  C39. Stemming keeps the first letter of a word, never returns the empty string and never
  returns more letters than it was given.
\<close>

theorem stemWord_shrinks:
  assumes "w \<noteq> []"
  shows "stemWord w \<noteq> [] \<and> hd (stemWord w) = hd w \<and> length (stemWord w) \<le> length w"
  using shrinks_stemWord [OF assms] by (simp add: shrinks_def)

theorem stemWord_shrinks_witness:
  "hd (stemWord (lit ''yes'')) = of_char (CHR ''y'') \<and> length (stemWord (lit ''yes'')) \<le> 3"
  using stemWord_shrinks [of "lit ''yes''"] by simp

end
