(* ===== verification/Language_Data.thy ===== *)
theory Language_Data
  imports Stemmer
begin

text \<open>
  The rest of \<open>language_data.js\<close>: the stop words and the query splitter \<open>splitQuery\<close> with its
  table \<open>splitChars\<close>. \<open>splitQuery\<close> keeps the loop of the source with its index and its
  \<open>start\<close> marker; it is shown to compute the maximal runs of word characters. The locale
  \<open>query_splitter\<close> is what the search relies on; \<open>splitQuery\<close> is one provider of it, the
  fallback of \<open>searchtools.js\<close> another.
\<close>

section \<open>Stop words\<close>

definition stopwords :: "jstr list" where
  "stopwords = map lit [
    ''a'', ''and'', ''are'', ''as'', ''at'', ''be'', ''but'', ''by'', ''for'', ''if'',
    ''in'', ''into'', ''is'', ''it'', ''near'', ''no'', ''not'', ''of'', ''on'', ''or'',
    ''such'', ''that'', ''the'', ''their'', ''then'', ''there'', ''these'', ''they'',
    ''this'', ''to'', ''was'', ''will'', ''with'']"

section \<open>The query splitter\<close>

definition split_singles :: "int list" where
  "split_singles = [
    96, 180, 187, 191, 215, 247, 749, 885, 903, 907, 909, 930, 1014, 1648, 1748, 1809,
    2416, 2473, 2481, 2526, 2601, 2609, 2612, 2615, 2653, 2702, 2706, 2729, 2737, 2740,
    2857, 2865, 2868, 2910, 2928, 2948, 2961, 2971, 2973, 3085, 3089, 3113, 3124, 3213,
    3217, 3241, 3252, 3295, 3341, 3345, 3369, 3506, 3516, 3633, 3715, 3721, 3736, 3744,
    3748, 3750, 3756, 3761, 3781, 3912, 4239, 4347, 4681, 4695, 4697, 4745, 4785, 4799,
    4801, 4823, 4881, 5760, 5901, 5997, 6313, 7405, 8024, 8026, 8028, 8030, 8117, 8125,
    8133, 8181, 8468, 8485, 8487, 8489, 8494, 8527, 11311, 11359, 11687, 11695, 11703,
    11711, 11719, 11727, 11735, 12448, 12539, 43010, 43014, 43019, 43587, 43696, 43713,
    64286, 64297, 64311, 64317, 64319, 64322, 64325, 65141]"

definition split_ranges :: "(int \<times> int) list" where
  "split_ranges = [
    (0, 47), (58, 64), (91, 94), (123, 169), (171, 177), (182, 184), (706, 709),
    (722, 735), (741, 747), (751, 879), (888, 889), (894, 901), (1154, 1161), (1318, 1328),
    (1367, 1368), (1370, 1376), (1416, 1487), (1515, 1519), (1523, 1568), (1611, 1631),
    (1642, 1645), (1750, 1764), (1767, 1773), (1789, 1790), (1792, 1807), (1840, 1868),
    (1958, 1968), (1970, 1983), (2027, 2035), (2038, 2041), (2043, 2047), (2070, 2073),
    (2075, 2083), (2085, 2087), (2089, 2307), (2362, 2364), (2366, 2383), (2385, 2391),
    (2402, 2405), (2419, 2424), (2432, 2436), (2445, 2446), (2449, 2450), (2483, 2485),
    (2490, 2492), (2494, 2509), (2511, 2523), (2530, 2533), (2546, 2547), (2554, 2564),
    (2571, 2574), (2577, 2578), (2618, 2648), (2655, 2661), (2672, 2673), (2677, 2692),
    (2746, 2748), (2750, 2767), (2769, 2783), (2786, 2789), (2800, 2820), (2829, 2830),
    (2833, 2834), (2874, 2876), (2878, 2907), (2914, 2917), (2930, 2946), (2955, 2957),
    (2966, 2968), (2976, 2978), (2981, 2983), (2987, 2989), (3002, 3023), (3025, 3045),
    (3059, 3076), (3130, 3132), (3134, 3159), (3162, 3167), (3170, 3173), (3184, 3191),
    (3199, 3204), (3258, 3260), (3262, 3293), (3298, 3301), (3312, 3332), (3386, 3388),
    (3390, 3423), (3426, 3429), (3446, 3449), (3456, 3460), (3479, 3481), (3518, 3519),
    (3527, 3584), (3636, 3647), (3655, 3663), (3674, 3712), (3717, 3718), (3723, 3724),
    (3726, 3731), (3752, 3753), (3764, 3772), (3774, 3775), (3783, 3791), (3802, 3803),
    (3806, 3839), (3841, 3871), (3892, 3903), (3949, 3975), (3980, 4095), (4139, 4158),
    (4170, 4175), (4182, 4185), (4190, 4192), (4194, 4196), (4199, 4205), (4209, 4212),
    (4226, 4237), (4250, 4255), (4294, 4303), (4349, 4351), (4686, 4687), (4702, 4703),
    (4750, 4751), (4790, 4791), (4806, 4807), (4886, 4887), (4955, 4968), (4989, 4991),
    (5008, 5023), (5109, 5120), (5741, 5742), (5787, 5791), (5867, 5869), (5873, 5887),
    (5906, 5919), (5938, 5951), (5970, 5983), (6001, 6015), (6068, 6102), (6104, 6107),
    (6109, 6111), (6122, 6127), (6138, 6159), (6170, 6175), (6264, 6271), (6315, 6319),
    (6390, 6399), (6429, 6469), (6510, 6511), (6517, 6527), (6572, 6592), (6600, 6607),
    (6619, 6655), (6679, 6687), (6741, 6783), (6794, 6799), (6810, 6822), (6824, 6916),
    (6964, 6980), (6988, 6991), (7002, 7042), (7073, 7085), (7098, 7167), (7204, 7231),
    (7242, 7244), (7294, 7400), (7410, 7423), (7616, 7679), (7958, 7959), (7966, 7967),
    (8006, 8007), (8014, 8015), (8062, 8063), (8127, 8129), (8141, 8143), (8148, 8149),
    (8156, 8159), (8173, 8177), (8189, 8303), (8306, 8307), (8314, 8318), (8330, 8335),
    (8341, 8449), (8451, 8454), (8456, 8457), (8470, 8472), (8478, 8483), (8506, 8507),
    (8512, 8516), (8522, 8525), (8586, 9311), (9372, 9449), (9472, 10101), (10132, 11263),
    (11493, 11498), (11503, 11516), (11518, 11519), (11558, 11567), (11622, 11630),
    (11632, 11647), (11671, 11679), (11743, 11822), (11824, 12292), (12296, 12320),
    (12330, 12336), (12342, 12343), (12349, 12352), (12439, 12444), (12544, 12548),
    (12590, 12592), (12687, 12689), (12694, 12703), (12728, 12783), (12800, 12831),
    (12842, 12880), (12896, 12927), (12938, 12976), (12992, 13311), (19894, 19967),
    (40908, 40959), (42125, 42191), (42238, 42239), (42509, 42511), (42540, 42559),
    (42592, 42593), (42607, 42622), (42648, 42655), (42736, 42774), (42784, 42785),
    (42889, 42890), (42893, 43002), (43043, 43055), (43062, 43071), (43124, 43137),
    (43188, 43215), (43226, 43249), (43256, 43258), (43260, 43263), (43302, 43311),
    (43335, 43359), (43389, 43395), (43443, 43470), (43482, 43519), (43561, 43583),
    (43596, 43599), (43610, 43615), (43639, 43641), (43643, 43647), (43698, 43700),
    (43703, 43704), (43710, 43711), (43715, 43738), (43742, 43967), (44003, 44015),
    (44026, 44031), (55204, 55215), (55239, 55242), (55292, 55295), (57344, 63743),
    (64046, 64047), (64110, 64111), (64218, 64255), (64263, 64274), (64280, 64284),
    (64434, 64466), (64830, 64847), (64912, 64913), (64968, 65007), (65020, 65135),
    (65277, 65295), (65306, 65312), (65339, 65344), (65371, 65381), (65471, 65473),
    (65480, 65481), (65488, 65489), (65496, 65497)]"

definition splitChars :: "int \<Rightarrow> bool" where
  "splitChars c = (c \<in> set split_singles \<or> list_ex (\<lambda>(a, b). a \<le> c \<and> c \<le> b) split_ranges)"

text \<open>The loop of \<open>splitQuery\<close>: \<open>start\<close> is \<open>-1\<close> outside a word, else the word's first index.\<close>

function split_loop :: "jstr \<Rightarrow> nat \<Rightarrow> int \<Rightarrow> jstr list \<Rightarrow> int \<times> jstr list" where
  "split_loop query i start result =
     (if i < length query then
        if splitChars (query ! i) then
          if start \<noteq> -1
          then split_loop query (Suc i) (-1) (result @ [drop (nat start) (take i query)])
          else split_loop query (Suc i) start result
        else if start = -1 then split_loop query (Suc i) (int i) result
        else split_loop query (Suc i) start result
      else (start, result))"
  by pat_completeness auto
termination
  by (relation "measure (\<lambda>(query, i, start, result). length query - i)") auto

declare split_loop.simps [simp del]

definition splitQuery :: "jstr \<Rightarrow> jstr list" where
  "splitQuery query =
     (case split_loop query 0 (-1) [] of
        (start, result) \<Rightarrow>
          if start \<noteq> -1 then result @ [drop (nat start) query] else result)"

section \<open>Correctness of the splitter\<close>

text \<open>The reference is \<open>words_of splitChars\<close>, the maximal runs of other characters in order.\<close>

lemma split_loop_words:
  assumes "i \<le> length q" "start = -1 \<or> (0 \<le> start \<and> nat start < i)"
  shows "(case split_loop q i start res of
            (st, r) \<Rightarrow> if st \<noteq> -1 then r @ [drop (nat st) q] else r) =
         (if start = -1 then res @ words_of splitChars (drop i q)
          else res @ (drop (nat start) (take i q) @ takeWhile (\<lambda>c. \<not> splitChars c) (drop i q)) #
                 words_of splitChars (dropWhile (\<lambda>c. \<not> splitChars c) (drop i q)))"
  using assms
proof (induction q i start res rule: split_loop.induct)
  case (1 q i start res)
  show ?case
  proof (cases "i < length q")
    case False
    with "1.prems" show ?thesis by (subst split_loop.simps) auto
  next
    case True
    note d = Cons_nth_drop_Suc [OF True, symmetric]
    note t = take_Suc_conv_app_nth [OF True]
    show ?thesis
    proof (cases "splitChars (q ! i)")
      case sc: True
      show ?thesis
      proof (cases "start = -1")
        case st: True
        with True sc "1.IH"(2) "1.prems" show ?thesis
          by (simp add: split_loop.simps [of q i "-1" res] d)
      next
        case st: False
        with True sc "1.IH"(1) "1.prems" show ?thesis
          by (simp add: split_loop.simps [of q i start res] d)
      qed
    next
      case sc: False
      show ?thesis
      proof (cases "start = -1")
        case st: True
        with True sc "1.IH"(3) "1.prems" show ?thesis
          by (simp add: split_loop.simps [of q i "-1" res] d t words_of_word)
      next
        case st: False
        with True sc "1.IH"(4) "1.prems" show ?thesis
          by (simp add: split_loop.simps [of q i start res] d t)
      qed
    qed
  qed
qed

lemma splitQuery_words: "splitQuery q = words_of splitChars q"
  using split_loop_words [of 0 q "-1" "[]"] by (simp add: splitQuery_def)

section \<open>The contract of a query splitter\<close>

locale query_splitter =
  fixes split :: "jstr \<Rightarrow> jstr list" and sep :: "int \<Rightarrow> bool"
  assumes split_no_sep: "w \<in> set (split q) \<Longrightarrow> c \<in> set w \<Longrightarrow> \<not> sep c"
    and split_covers: "concat (split q) = filter (\<lambda>c. \<not> sep c) q"
begin

lemma split_chars: "(\<exists>w \<in> set (split q). c \<in> set w) \<longleftrightarrow> c \<in> set q \<and> \<not> sep c"
proof -
  have "(\<exists>w \<in> set (split q). c \<in> set w) \<longleftrightarrow> c \<in> set (concat (split q))" by auto
  then show ?thesis by (simp add: split_covers conj_commute)
qed

lemma split_all_sep: "(\<forall>c \<in> set q. sep c) \<Longrightarrow> w \<in> set (split q) \<Longrightarrow> w = []"
  using split_covers [of q] by (auto simp: filter_empty_conv)

lemma no_exclusion_marker:
  "sep c \<Longrightarrow> w \<in> set (split q) \<Longrightarrow> take 1 w \<noteq> [c]"
  using split_no_sep by (cases w) auto

lemma total_length: "sum_list (map length (split q)) \<le> length q"
  using split_covers [of q] by (metis length_concat length_filter_le)

end

interpretation lang: query_splitter splitQuery splitChars
  by unfold_locales (auto simp: splitQuery_words concat_words_of dest: words_of_no_sep)

section \<open>Properties\<close>

text \<open>
  C29. The index-based loop of \<open>splitQuery\<close> computes the maximal runs of characters that are not
  in \<open>splitChars\<close>, in the order they occur in the query.
\<close>

theorem splitQuery_maximal_runs: "splitQuery q = words_of splitChars q"
  by (rule splitQuery_words)

text \<open>
  The words of a query are non-empty, contain no separator and together are exactly the
  query without its separators.
\<close>

theorem splitQuery_partition:
  "concat (splitQuery q) = filter (\<lambda>c. \<not> splitChars c) q \<and>
   [] \<notin> set (splitQuery q) \<and> \<not> (\<exists>w c. w \<in> set (splitQuery q) \<and> c \<in> set w \<and> splitChars c)"
  using lang.split_covers [of q] lang.split_no_sep [of _ q] words_of_not_empty [of _ splitChars q]
  by (auto simp: splitQuery_words)

end
