(* ===== verification/Searchtools.thy ===== *)
theory Searchtools
  imports Search_Terms Language_Data
begin

text \<open>
  \<open>searchtools.js\<close>, the \<open>Search\<close> object: splitting and stemming of the query, sorting and display
  of the results, the summaries, and the state machine of the index, the deferred query and the
  progress pulse. What the browser provides is a parameter: \<open>toLowerCase\<close>, the answer of an
  \<open>ajax\<close> request for a page, and the text of the \<open>[role=main]\<close> element of an HTML document.
\<close>

section \<open>The fallback query splitter\<close>

text \<open>The \<open>splitQuery\<close> that is defined when \<open>language_data.js\<close> has none.\<close>

definition splitQuery_default :: "jstr \<Rightarrow> jstr list" where
  "splitQuery_default query = split_ws query"

interpretation blank: query_splitter splitQuery_default is_ws
  by unfold_locales (auto simp: splitQuery_default_def concat_split_ws dest: split_ws_no_space)

section \<open>The words of a query\<close>

record qterms =
  objectterms :: "jstr list"
  searchterms :: "jstr list"
  excluded :: "jstr list"
  hlterms :: "jstr list"

definition no_terms :: qterms where
  "no_terms = \<lparr>objectterms = [], searchterms = [], excluded = [], hlterms = []\<rparr>"

definition push_new :: "jstr \<Rightarrow> jstr list \<Rightarrow> jstr list" where
  "push_new w xs = (if \<not> contains (VArr 0 (map VStr xs)) (VStr w) NoIdx then xs @ [w] else xs)"

definition query_word :: "(jstr \<Rightarrow> jstr) \<Rightarrow> qterms \<Rightarrow> jstr \<Rightarrow> qterms" where
  "query_word lower q w =
     (let lw = lower w;
          q1 = (if w \<noteq> [] then q\<lparr>objectterms := objectterms q @ [lw]\<rparr> else q)
      in if indexOf_us (VArr 0 (map VStr stopwords)) (VStr lw) NoIdx \<noteq> -1 \<or> w = [] then q1
         else (let wd = stemWord lw
               in if wd \<noteq> [] \<and> hd wd = 45
                  then q1\<lparr>excluded := push_new (tl wd) (excluded q1)\<rparr>
                  else q1\<lparr>hlterms := hlterms q1 @ [lw],
                          searchterms := push_new wd (searchterms q1)\<rparr>))"

definition query_terms :: "(jstr \<Rightarrow> jstr) \<Rightarrow> jstr list \<Rightarrow> qterms" where
  "query_terms lower tmp = foldl (query_word lower) no_terms tmp"

section \<open>Sorting the results\<close>

definition result_cmp :: "(jstr \<Rightarrow> jstr) \<Rightarrow> result \<Rightarrow> result \<Rightarrow> int" where
  "result_cmp lower a b =
     (if r_score b < r_score a then 1
      else if r_score a < r_score b then -1
      else (let left = lower (label_text (r_title a)); right = lower (label_text (r_title b))
            in if str_lt right left then -1 else if str_lt left right then 1 else 0))"

text \<open>
  Results with equal scores are adjacent in the sorted order, so a sort has to compare their
  titles; a missing title then raises a \<open>TypeError\<close>. Without ties no title is read.
\<close>

definition untitled_tie :: "result list \<Rightarrow> bool" where
  "untitled_tie rs =
     list_ex (\<lambda>i. r_title (rs ! i) = None \<and>
        list_ex (\<lambda>j. j \<noteq> i \<and> r_score (rs ! j) = r_score (rs ! i)) [0..<length rs]) [0..<length rs]"

definition sort_results :: "(jstr \<Rightarrow> jstr) \<Rightarrow> result list \<Rightarrow> js_error + result list" where
  "sort_results lower rs =
     (if untitled_tie rs then Inl TypeError else Inr (js_sort (result_cmp lower) rs))"

section \<open>Summaries\<close>

definition summary_start :: "(jstr \<Rightarrow> jstr) \<Rightarrow> jstr \<Rightarrow> jstr list \<Rightarrow> int" where
  "summary_start lower txt keywords =
     (let textLower = lower txt
      in max (foldl (\<lambda>start k. let i = indexOf textLower (lower k) in if -1 < i then i else start)
                0 keywords - 120) 0)"

definition excerpt :: "jstr \<Rightarrow> int \<Rightarrow> jstr" where
  "excerpt txt start =
     (if 0 < start then lit ''...'' else []) @ trim (substr txt start 240) @
     (if start + 240 - int (length txt) \<noteq> 0 then lit ''...'' else [])"

text \<open>\<open>main_text\<close> is the text of the first \<open>[role=main]\<close> element, without header links.\<close>

definition htmlToText :: "(jstr \<Rightarrow> jstr option) \<Rightarrow> jstr \<Rightarrow> jstr" where
  "htmlToText main_text html = (case main_text html of None \<Rightarrow> [] | Some t \<Rightarrow> t)"

definition makeSearchSummary ::
  "(jstr \<Rightarrow> jstr) \<Rightarrow> (nat \<Rightarrow> nat \<Rightarrow> 'g) \<Rightarrow> (jstr \<Rightarrow> jstr option) \<Rightarrow> jstr \<Rightarrow> jstr list \<Rightarrow> jstr list \<Rightarrow>
   'g dom list option" where
  "makeSearchSummary lower bbox main_text html keywords hlwords =
     (let txt = htmlToText main_text html
      in if txt = [] then None
         else (let p = Elem 1 (lit ''p'') [lit ''context'']
                         [Text (excerpt txt (summary_start lower txt keywords))]
               in Some (foldl (\<lambda>rv h. highlightText lower bbox (fresh_id rv) False h (lit ''highlighted'') rv)
                          [p] hlwords)))"

section \<open>Displaying the results\<close>

record 'g item =
  li_href :: jstr
  li_html :: jstr
  li_descr :: "jstr option"
  li_summary :: "'g dom list option"

record 'g search_env =
  en_opts :: doc_options
  en_tr :: i18n
  en_lower :: "jstr \<Rightarrow> jstr"
  en_fetch :: "jstr \<Rightarrow> jstr option"       \<comment> \<open>responseText of a request\<close>
  en_main_text :: "jstr \<Rightarrow> jstr option"
  en_bbox :: "nat \<Rightarrow> nat \<Rightarrow> 'g"

record 'g display =
  d_results :: "result list"
  d_count :: nat
  d_output :: "'g item list"
  d_title :: jstr
  d_status :: "jstr option"

definition item_urls :: "doc_options \<Rightarrow> jstr \<Rightarrow> jstr \<times> jstr" where
  "item_urls opts doc =
     (if BUILDER opts = lit ''dirhtml'' then
        (let d0 = doc @ lit ''/'';
             dirname = (if re_test (RSeq (RLit (lit ''/index/'')) REol) d0
                        then substring d0 0 (int (length d0) - 6)
                        else if d0 = lit ''index/'' then [] else d0)
         in (URL_ROOT opts @ dirname, URL_ROOT opts @ dirname))
      else (URL_ROOT opts @ doc @ FILE_SUFFIX opts, doc @ LINK_SUFFIX opts))"

definition make_item :: "'g search_env \<Rightarrow> qterms \<Rightarrow> jstr \<Rightarrow> result \<Rightarrow> 'g item" where
  "make_item env q highlightstring r =
     (let (requestUrl, linkUrl) = item_urls (en_opts env) (label_text (r_doc r));
          li = \<lparr>li_href = linkUrl @ highlightstring @ r_anchor r, li_html = label_text (r_title r),
                li_descr = None, li_summary = None\<rparr>
      in case r_descr r of
           Some (d # ds) \<Rightarrow> li\<lparr>li_descr := Some (lit '' ('' @ (d # ds) @ lit '')'')\<rparr>
         | _ \<Rightarrow>
             if SHOW_SEARCH_SUMMARY (en_opts env)
             then li\<lparr>li_summary := (case en_fetch env requestUrl of
                       Some (c # cs) \<Rightarrow> makeSearchSummary (en_lower env) (en_bbox env) (en_main_text env)
                                          (c # cs) (searchterms q) (hlterms q)
                     | _ \<Rightarrow> None)\<rparr>
             else li)"

definition replace_first :: "jstr \<Rightarrow> jstr \<Rightarrow> jstr \<Rightarrow> jstr" where
  "replace_first s p r =
     (case str_find p s of None \<Rightarrow> s | Some i \<Rightarrow> take i s @ r @ drop (i + length p) s)"

definition tr :: "'g search_env \<Rightarrow> string \<Rightarrow> jstr" where
  "tr env s = label_text (gettext (en_tr env) (lit s))"

text \<open>One call of \<open>displayNextItem\<close>, with the callbacks of its request and of its timer.\<close>

definition displayNextItem :: "'g search_env \<Rightarrow> qterms \<Rightarrow> jstr \<Rightarrow> 'g display \<Rightarrow> 'g display" where
  "displayNextItem env q highlightstring d =
     (if d_results d \<noteq> []
      then d\<lparr>d_results := butlast (d_results d),
             d_output := d_output d @ [make_item env q highlightstring (last (d_results d))]\<rparr>
      else d\<lparr>d_title := tr env ''Search Results'',
             d_status := Some
               (if d_count d = 0
                then tr env (''Your search did not match any documents. Please make sure that all words '' @
                       ''are spelled correctly and that you'' @ [CHR 0x27] @ ''ve selected enough categories.'')
                else replace_first (tr env ''Search finished, found %s page(s) matching the search query.'')
                       (lit ''%s'') (dec (d_count d)))\<rparr>)"

section \<open>Executing a query\<close>

fun object_results ::
  "'g search_env \<Rightarrow> search_index \<Rightarrow> jstr list \<Rightarrow> jstr list \<Rightarrow> js_error + result list" where
  "object_results env ix before [] = Inr []"
| "object_results env ix before (t # ts) =
     (case performObjectSearch (en_lower env) (en_tr env) ix t (before @ ts) of
        Inl e \<Rightarrow> Inl e
      | Inr rs \<Rightarrow> map_sum id (\<lambda>rs'. rs @ rs') (object_results env ix (before @ [t]) ts))"

definition all_results :: "'g search_env \<Rightarrow> search_index \<Rightarrow> qterms \<Rightarrow> js_error + result list" where
  "all_results env ix q =
     (case object_results env ix [] (objectterms q) of
        Inl e \<Rightarrow> Inl e
      | Inr rs \<Rightarrow> map_sum id (\<lambda>rs'. rs @ rs') (performTermsSearch ix (searchterms q) (excluded q)))"

text \<open>\<open>query\<close> up to the first call of \<open>displayNextItem\<close>: the words, the text for the links and the
  sorted results.\<close>

definition query_start ::
  "'g search_env \<Rightarrow> search_index \<Rightarrow> jstr \<Rightarrow> js_error + qterms \<times> jstr \<times> 'g display" where
  "query_start env ix query =
     (let q = query_terms (en_lower env) (splitQuery query)
      in case urlencode (join (lit '' '') (hlterms q)) of
           Inl e \<Rightarrow> Inl e
         | Inr encoded \<Rightarrow>
             (case all_results env ix q of
                Inl e \<Rightarrow> Inl e
              | Inr rs \<Rightarrow>
                  map_sum id (\<lambda>sorted. (q, lit ''?highlight='' @ encoded,
                      \<lparr>d_results = sorted, d_count = length sorted, d_output = [],
                       d_title = tr env ''Searching'', d_status = None\<rparr>))
                    (sort_results (en_lower env) rs)))"

text \<open>\<open>splitQuery(undefined)\<close> reads a property of \<open>undefined\<close>.\<close>

definition query_call ::
  "'g search_env \<Rightarrow> search_index \<Rightarrow> jstr option \<Rightarrow> js_error + qterms \<times> jstr \<times> 'g display" where
  "query_call env ix query = (case query of None \<Rightarrow> Inl TypeError | Some q \<Rightarrow> query_start env ix q)"

section \<open>The lists of words\<close>

lemma push_new_eq: "arr_ok xs \<Longrightarrow> push_new w xs = (if w \<in> set xs then xs else xs @ [w])"
  by (simp add: push_new_def contains_strings)

lemma stop_word: "indexOf_us (VArr 0 (map VStr stopwords)) (VStr w) NoIdx \<noteq> -1 \<longleftrightarrow> w \<in> set stopwords"
  by (rule indexOf_us_strings) (simp add: arr_ok_def stopwords_def)

definition content_word :: "(jstr \<Rightarrow> jstr) \<Rightarrow> jstr \<Rightarrow> bool" where
  "content_word lower w = (w \<noteq> [] \<and> lower w \<notin> set stopwords)"

definition negated :: "(jstr \<Rightarrow> jstr) \<Rightarrow> jstr \<Rightarrow> bool" where
  "negated lower w = (stemWord (lower w) \<noteq> [] \<and> hd (stemWord (lower w)) = 45)"

lemma query_word_eq:
  "query_word lower q w =
     (let q1 = (if w \<noteq> [] then q\<lparr>objectterms := objectterms q @ [lower w]\<rparr> else q)
      in if \<not> content_word lower w then q1
         else if negated lower w
         then q1\<lparr>excluded := push_new (tl (stemWord (lower w))) (excluded q1)\<rparr>
         else q1\<lparr>hlterms := hlterms q1 @ [lower w],
                 searchterms := push_new (stemWord (lower w)) (searchterms q1)\<rparr>)"
  by (simp add: query_word_def Let_def content_word_def negated_def stop_word del: neq_Nil_conv)

lemma query_terms_snoc: "query_terms lower (tmp @ [w]) = query_word lower (query_terms lower tmp) w"
  by (simp add: query_terms_def)

lemma query_terms_lengths:
  "length (searchterms (query_terms lower tmp)) \<le> length tmp \<and>
   length (excluded (query_terms lower tmp)) \<le> length tmp"
proof (induction tmp rule: rev_induct)
  case (snoc w tmp)
  have "length (push_new v xs) \<le> Suc (length xs)" for v xs by (simp add: push_new_def)
  with snoc show ?case
    by (auto simp: query_terms_snoc query_word_eq Let_def intro: le_SucI order_trans)
qed (simp add: query_terms_def no_terms_def)

lemma query_terms_spec:
  "arr_ok tmp \<Longrightarrow>
     objectterms (query_terms lower tmp) = map lower (filter (\<lambda>w. w \<noteq> []) tmp) \<and>
     hlterms (query_terms lower tmp) =
       map lower (filter (\<lambda>w. content_word lower w \<and> \<not> negated lower w) tmp) \<and>
     distinct (searchterms (query_terms lower tmp)) \<and>
     set (searchterms (query_terms lower tmp)) =
       (\<lambda>w. stemWord (lower w)) ` {w \<in> set tmp. content_word lower w \<and> \<not> negated lower w} \<and>
     set (excluded (query_terms lower tmp)) =
       (\<lambda>w. tl (stemWord (lower w))) ` {w \<in> set tmp. content_word lower w \<and> negated lower w}"
proof (induction tmp rule: rev_induct)
  case (snoc w tmp)
  then have tmp: "arr_ok tmp" by (simp add: arr_ok_def)
  with query_terms_lengths [of lower tmp] have
    "arr_ok (searchterms (query_terms lower tmp))" "arr_ok (excluded (query_terms lower tmp))"
    by (simp_all add: arr_ok_def)
  with snoc.IH [OF tmp] show ?case
    by (auto simp: query_terms_snoc query_word_eq Let_def push_new_eq content_word_def)
qed (simp add: query_terms_def no_terms_def)

section \<open>Order and display of the results\<close>

interpretation by_score: comparator "result_cmp lower" "\<lambda>r. True" for lower
proof
  fix x y z :: result
  show "0 \<le> result_cmp lower x y \<longleftrightarrow> result_cmp lower y x \<le> 0"
    by (auto simp: result_cmp_def Let_def dest: str_lt_asym)
  show "result_cmp lower x y \<le> 0 \<Longrightarrow> result_cmp lower y z \<le> 0 \<Longrightarrow> result_cmp lower x z \<le> 0"
    unfolding result_cmp_def Let_def
    by (auto split: if_splits dest: str_lt_asym str_lt_trans) (metis str_lt_total str_lt_trans str_lt_asym)+
qed

lemma sort_results_Inr:
  "sort_results lower rs = Inr srt \<Longrightarrow>
     mset srt = mset rs \<and> sorted_wrt (\<lambda>x y. result_cmp lower x y \<le> 0) srt"
  using by_score.mset_js_sort [of lower rs] by_score.sorted_js_sort [of rs lower]
  by (auto simp: sort_results_def list_all_iff split: if_splits)

lemma result_cmp_score: "result_cmp lower x y \<le> 0 \<Longrightarrow> r_score x \<le> r_score y"
  by (auto simp: result_cmp_def split: if_splits)

lemma display_all:
  "(displayNextItem env q hl ^^ length (d_results d)) d =
     d\<lparr>d_results := [], d_output := d_output d @ map (make_item env q hl) (rev (d_results d))\<rparr>"
proof (induction "d_results d" arbitrary: d rule: rev_induct)
  case Nil
  then show ?case by simp
next
  case (snoc r rs)
  let ?d = "displayNextItem env q hl d"
  have "?d = d\<lparr>d_results := rs, d_output := d_output d @ [make_item env q hl r]\<rparr>"
    using snoc.hyps(2) [symmetric] by (simp add: displayNextItem_def)
  moreover from this have "(displayNextItem env q hl ^^ length rs) ?d =
      ?d\<lparr>d_results := [], d_output := d_output ?d @ map (make_item env q hl) (rev rs)\<rparr>"
    using snoc.hyps(1) [of ?d] by simp
  ultimately show ?case
    using snoc.hyps(2) [symmetric] by (simp add: funpow_swap1)
qed

section \<open>Index, deferred query and pulse\<close>

text \<open>
  The state of the \<open>Search\<close> object. \<open>s_pulses\<close> counts the pending \<open>setTimeout(pulse, 500)\<close> calls and
  \<open>s_ran\<close> logs the calls of \<open>query\<close>, with the index they ran on. A query is \<open>None\<close> when it is
  \<open>undefined\<close>.
\<close>

record search =
  s_index :: "search_index option"
  s_queued :: "jstr option option"
  s_pulse :: int
  s_pulses :: nat
  s_dots :: jstr
  s_ran :: "(search_index \<times> jstr option) list"

definition search_new :: search where
  "search_new = \<lparr>s_index = None, s_queued = None, s_pulse = -1, s_pulses = 0, s_dots = [], s_ran = []\<rparr>"

definition run_query :: "search_index \<Rightarrow> jstr option \<Rightarrow> search \<Rightarrow> search" where
  "run_query ix q s = s\<lparr>s_ran := s_ran s @ [(ix, q)]\<rparr>"

definition setIndex :: "search_index \<Rightarrow> search \<Rightarrow> search" where
  "setIndex ix s =
     (let s1 = s\<lparr>s_index := Some ix\<rparr>
      in case s_queued s1 of
           None \<Rightarrow> s1
         | Some q \<Rightarrow> run_query ix q (s1\<lparr>s_queued := None\<rparr>))"

definition hasIndex :: "search \<Rightarrow> bool" where
  "hasIndex s = (s_index s \<noteq> None)"

definition deferQuery :: "jstr option \<Rightarrow> search \<Rightarrow> search" where
  "deferQuery q s = s\<lparr>s_queued := Some q\<rparr>"

definition stopPulse :: "search \<Rightarrow> search" where
  "stopPulse s = s\<lparr>s_pulse := 0\<rparr>"

definition pulse :: "search \<Rightarrow> search" where
  "pulse s =
     (let st = (s_pulse s + 1) mod 4;
          s1 = s\<lparr>s_pulse := st, s_dots := replicate (nat st) 46\<rparr>
      in if -1 < st then s1\<lparr>s_pulses := Suc (s_pulses s1)\<rparr> else s1)"

definition startPulse :: "search \<Rightarrow> search" where
  "startPulse s = (if 0 \<le> s_pulse s then s else pulse s)"

definition performSearch :: "jstr option \<Rightarrow> search \<Rightarrow> search" where
  "performSearch q s =
     (let s1 = startPulse s
      in case s_index s1 of Some ix \<Rightarrow> run_query ix q s1 | None \<Rightarrow> deferQuery q s1)"

text \<open>\<open>Search.init\<close>: the search box and the first value of the page's parameter \<open>q\<close>.\<close>

definition search_init :: "jstr \<Rightarrow> bool \<Rightarrow> search \<Rightarrow> js_error + search" where
  "search_init location has_input s =
     (case getQueryParameters location None of
        Inl e \<Rightarrow> Inl e
      | Inr params \<Rightarrow>
          (case obj_get params (lit ''q'') of
             None \<Rightarrow> Inr s
           | Some vs \<Rightarrow>
               if \<not> has_input then Inl TypeError
               else Inr (performSearch (case vs of v # _ \<Rightarrow> v | [] \<Rightarrow> None) s)))"

text \<open>
  What can happen to the object: a search is requested, the index arrives, the pulse timer fires,
  the display of a query that was run finishes.
\<close>

inductive search_step :: "search \<Rightarrow> search \<Rightarrow> bool" where
  step_perform: "search_step s (performSearch q s)"
| step_index: "search_step s (setIndex ix s)"
| step_timer: "0 < s_pulses s \<Longrightarrow> search_step s (pulse (s\<lparr>s_pulses := s_pulses s - 1\<rparr>))"
| step_finish: "s_ran s \<noteq> [] \<Longrightarrow> search_step s (stopPulse s)"

inductive_cases search_stepE: "search_step s s'"

inductive reachable :: "search \<Rightarrow> bool" where
  reach_new: "reachable search_new"
| reach_step: "reachable s \<Longrightarrow> search_step s s' \<Longrightarrow> reachable s'"

lemmas search_defs =
  performSearch_def setIndex_def run_query_def deferQuery_def stopPulse_def startPulse_def pulse_def

text \<open>The invariant: a query waits only while there is no index; once a search was requested,
  exactly one pulse timer is pending.\<close>

definition search_inv :: "search \<Rightarrow> bool" where
  "search_inv s \<longleftrightarrow>
     (s_index s \<noteq> None \<longrightarrow> s_queued s = None) \<and>
     (if s_ran s = [] \<and> s_queued s = None then s_pulse s = -1 \<and> s_pulses s = 0
      else 0 \<le> s_pulse s \<and> s_pulse s < 4 \<and> s_pulses s = 1)"

lemma pulse_range: "0 \<le> (n + 1 :: int) mod 4 \<and> (n + 1) mod 4 < 4"
  by simp

lemma search_inv_step: "search_step s s' \<Longrightarrow> search_inv s \<Longrightarrow> search_inv s'"
  by (induction rule: search_step.induct)
    (auto simp: search_inv_def search_defs Let_def pulse_range split: option.splits if_splits)

lemma search_inv_reachable: "reachable s \<Longrightarrow> search_inv s"
  by (induction rule: reachable.induct)
    (simp add: search_inv_def search_new_def, rule search_inv_step)

lemma ran_step: "search_step s s' \<Longrightarrow> \<exists>more. s_ran s' = s_ran s @ more"
  by (induction rule: search_step.induct)
    (auto simp: search_defs Let_def split: option.splits)

lemma ran_steps: "search_step\<^sup>*\<^sup>* s s' \<Longrightarrow> \<exists>more. s_ran s' = s_ran s @ more"
  by (induction rule: rtranclp_induct) (auto dest: ran_step)

lemma reachable_steps: "search_step\<^sup>*\<^sup>* s s' \<Longrightarrow> reachable s \<Longrightarrow> reachable s'"
  by (induction rule: rtranclp_induct) (auto intro: reach_step)

lemma highlight_words_text:
  "concat (map text_content (foldl (\<lambda>rv h. highlightText lower bbox (fresh_id rv) False h c rv) ns hs)) =
     concat (map text_content ns)"
  by (induction hs arbitrary: ns) (simp_all add: highlightText_text)

lemma length_trim: "length (trim s) \<le> length s"
proof -
  have "length (dropWhile P xs) \<le> length xs" for P and xs :: jstr by (rule length_dropWhile_le)
  then show ?thesis unfolding trim_def by (metis length_rev order_trans)
qed

section \<open>Properties\<close>

text \<open>
  C36. The words of a query, for any splitter: the object terms are the lower-case non-empty words;
  the search terms are, without repetition, the stems of the words that are no stop words;
  excluded terms are the stems with a leading minus.
\<close>

theorem query_terms_words:
  assumes "arr_ok tmp"
  shows "objectterms (query_terms lower tmp) = map lower (filter (\<lambda>w. w \<noteq> []) tmp) \<and>
    distinct (searchterms (query_terms lower tmp)) \<and>
    set (searchterms (query_terms lower tmp)) =
      (\<lambda>w. stemWord (lower w)) ` {w \<in> set tmp. content_word lower w \<and> \<not> negated lower w} \<and>
    set (excluded (query_terms lower tmp)) =
      (\<lambda>w. tl (stemWord (lower w))) ` {w \<in> set tmp. content_word lower w \<and> negated lower w}"
  using query_terms_spec [OF assms] by blast

theorem query_terms_words_witness:
  "objectterms (query_terms id [lit ''the'', lit ''cats'', lit ''cat'']) =
     [lit ''the'', lit ''cats'', lit ''cat''] \<and>
   distinct (searchterms (query_terms id [lit ''the'', lit ''cats'', lit ''cat'']))"
  using query_terms_words [of "[lit ''the'', lit ''cats'', lit ''cat'']" id]
  by (simp add: arr_ok_def)

text \<open>
  With the splitter of \<open>language_data.js\<close> nothing is ever excluded: the minus sign is a
  separator, so no word of a query can start with it.
\<close>

theorem query_excludes_nothing:
  assumes "arr_ok (splitQuery query)"
    and "\<And>w. w \<noteq> [] \<Longrightarrow> lower w \<noteq> []"
    and "\<And>w. 45 \<notin> set w \<Longrightarrow> 45 \<notin> set (lower w)"
  shows "excluded (query_terms lower (splitQuery query)) = []"
proof -
  have "\<not> negated lower w" if "w \<in> set (splitQuery query)" "w \<noteq> []" for w
  proof -
    have "splitChars 45" by code_simp
    with that have "45 \<notin> set w" using lang.split_no_sep by blast
    with assms(2,3) that have "lower w \<noteq> []" "hd (lower w) \<noteq> 45" by (auto, metis hd_in_set)
    then show ?thesis using shrinks_stemWord [of "lower w"] by (auto simp: negated_def shrinks_def)
  qed
  then have "{w \<in> set (splitQuery query). content_word lower w \<and> negated lower w} = {}"
    by (auto simp: content_word_def)
  with query_terms_spec [OF assms(1), of lower] show ?thesis by simp
qed

theorem query_excludes_nothing_witness:
  "excluded (query_terms (map ascii_lower) (splitQuery (lit ''-Foo bar''))) = []"
proof (rule query_excludes_nothing)
  have "splitQuery (lit ''-Foo bar'') = [lit ''Foo'', lit ''bar'']" by code_simp
  then show "arr_ok (splitQuery (lit ''-Foo bar''))" by (simp add: arr_ok_def)
qed (auto simp: ascii_lower_def split: if_splits)


definition small_env :: "unit search_env" where
  "small_env = \<lparr>en_opts = DOCUMENTATION_OPTIONS [], en_tr = i18n_init, en_lower = id,
     en_fetch = (\<lambda>_. None), en_main_text = (\<lambda>_. None), en_bbox = (\<lambda>_ _. ())\<rparr>"




text \<open>
  The pulse of a search never stops: once a query was run, in every later state (also after
  \<open>stopPulse\<close>) the status is between 0 and 3 and exactly one pulse timer is pending.
\<close>

theorem pulse_never_stops:
  assumes "reachable s" "s_ran s \<noteq> []" "search_step\<^sup>*\<^sup>* s s'"
  shows "0 \<le> s_pulse s' \<and> s_pulse s' < 4 \<and> s_pulses s' = 1"
proof -
  have "s_ran s' \<noteq> []" using ran_steps [OF assms(3)] assms(2) by auto
  then show ?thesis
    using search_inv_reachable [OF reachable_steps [OF assms(3,1)]] by (simp add: search_inv_def)
qed

theorem pulse_never_stops_witness:
  "s_pulses (stopPulse (setIndex small_index (performSearch (Some (lit ''beta'')) search_new))) = 1"
proof -
  let ?s = "setIndex small_index (performSearch (Some (lit ''beta'')) search_new)"
  have r: "reachable ?s" by (intro reach_step [OF _ step_index] reach_step [OF reach_new step_perform])
  have ran: "s_ran ?s \<noteq> []" by (simp add: search_defs search_new_def Let_def)
  from pulse_never_stops [OF r ran r_into_rtranclp [of search_step, OF step_finish [OF ran]]]
  show ?thesis by simp
qed

text \<open>
  Summaries: the text of a summary is the excerpt, which has at most 246 characters; for a page
  whose text is shorter than 240 characters it still ends in dots.
\<close>

theorem summary_text:
  "case makeSearchSummary lower bbox main_text html keywords hlwords of
     None \<Rightarrow> htmlToText main_text html = []
   | Some rv \<Rightarrow>
       concat (map text_content rv) =
         excerpt (htmlToText main_text html) (summary_start lower (htmlToText main_text html) keywords) \<and>
       length (concat (map text_content rv)) \<le> 246"
proof -
  have "length (excerpt t st) \<le> 246" for t st
    using length_trim [of "substr t st 240"] length_substr [of t st 240]
    by (auto simp: excerpt_def lit_def)
  then show ?thesis
    by (auto simp: makeSearchSummary_def Let_def highlight_words_text simp del: length_concat)
qed

lemma short_page_dots: "length txt < 240 \<Longrightarrow> excerpt txt 0 = trim txt @ lit ''...''"
  by (simp add: excerpt_def substr_def substr_from_def)

end
