(* ===== verification/Underscore_Arrays.thy ===== *)
theory Underscore_Arrays
  imports Underscore_Core
begin

text \<open>
  The array and object functions of \<open>underscore-1.13.1.js\<close> that are not in \<open>Underscore_Core\<close>.
  Array arguments are given by their elements; an optional count is \<open>None\<close> when it is missing (or
  when the guard argument is set). \<open>Math.random\<close> is a parameter: \<open>rnd k n\<close> is the value of
  \<open>Math.floor(Math.random() * n)\<close> at the \<open>k\<close>-th call.
\<close>

section \<open>Copies and counts\<close>

definition clone :: "nat \<Rightarrow> jsval \<Rightarrow> jsval" where
  "clone fresh v =
     (case v of
        VArr _ xs \<Rightarrow> VArr fresh xs
      | VObj _ ps \<Rightarrow> VObj fresh (case extend (Some []) [v] of Some qs \<Rightarrow> qs | None \<Rightarrow> [])
      | VFun _ _ _ \<Rightarrow> VObj fresh []
      | _ \<Rightarrow> v)"

definition times :: "int \<Rightarrow> (int \<Rightarrow> 'a) \<Rightarrow> 'a list" where
  "times n f = map (\<lambda>i. f (int i)) [0..<nat (max 0 n)]"

text \<open>\<open>Math.floor(Math.random() * n)\<close> as a function \<open>floor_rnd\<close> of \<open>n\<close>.\<close>

definition random :: "(int \<Rightarrow> int) \<Rightarrow> int \<Rightarrow> int option \<Rightarrow> int" where
  "random floor_rnd a b =
     (case b of None \<Rightarrow> 0 + floor_rnd (a - 0 + 1) | Some c \<Rightarrow> a + floor_rnd (c - a + 1))"

definition initial :: "'a list \<Rightarrow> int option \<Rightarrow> 'a list" where
  "initial xs n =
     slice xs 0 (max 0 (int (length xs) - (case n of None \<Rightarrow> 1 | Some k \<Rightarrow> k)))"

definition rest :: "'a list \<Rightarrow> int option \<Rightarrow> 'a list" where
  "rest xs n = slice_from xs (case n of None \<Rightarrow> 1 | Some k \<Rightarrow> k)"

definition first :: "jsval list \<Rightarrow> int option \<Rightarrow> jsval" where
  "first xs n =
     (if length xs < 1 then (case n of None \<Rightarrow> VUndef | Some _ \<Rightarrow> VArr 0 [])
      else (case n of
              None \<Rightarrow> xs ! 0
            | Some k \<Rightarrow> VArr 0 (initial xs (Some (int (length xs) - k)))))"

definition last_us :: "jsval list \<Rightarrow> int option \<Rightarrow> jsval" where
  "last_us xs n =
     (if length xs < 1 then (case n of None \<Rightarrow> VUndef | Some _ \<Rightarrow> VArr 0 [])
      else (case n of
              None \<Rightarrow> xs ! (length xs - 1)
            | Some k \<Rightarrow> VArr 0 (rest xs (Some (max 0 (int (length xs) - k))))))"

definition compact :: "jsval list \<Rightarrow> jsval list" where
  "compact xs = filter_us (VArr 0 xs) (IFun (\<lambda>x _. VBool (truthy x)))"

function chunk_loop :: "'a list \<Rightarrow> int \<Rightarrow> int \<Rightarrow> 'a list list" where
  "chunk_loop xs cnt i =
     (if 0 < cnt \<and> 0 \<le> i \<and> i < int (length xs)
      then slice xs i (i + cnt) # chunk_loop xs cnt (i + cnt) else [])"
  by pat_completeness auto
termination
  by (relation "measure (\<lambda>(xs, cnt, i). nat (int (length xs) - i))") auto

declare chunk_loop.simps [simp del]

definition chunk :: "'a list \<Rightarrow> int option \<Rightarrow> 'a list list" where
  "chunk xs cnt =
     (case cnt of None \<Rightarrow> [] | Some c \<Rightarrow> if c < 1 then [] else chunk_loop xs c 0)"

text \<open>\<open>Math.ceil(a / b)\<close> of integers.\<close>

definition ceil_div :: "int \<Rightarrow> int \<Rightarrow> int" where
  "ceil_div a b = - ((- a) div b)"

definition range_us :: "int \<Rightarrow> int option \<Rightarrow> int option \<Rightarrow> int list" where
  "range_us start stop step =
     (let (a, b) = (case stop of None \<Rightarrow> (0, start) | Some b \<Rightarrow> (start, b));
          st = (case step of Some s \<Rightarrow> if s \<noteq> 0 then s else if b < a then -1 else 1
                           | None \<Rightarrow> if b < a then -1 else 1)
      in map (\<lambda>i. a + int i * st) [0..<nat (max (ceil_div (b - a) st) 0)])"

section \<open>Flattening\<close>

datatype depth = Deep | Depth int

fun flatten_loop :: "depth \<Rightarrow> bool \<Rightarrow> jsval list \<Rightarrow> jsval list \<Rightarrow> jsval list" where
  "flatten_loop d strict [] output = output"
| "flatten_loop d strict (VArr i ys # vs) output =
     flatten_loop d strict vs
       (case d of
          Deep \<Rightarrow> flatten_loop Deep strict ys output
        | Depth n \<Rightarrow> if 1 < n then flatten_loop (Depth (n - 1)) strict ys output else output @ ys)"
| "flatten_loop d strict (v # vs) output =
     flatten_loop d strict vs (if strict then output else output @ [v])"

definition flatten1 :: "jsval list \<Rightarrow> depth \<Rightarrow> bool \<Rightarrow> jsval list" where
  "flatten1 input d strict =
     (case d of Depth n \<Rightarrow> if n \<le> 0 then input else flatten_loop d strict input []
              | Deep \<Rightarrow> flatten_loop d strict input [])"

definition flatten :: "jsval list \<Rightarrow> depth \<Rightarrow> jsval list" where
  "flatten xs d = flatten1 xs d False"

section \<open>Sets as arrays\<close>

definition difference :: "jsval list \<Rightarrow> jsval list \<Rightarrow> jsval list" where
  "difference xs others =
     (let r = flatten1 others (Depth 1) True
      in filter_us (VArr 0 xs) (IFun (\<lambda>v _. VBool (\<not> contains (VArr 0 r) v NoIdx))))"

definition without :: "jsval list \<Rightarrow> jsval list \<Rightarrow> jsval list" where
  "without xs otherArrays = difference xs [VArr 0 otherArrays]"

text \<open>
  \<open>uniq\<close>: with \<open>isSorted\<close> and no iteratee only neighbours are compared; \<open>seen\<close> holds the
  previous value (\<open>None\<close> before the first).
\<close>

fun uniq_sorted :: "jsval option \<Rightarrow> jsval list \<Rightarrow> jsval list \<Rightarrow> jsval list" where
  "uniq_sorted seen [] result = result"
| "uniq_sorted seen (v # vs) result =
     uniq_sorted (Some v) vs
       (case seen of
          None \<Rightarrow> result @ [v]
        | Some s \<Rightarrow> if \<not> strict_eq s v then result @ [v] else result)"

fun uniq_by :: "(jsval \<Rightarrow> jsval \<Rightarrow> jsval) \<Rightarrow> nat \<Rightarrow> jsval list \<Rightarrow> jsval list \<Rightarrow> jsval list \<Rightarrow> jsval list" where
  "uniq_by f i [] seen result = result"
| "uniq_by f i (v # vs) seen result =
     (let computed = f v (VInt (int i))
      in if \<not> contains (VArr 0 seen) computed NoIdx
         then uniq_by f (Suc i) vs (seen @ [computed]) (result @ [v])
         else uniq_by f (Suc i) vs seen result)"

fun uniq_loop :: "jsval list \<Rightarrow> jsval list \<Rightarrow> jsval list" where
  "uniq_loop [] result = result"
| "uniq_loop (v # vs) result =
     uniq_loop vs (if \<not> contains (VArr 0 result) v NoIdx then result @ [v] else result)"

definition uniq :: "jsval list \<Rightarrow> bool \<Rightarrow> iteratee option \<Rightarrow> jsval list" where
  "uniq xs isSorted it =
     (case it of
        Some f \<Rightarrow> uniq_by (cb f) 0 xs [] []
      | None \<Rightarrow> if isSorted then uniq_sorted None xs [] else uniq_loop xs [])"

definition union :: "jsval list \<Rightarrow> jsval list" where
  "union arrays = uniq (flatten1 arrays (Depth 1) True) False None"

fun in_all :: "jsval list \<Rightarrow> jsval \<Rightarrow> bool" where
  "in_all [] item = True"
| "in_all (a # as) item = (if \<not> contains a item NoIdx then False else in_all as item)"

fun intersection_loop :: "jsval list \<Rightarrow> jsval list \<Rightarrow> jsval list \<Rightarrow> jsval list" where
  "intersection_loop others [] result = result"
| "intersection_loop others (item # items) result =
     (if contains (VArr 0 result) item NoIdx then intersection_loop others items result
      else if in_all others item then intersection_loop others items (result @ [item])
      else intersection_loop others items result)"

definition intersection :: "jsval list \<Rightarrow> jsval list \<Rightarrow> jsval list" where
  "intersection xs others = intersection_loop others xs []"

section \<open>Rows, columns and objects\<close>

definition unzip :: "jsval list \<Rightarrow> jsval list list" where
  "unzip rows =
     (let n = loop_len (max_by (VArr 0 rows) (IFun (\<lambda>x _. getLength x)))
      in map (\<lambda>i. pluck (VArr 0 rows) (VInt (int i))) [0..<n])"

definition zip_us :: "jsval list \<Rightarrow> jsval list list" where
  "zip_us rows = unzip rows"

definition object_pairs :: "(jstr \<times> jsval) list \<Rightarrow> (jstr \<times> jsval) list" where
  "object_pairs list = foldl (\<lambda>res p. obj_put (fst p) (snd p) res) [] list"

definition object_lists :: "jsval list \<Rightarrow> jsval list \<Rightarrow> (jstr \<times> jsval) list" where
  "object_lists list vals =
     foldl (\<lambda>res i. obj_put (to_str (list ! i)) (nth_or_undef vals i) res) [] [0..<length list]"

text \<open>The argument after the object: a predicate, or the (nested arrays of) keys.\<close>

datatype pick_arg = PickFun "jsval \<Rightarrow> jstr \<Rightarrow> bool" | PickKeys "jsval list"

definition pick_loop ::
  "jsval \<Rightarrow> (jsval \<Rightarrow> jstr \<Rightarrow> bool) \<Rightarrow> jstr list \<Rightarrow> (jstr \<times> jsval) list" where
  "pick_loop v f ks =
     foldl (\<lambda>res k. if f (get_prop v k) k then obj_put k (get_prop v k) res else res) [] ks"

definition pick :: "jsval \<Rightarrow> pick_arg \<Rightarrow> (jstr \<times> jsval) list" where
  "pick v a =
     (if nullish v then []
      else (case a of
              PickFun f \<Rightarrow> pick_loop v f (allKeys v)
            | PickKeys ks \<Rightarrow> pick_loop v (\<lambda>_ k. has_own v k) (map to_str (flatten1 ks Deep False))))"

definition omit :: "jsval \<Rightarrow> pick_arg \<Rightarrow> (jstr \<times> jsval) list" where
  "omit v a =
     (case a of
        PickFun f \<Rightarrow> pick v (PickFun (\<lambda>x k. \<not> f x k))
      | PickKeys ks \<Rightarrow>
          (let names = map (\<lambda>k. VStr (to_str k)) (flatten1 ks Deep False)
           in pick v (PickFun (\<lambda>_ k. \<not> contains (VArr 0 names) (VStr k) NoIdx))))"

text \<open>\<open>toArray\<close> of a string: its symbols, surrogate pairs kept together.\<close>

fun symbols :: "jstr \<Rightarrow> jstr list" where
  "symbols [] = []"
| "symbols [c] = [[c]]"
| "symbols (c # d # cs) =
     (if 55296 \<le> c \<and> c \<le> 56319 \<and> 56320 \<le> d \<and> d \<le> 57343 then [c, d] # symbols cs
      else [c] # symbols (d # cs))"

definition toArray :: "jsval \<Rightarrow> jsval list" where
  "toArray v =
     (if \<not> truthy v then []
      else (case v of
              VArr _ xs \<Rightarrow> xs
            | VStr s \<Rightarrow> map VStr (symbols s)
            | _ \<Rightarrow> if isArrayLike v then map_us v (IFun (\<lambda>x _. x)) else values_us v))"

section \<open>Random samples\<close>

definition swap :: "nat \<Rightarrow> nat \<Rightarrow> 'a list \<Rightarrow> 'a list" where
  "swap i j xs = xs[i := xs ! j, j := xs ! i]"

fun sample_loop :: "(nat \<Rightarrow> int \<Rightarrow> int) \<Rightarrow> nat \<Rightarrow> nat \<Rightarrow> 'a list \<Rightarrow> 'a list" where
  "sample_loop rnd index 0 xs = xs"
| "sample_loop rnd index (Suc n) xs =
     sample_loop rnd (Suc index) n
       (swap index (nat (random (rnd index) (int index) (Some (int (length xs) - 1)))) xs)"

definition sample :: "(nat \<Rightarrow> int \<Rightarrow> int) \<Rightarrow> jsval \<Rightarrow> int \<Rightarrow> jsval list" where
  "sample rnd v n =
     (let xs = coll_values v; m = nat (max (min n (int (length xs))) 0)
      in take m (sample_loop rnd 0 m xs))"

definition sample_one :: "(nat \<Rightarrow> int \<Rightarrow> int) \<Rightarrow> jsval \<Rightarrow> jsval" where
  "sample_one rnd v =
     (let xs = coll_values v in nth_or_undef xs (nat (random (rnd 0) (int (length xs) - 1) None)))"

text \<open>\<open>shuffle\<close> samples \<open>Infinity\<close> elements, that is, all of them.\<close>

definition shuffle :: "(nat \<Rightarrow> int \<Rightarrow> int) \<Rightarrow> jsval \<Rightarrow> jsval list" where
  "shuffle rnd v = sample rnd v (int (length (coll_values v)))"

section \<open>Slices\<close>

lemma chunk_loop_nat:
  "0 < c \<Longrightarrow> chunk_loop xs (int c) (int i) =
     (if i < length xs then take c (drop i xs) # chunk_loop xs (int c) (int (i + c)) else [])"
  using slice_nat [of xs i "i + c"]
  by (subst chunk_loop.simps) (simp add: take_drop add.commute)

lemma chunk_loop_spec:
  assumes "0 < c"
  shows "concat (chunk_loop xs (int c) (int i)) = drop i xs \<and>
    (\<forall>p \<in> set (chunk_loop xs (int c) (int i)). p \<noteq> [] \<and> length p \<le> c)"
proof (induction "length xs - i" arbitrary: i rule: less_induct)
  case less
  show ?case
  proof (cases "i < length xs")
    case True
    with less.hyps [of "i + c"] assms have "concat (chunk_loop xs (int c) (int (i + c))) = drop (i + c) xs \<and>
      (\<forall>p \<in> set (chunk_loop xs (int c) (int (i + c))). p \<noteq> [] \<and> length p \<le> c)" by auto
    moreover have "take c (drop i xs) @ drop (i + c) xs = drop i xs"
      using append_take_drop_id [of c "drop i xs"] by (simp add: add.commute)
    ultimately show ?thesis
      using True assms by (subst (1 2) chunk_loop_nat) auto
  next
    case False
    with assms show ?thesis by (simp add: chunk_loop_nat)
  qed
qed

section \<open>Flattening\<close>

text \<open>The values an array holds at any depth, and one level below.\<close>

fun leaves :: "jsval \<Rightarrow> jsval list" where
  "leaves (VArr i xs) = concat (map leaves xs)"
| "leaves v = [v]"

fun unwrap :: "jsval \<Rightarrow> jsval list" where
  "unwrap (VArr i xs) = xs"
| "unwrap v = []"

lemma flatten_loop_deep:
  "d = Deep \<Longrightarrow> \<not> strict \<Longrightarrow> flatten_loop d strict vs res = res @ concat (map leaves vs)"
  by (induction d strict vs res rule: flatten_loop.induct) auto

lemma flatten_loop_strict:
  "d = Depth 1 \<Longrightarrow> strict \<Longrightarrow> flatten_loop d strict vs res = res @ concat (map unwrap vs)"
  by (induction d strict vs res rule: flatten_loop.induct) auto

lemma flatten1_strict: "flatten1 arrays (Depth 1) True = concat (map unwrap arrays)"
  by (simp add: flatten1_def flatten_loop_strict)

section \<open>Sets as arrays\<close>

lemma same_item_refl: "same_item x x"
  by (auto simp: same_item_def strict_eq_self_iff)

lemma num_eq_NaN [simp]: "\<not> num_eq a NaN"
  by (cases a) auto

lemma num_eq_sym: "num_eq a b \<longleftrightarrow> num_eq b a"
  by (cases a; cases b) auto

lemma num_eq_trans: "num_eq a b \<Longrightarrow> num_eq b c \<Longrightarrow> num_eq a c"
  by (cases a; cases b; cases c) auto

lemma same_item_sym: "same_item x y \<Longrightarrow> same_item y x"
  by (cases x; cases y) (auto simp: same_item_def num_eq_sym split: if_splits)

lemma same_item_trans: "same_item x y \<Longrightarrow> same_item y z \<Longrightarrow> same_item x z"
  by (cases x; cases y; cases z) (auto simp: same_item_def split: if_splits dest: num_eq_trans)

definition item_in :: "jsval \<Rightarrow> jsval list \<Rightarrow> bool" where
  "item_in x xs \<longleftrightarrow> (\<exists>y \<in> set xs. same_item y x)"

lemma item_in_simps [simp]:
  "\<not> item_in x []"
  "item_in x (y # ys) \<longleftrightarrow> same_item y x \<or> item_in x ys"
  "item_in x (xs @ ys) \<longleftrightarrow> item_in x xs \<or> item_in x ys"
  by (auto simp: item_in_def)

lemma item_in_same: "item_in x xs \<Longrightarrow> same_item x y \<Longrightarrow> item_in y xs"
  by (auto simp: item_in_def intro: same_item_trans)

lemma contains_item_in: "arr_ok xs \<Longrightarrow> contains (VArr j xs) x NoIdx \<longleftrightarrow> item_in x xs"
  by (simp add: contains_arr item_in_def)

text \<open>No two elements are the same item.\<close>

fun no_repeats :: "jsval list \<Rightarrow> bool" where
  "no_repeats [] = True"
| "no_repeats (x # xs) = (\<not> item_in x xs \<and> no_repeats xs)"

lemma no_repeats_snoc: "no_repeats (xs @ [x]) \<longleftrightarrow> no_repeats xs \<and> \<not> item_in x xs"
  by (induction xs) (auto dest: same_item_sym)

lemma arr_ok_append: "arr_ok (xs @ ys) \<Longrightarrow> arr_ok xs"
  by (simp add: arr_ok_def)

lemma uniq_loop_spec:
  assumes "arr_ok (result @ vs)" "no_repeats result"
  shows "no_repeats (uniq_loop vs result) \<and>
    (\<forall>x. item_in x (uniq_loop vs result) \<longleftrightarrow> item_in x result \<or> item_in x vs)"
  using assms
proof (induction vs arbitrary: result)
  case (Cons v vs)
  have c: "contains (VArr 0 result) v NoIdx \<longleftrightarrow> item_in v result"
    using Cons.prems(1) by (intro contains_item_in) (rule arr_ok_append)
  show ?case
  proof (cases "item_in v result")
    case True
    with Cons c show ?thesis
      using item_in_same by (auto simp: arr_ok_def)
  next
    case False
    with Cons.IH [of "result @ [v]"] Cons.prems c show ?thesis
      by (auto simp: arr_ok_def no_repeats_snoc)
  qed
qed simp

lemma in_all_iff: "in_all as x \<longleftrightarrow> (\<forall>a \<in> set as. contains a x NoIdx)"
  by (induction as) auto

lemma intersection_loop_spec:
  assumes "arr_ok (result @ vs)" "no_repeats result"
    and "\<And>x y. same_item x y \<Longrightarrow> in_all others x \<longleftrightarrow> in_all others y"
  shows "no_repeats (intersection_loop others vs result) \<and>
    (\<forall>x. item_in x (intersection_loop others vs result) \<longleftrightarrow>
      item_in x result \<or> item_in x vs \<and> in_all others x)"
  using assms(1,2)
proof (induction vs arbitrary: result)
  case (Cons v vs)
  have c: "contains (VArr 0 result) v NoIdx \<longleftrightarrow> item_in v result"
    using Cons.prems(1) by (intro contains_item_in) (rule arr_ok_append)
  have same: "in_all others v \<longleftrightarrow> in_all others x" if "same_item v x" for x
    using assms(3) [OF that] .
  consider "item_in v result" | "\<not> item_in v result" "in_all others v"
    | "\<not> item_in v result" "\<not> in_all others v" by blast
  then show ?case
  proof cases
    case 1
    with Cons c show ?thesis using item_in_same by (auto simp: arr_ok_def)
  next
    case 2
    with Cons.IH [of "result @ [v]"] Cons.prems c same show ?thesis
      by (auto simp: arr_ok_def no_repeats_snoc)
  next
    case 3
    with Cons c same show ?thesis by (auto simp: arr_ok_def)
  qed
qed simp

lemma in_all_same:
  assumes "\<And>a. a \<in> set others \<Longrightarrow> \<exists>j xs. a = VArr j xs \<and> arr_ok xs" "same_item x y"
  shows "in_all others x \<longleftrightarrow> in_all others y"
proof -
  have "contains a x NoIdx \<longleftrightarrow> contains a y NoIdx" if "a \<in> set others" for a
    using assms(1) [OF that] assms(2) item_in_same same_item_sym
    by (auto simp: contains_item_in)
  then show ?thesis by (simp add: in_all_iff)
qed

lemma filter_us_items:
  "arr_ok xs \<Longrightarrow> filter_us (VArr 0 xs) (IFun (\<lambda>v _. VBool (P v))) = filter P xs"
  by (simp add: filter_us_arr)

lemma arr_ok_concat: "arr_ok (concat yss) \<Longrightarrow> ys \<in> set yss \<Longrightarrow> arr_ok ys"
proof -
  have "length ys \<le> length (concat yss)" if "ys \<in> set yss" using that by (induction yss) auto
  then show "arr_ok (concat yss) \<Longrightarrow> ys \<in> set yss \<Longrightarrow> ?thesis" by (simp add: arr_ok_def)
qed

lemma intersection_items:
  assumes "arr_ok xs" "arr_ok (concat yss)"
  shows "no_repeats (intersection xs (map (VArr 0) yss)) \<and>
    (item_in x (intersection xs (map (VArr 0) yss)) \<longleftrightarrow> item_in x xs \<and> (\<forall>ys \<in> set yss. item_in x ys))"
proof -
  let ?others = "map (VArr 0) yss"
  have ok: "\<exists>j ys. a = VArr j ys \<and> arr_ok ys" if "a \<in> set ?others" for a
    using that arr_ok_concat [OF assms(2)] by auto
  have "in_all ?others x \<longleftrightarrow> (\<forall>ys \<in> set yss. item_in x ys)"
    using arr_ok_concat [OF assms(2)] by (simp add: in_all_iff contains_item_in)
  moreover have "\<And>x y. same_item x y \<Longrightarrow> in_all ?others x \<longleftrightarrow> in_all ?others y"
    using in_all_same [OF ok] by blast
  from intersection_loop_spec [of "[]" xs ?others, OF _ _ this] assms(1)
  have "no_repeats (intersection xs ?others) \<and>
      (item_in x (intersection xs ?others) \<longleftrightarrow> item_in x xs \<and> in_all ?others x)"
    by (simp add: intersection_def)
  ultimately show ?thesis by simp
qed

lemma flatten1_arrays: "flatten1 (map (VArr 0) yss) (Depth 1) True = concat yss"
  by (simp add: flatten1_strict comp_def)

lemma union_items:
  assumes "arr_ok (concat yss)"
  shows "no_repeats (union (map (VArr 0) yss)) \<and>
    (item_in x (union (map (VArr 0) yss)) \<longleftrightarrow> item_in x (concat yss))"
  using uniq_loop_spec [of "[]" "concat yss"] assms
  by (simp add: union_def uniq_def flatten1_arrays)

lemma difference_items:
  assumes "arr_ok xs" "arr_ok (concat yss)"
  shows "item_in x (difference xs (map (VArr 0) yss)) \<longleftrightarrow> item_in x xs \<and> \<not> item_in x (concat yss)"
proof -
  have "difference xs (map (VArr 0) yss) = filter (\<lambda>v. \<not> item_in v (concat yss)) xs"
    by (simp add: difference_def flatten1_arrays filter_us_items [OF assms(1)]
        contains_item_in [OF assms(2)] Let_def)
  then show ?thesis
    using item_in_same [of _ "concat yss"] same_item_sym by (auto simp: item_in_def [of _ xs] item_in_def [of _ "filter _ _"])
qed

section \<open>Shuffling\<close>

lemma mset_swap: "i < length xs \<Longrightarrow> j < length xs \<Longrightarrow> mset (swap i j xs) = mset xs"
  by (simp add: swap_def mset_swap)

lemma length_swap [simp]: "length (swap i j xs) = length xs"
  by (simp add: swap_def)

lemma sample_loop_perm:
  assumes "\<And>k n. 0 < n \<Longrightarrow> 0 \<le> rnd k n \<and> rnd k n < n" "index + n \<le> length xs"
  shows "mset (sample_loop rnd index n xs) = mset xs"
  using assms(2)
proof (induction n arbitrary: index xs)
  case (Suc n)
  let ?r = "random (rnd index) (int index) (Some (int (length xs) - 1))"
  have "int index \<le> ?r \<and> ?r < int (length xs)"
    using assms(1) [of "int (length xs) - 1 - int index + 1" index] Suc.prems by (auto simp: random_def)
  then have "mset (swap index (nat ?r) xs) = mset xs"
    using Suc.prems by (intro mset_swap) auto
  with Suc.IH [of "Suc index" "swap index (nat ?r) xs"] Suc.prems show ?case by simp
qed simp

lemma sample_loop_length [simp]: "length (sample_loop rnd i n xs) = length xs"
  by (induction n arbitrary: i xs) auto

section \<open>Objects and pairs\<close>

lemma object_pairs_get: "distinct (map fst ps) \<Longrightarrow> obj_get (object_pairs ps) k = map_of ps k"
proof -
  have "distinct (map fst ps) \<Longrightarrow> obj_get (foldl (\<lambda>res p. obj_put (fst p) (snd p) res) acc ps) k =
      (case map_of ps k of Some v \<Rightarrow> Some v | None \<Rightarrow> obj_get acc k)" for acc
    by (induction ps arbitrary: acc)
      (auto simp: obj_get_put split: option.splits dest: map_of_SomeD intro: rev_image_eqI)
  then show "distinct (map fst ps) \<Longrightarrow> ?thesis"
    by (simp add: object_pairs_def split: option.splits)
qed

lemma symbols_concat: "concat (symbols s) = s"
  by (induction s rule: symbols.induct) auto

section \<open>Properties\<close>

text \<open>
  \<open>_.intersection\<close>, \<open>_.union\<close> and \<open>_.difference\<close> are the set operations on arrays, with
  \<open>===\<close> (and \<open>NaN\<close> equal to itself) as the equality of items; the first two return no item twice.
\<close>

theorem array_set_operations:
  assumes "arr_ok xs" "arr_ok (concat yss)"
  shows "(item_in x (intersection xs (map (VArr 0) yss)) \<longleftrightarrow> item_in x xs \<and> (\<forall>ys \<in> set yss. item_in x ys)) \<and>
    (item_in x (union (map (VArr 0) yss)) \<longleftrightarrow> item_in x (concat yss)) \<and>
    (item_in x (difference xs (map (VArr 0) yss)) \<longleftrightarrow> item_in x xs \<and> \<not> item_in x (concat yss)) \<and>
    no_repeats (intersection xs (map (VArr 0) yss)) \<and> no_repeats (union (map (VArr 0) yss))"
  using intersection_items [OF assms] union_items [OF assms(2)] difference_items [OF assms] by blast

theorem array_set_operations_witness:
  "item_in (VInt 2) (intersection [VInt 1, VInt 2] (map (VArr 0) [[VInt 2, VInt 3]])) \<and>
   \<not> item_in (VInt 2) (difference [VInt 1, VInt 2] (map (VArr 0) [[VInt 2, VInt 3]]))"
  using array_set_operations [of "[VInt 1, VInt 2]" "[[VInt 2, VInt 3]]" "VInt 2"]
  by (simp add: arr_ok_def same_item_def)

text \<open>
  \<open>_.shuffle\<close> returns a permutation of the collection's values, whatever the random numbers
  are, as long as each of them is in its range.
\<close>

theorem shuffle_permutes:
  assumes "\<And>k n. 0 < n \<Longrightarrow> 0 \<le> rnd k n \<and> rnd k n < n"
  shows "mset (shuffle rnd v) = mset (coll_values v)"
proof -
  have "mset (sample_loop rnd 0 (length (coll_values v)) (coll_values v)) = mset (coll_values v)"
    by (rule sample_loop_perm) (use assms in auto)
  then show ?thesis by (simp add: shuffle_def sample_def Let_def)
qed

theorem shuffle_permutes_witness:
  "mset (shuffle (\<lambda>k n. n - 1) (VArr 0 [VInt 1, VInt 2, VInt 3])) = mset [VInt 1, VInt 2, VInt 3]"
proof -
  have "coll_values (VArr 0 [VInt 1, VInt 2, VInt 3]) = [VInt 1, VInt 2, VInt 3]"
    by (simp add: coll_values_def isArrayLike_arr arr_ok_def)
  then show ?thesis
    using shuffle_permutes [of "\<lambda>k n. n - 1" "VArr 0 [VInt 1, VInt 2, VInt 3]"] by simp
qed

text \<open>
  \<open>_.chunk\<close> with a positive size cuts an array into consecutive non-empty pieces of at most
  that size: joined together they are the array again.
\<close>

theorem chunk_round_trip:
  "concat (chunk xs (Some (int (Suc c)))) = xs \<and>
   list_all (\<lambda>p. p \<noteq> [] \<and> length p \<le> Suc c) (chunk xs (Some (int (Suc c))))"
  using chunk_loop_spec [of "Suc c" xs 0] by (simp add: chunk_def list_all_iff del: of_nat_Suc)

end
