(* ===== verification/Underscore_Equal.thy ===== *)
theory Underscore_Equal
  imports Underscore_Core
begin

text \<open>
  \<open>_.isEqual\<close> with its helpers \<open>eq\<close> and \<open>deepEq\<close>: the recursive comparison that keeps the stacks of
  the objects being compared. The values are trees, so the recursion is on the first value;
  wrapper objects, typed arrays and buffers are not among them. The main lemma: on values in
  which equal identities mean equal contents, \<open>isEqual\<close> decides structural equality.
\<close>

section \<open>The comparison\<close>

text \<open>\<open>a.constructor !== b.constructor\<close> for ordinary objects: an own property of that name hides
  the inherited \<open>Object\<close>, which no value of the model is.\<close>

definition ctors_differ :: "(jstr \<times> jsval) list \<Rightarrow> (jstr \<times> jsval) list \<Rightarrow> bool" where
  "ctors_differ ps qs =
     (case (obj_get ps (lit ''constructor''), obj_get qs (lit ''constructor'')) of
        (None, None) \<Rightarrow> False
      | (Some x, Some y) \<Rightarrow> \<not> strict_eq x y
      | _ \<Rightarrow> True)"

text \<open>The search in the stacks, from the top: \<open>Some\<close> answer when the first value is found.\<close>

fun stack_search :: "jsval list \<Rightarrow> jsval list \<Rightarrow> jsval \<Rightarrow> jsval \<Rightarrow> bool option" where
  "stack_search (s # ss) (t # ts) a b =
     (if strict_eq s a then Some (strict_eq t b) else stack_search ss ts a b)"
| "stack_search _ _ a b = None"

definition identical :: "jsval \<Rightarrow> jsval \<Rightarrow> bool" where
  "identical a b =
     (case (a, b) of
        (VNum m, VNum n) \<Rightarrow> \<not> num_eq m (Fin 0) \<or> m = n
      | _ \<Rightarrow> True)"

definition is_ref :: "jsval \<Rightarrow> bool" where
  "is_ref v = (case v of VArr _ _ \<Rightarrow> True | VObj _ _ \<Rightarrow> True | _ \<Rightarrow> False)"

text \<open>
  \<open>eq_arrays\<close> and \<open>eq_props\<close> are the loops of \<open>deepEq\<close> over the elements and the keys, which both
  run from the last to the first. The stacks are lists with the top first.
\<close>

function (sequential) eq :: "jsval \<Rightarrow> jsval \<Rightarrow> jsval list \<Rightarrow> jsval list \<Rightarrow> bool"
  and deepEq :: "jsval \<Rightarrow> jsval \<Rightarrow> jsval list \<Rightarrow> jsval list \<Rightarrow> bool"
  and eq_arrays :: "jsval list \<Rightarrow> jsval list \<Rightarrow> jsval list \<Rightarrow> jsval list \<Rightarrow> bool"
  and eq_props :: "(jstr \<times> jsval) list \<Rightarrow> (jstr \<times> jsval) list \<Rightarrow> jsval list \<Rightarrow> jsval list \<Rightarrow> bool" where
  "eq a b as bs =
     (if strict_eq a b then identical a b
      else if nullish a \<or> nullish b then False
      else if a = VNum NaN then b = VNum NaN
      else if (case a of VFun _ _ _ \<Rightarrow> False | _ \<Rightarrow> \<not> is_ref a) \<and> \<not> is_ref b then False
      else deepEq a b as bs)"
| "deepEq a b as bs =
     (if class_tag a \<noteq> class_tag b then False
      else (case (a, b) of
              (VStr s, VStr t) \<Rightarrow> s = t
            | (VNum m, VNum n) \<Rightarrow> if m = NaN then n = NaN else if num_eq m (Fin 0) then m = n else num_eq m n
            | (VBool p, VBool q) \<Rightarrow> p = q
            | (VArr i xs, VArr j ys) \<Rightarrow>
                (case stack_search as bs a b of
                   Some r \<Rightarrow> r
                 | None \<Rightarrow> length xs = length ys \<and> eq_arrays xs ys (a # as) (b # bs))
            | (VObj i ps, VObj j qs) \<Rightarrow>
                if ctors_differ ps qs then False
                else (case stack_search as bs a b of
                        Some r \<Rightarrow> r
                      | None \<Rightarrow> length ps = length qs \<and> eq_props ps qs (a # as) (b # bs))
            | _ \<Rightarrow> False))"
| "eq_arrays (x # xs) (y # ys) as bs = (if eq_arrays xs ys as bs then eq x y as bs else False)"
| "eq_arrays _ _ as bs = True"
| "eq_props ((k, v) # ps) qs as bs =
     (if eq_props ps qs as bs
      then (case obj_get qs k of None \<Rightarrow> False | Some w \<Rightarrow> eq v w as bs) else False)"
| "eq_props [] qs as bs = True"
  by pat_completeness auto
termination
  by (relation "measure (\<lambda>x. case x of
        Inl (Inl (a, _, _, _)) \<Rightarrow> 3 * size a + 1
      | Inl (Inr (a, _, _, _)) \<Rightarrow> 3 * size a
      | Inr (Inl (xs, _, _, _)) \<Rightarrow> 3 * size_list size xs + 2
      | Inr (Inr (ps, _, _, _)) \<Rightarrow> 3 * size_list (size_prod (\<lambda>_. 0) size) ps + 2)")
    (auto simp: size_list_def)

definition isEqual :: "jsval \<Rightarrow> jsval \<Rightarrow> bool" where
  "isEqual a b = eq a b [] []"

section \<open>Structural equality\<close>

inductive same_struct :: "jsval \<Rightarrow> jsval \<Rightarrow> bool" where
  ss_undef: "same_struct VUndef VUndef"
| ss_null: "same_struct VNull VNull"
| ss_bool: "same_struct (VBool p) (VBool p)"
| ss_num: "same_struct (VNum n) (VNum n)"
| ss_str: "same_struct (VStr s) (VStr s)"
| ss_fun: "same_struct (VFun i n s) (VFun i m t)"
| ss_arr: "list_all2 same_struct xs ys \<Longrightarrow> same_struct (VArr i xs) (VArr j ys)"
| ss_obj: "length ps = length qs \<Longrightarrow>
     \<forall>(k, v) \<in> set ps. \<exists>w. obj_get qs k = Some w \<and> same_struct v w \<Longrightarrow>
     same_struct (VObj i ps) (VObj j qs)"
monos list_all2_mono

inductive_simps same_struct_simps [simp]:
  "same_struct VUndef b" "same_struct VNull b" "same_struct (VBool p) b" "same_struct (VNum n) b"
  "same_struct (VStr s) b" "same_struct (VFun i n s) b" "same_struct (VArr i xs) b"
  "same_struct (VObj i ps) b"

text \<open>The parts of a value; values whose objects are well formed and have the ordinary constructor;
  sets of values in which an identity determines the contents.\<close>

fun subvals :: "jsval \<Rightarrow> jsval list" where
  "subvals (VArr i xs) = VArr i xs # concat (map subvals xs)"
| "subvals (VObj i ps) = VObj i ps # concat (map (\<lambda>(k, v). subvals v) ps)"
| "subvals v = [v]"

definition plain_obj :: "jsval \<Rightarrow> bool" where
  "plain_obj v = (case v of VObj i ps \<Rightarrow> obj_ok ps \<and> obj_get ps (lit ''constructor'') = None | _ \<Rightarrow> True)"

definition refs_ok :: "jsval list \<Rightarrow> bool" where
  "refs_ok vs = (\<forall>x \<in> set vs. plain_obj x \<and> (is_ref x \<longrightarrow> (\<forall>y \<in> set vs. strict_eq x y \<longrightarrow> x = y)))"

lemma subvals_self [simp]: "v \<in> set (subvals v)"
  by (cases v) auto

lemma obj_get_mem: "obj_ok ps \<Longrightarrow> (k, v) \<in> set ps \<Longrightarrow> obj_get ps k = Some v"
  by (simp add: obj_ok_def obj_get_def)

lemma obj_get_in: "obj_get ps k = Some v \<Longrightarrow> (k, v) \<in> set ps"
  by (simp add: obj_get_def map_of_SomeD)

lemma same_struct_refl: "\<forall>x \<in> set (subvals v). plain_obj x \<Longrightarrow> same_struct v v"
proof (induction v rule: subvals.induct)
  case (2 i ps)
  then have "obj_ok ps" by (simp add: plain_obj_def)
  with 2 show ?case by (auto simp: obj_get_mem)
qed (auto simp: list_all2_same)

lemma size_elem: "x \<in> set xs \<Longrightarrow> size x < size (VArr i xs)"
  by (induction xs) auto

lemma size_prop: "(k, x) \<in> set ps \<Longrightarrow> size x < size (VObj i ps)"
  by (induction ps) auto

text \<open>The stacks hold larger values of the same collection, so they never answer.\<close>

definition stack_ok :: "jsval list \<Rightarrow> jsval list \<Rightarrow> nat \<Rightarrow> bool" where
  "stack_ok U as n = (\<forall>s \<in> set as. s \<in> set U \<and> is_ref s \<and> n < size s)"

lemma stack_search_None:
  "refs_ok U \<Longrightarrow> stack_ok U as (size a) \<Longrightarrow> a \<in> set U \<Longrightarrow> stack_search as bs a b = None"
proof (induction as bs a b rule: stack_search.induct)
  case (1 s ss t ts a b)
  then have s: "s \<in> set U" "is_ref s" "size a < size s" by (auto simp: stack_ok_def)
  have "\<not> strict_eq s a"
  proof
    assume "strict_eq s a"
    with 1 s have "s = a" by (auto simp: refs_ok_def)
    with s show False by simp
  qed
  with 1 show ?case by (simp add: stack_ok_def)
qed auto

lemma stack_ok_push:
  "stack_ok U as n \<Longrightarrow> a \<in> set U \<Longrightarrow> is_ref a \<Longrightarrow> m < size a \<Longrightarrow> size a \<le> n \<Longrightarrow> stack_ok U (a # as) m"
  by (auto simp: stack_ok_def)

definition inside :: "jsval list \<Rightarrow> jsval \<Rightarrow> bool" where
  "inside U v = (set (subvals v) \<subseteq> set U)"

lemma inside_arr: "inside U (VArr i xs) \<Longrightarrow> x \<in> set xs \<Longrightarrow> inside U x"
  by (auto simp: inside_def)

lemma inside_obj: "inside U (VObj i ps) \<Longrightarrow> (k, v) \<in> set ps \<Longrightarrow> inside U v"
  by (auto simp: inside_def)

lemma inside_self: "inside U v \<Longrightarrow> v \<in> set U"
  by (auto simp: inside_def)

lemma num_eq_NaN_iff: "\<not> num_eq NaN n" "\<not> num_eq n NaN"
  by (cases n; simp)+

lemma num_eq_refl: "n \<noteq> NaN \<Longrightarrow> num_eq n n"
  by (cases n) auto

lemma num_egal: "num_eq m n \<Longrightarrow> \<not> num_eq m (Fin 0) \<Longrightarrow> n = m"
  by (cases m; cases n) auto

lemma identical_same:
  "strict_eq a b \<Longrightarrow> refs_ok U \<Longrightarrow> inside U a \<Longrightarrow> inside U b \<Longrightarrow> identical a b \<longleftrightarrow> same_struct a b"
proof (cases "is_ref a")
  case True
  assume "strict_eq a b" and U: "refs_ok U" "inside U a" "inside U b"
  with True have "a = b" by (auto simp: refs_ok_def dest: inside_self)
  moreover have "same_struct a a" using U by (intro same_struct_refl) (auto simp: refs_ok_def inside_def)
  ultimately show ?thesis using True by (auto simp: identical_def is_ref_def split: jsval.splits)
next
  case False
  assume "strict_eq a b"
  with False show ?thesis
    by (cases a; cases b) (auto simp: identical_def is_ref_def dest: num_egal)
qed

lemma deep_number:
  "(if m = NaN then n = NaN else if num_eq m (Fin 0) then m = n else num_eq m n) \<longleftrightarrow> m = n"
  by (cases m; cases n) auto

lemma eq_decides:
  assumes U: "refs_ok U"
  shows "inside U a \<Longrightarrow> inside U b \<Longrightarrow> stack_ok U as (size a) \<Longrightarrow> eq a b as bs \<longleftrightarrow> same_struct a b"
    and "inside U a \<Longrightarrow> inside U b \<Longrightarrow> stack_ok U as (size a) \<Longrightarrow> \<not> nullish a \<Longrightarrow> \<not> strict_eq a b \<Longrightarrow>
      deepEq a b as bs \<longleftrightarrow> same_struct a b"
    and "list_all (inside U) xs \<Longrightarrow> list_all (inside U) ys \<Longrightarrow> length xs = length ys \<Longrightarrow>
      (\<And>x. x \<in> set xs \<Longrightarrow> stack_ok U as (size x)) \<Longrightarrow>
      eq_arrays xs ys as bs \<longleftrightarrow> list_all2 same_struct xs ys"
    and "(\<And>k v. (k, v) \<in> set ps \<Longrightarrow> inside U v \<and> stack_ok U as (size v)) \<Longrightarrow>
      (\<And>k v. (k, v) \<in> set qs \<Longrightarrow> inside U v) \<Longrightarrow>
      eq_props ps qs as bs \<longleftrightarrow> (\<forall>(k, v) \<in> set ps. \<exists>w. obj_get qs k = Some w \<and> same_struct v w)"
proof (induction a b as bs and a b as bs and xs ys as bs and ps qs as bs
    rule: eq_deepEq_eq_arrays_eq_props.induct)
  case (1 a b as bs)
  show ?case
  proof (cases "strict_eq a b")
    case True
    with identical_same [OF True U] 1 show ?thesis by simp
  next
    case ne: False
    show ?thesis
    proof (cases "nullish a \<or> nullish b \<or> a = VNum NaN \<or>
        (case a of VFun _ _ _ \<Rightarrow> False | _ \<Rightarrow> \<not> is_ref a) \<and> \<not> is_ref b")
      case True
      with ne show ?thesis
        by (cases a; cases b) (auto simp: nullish_def is_ref_def num_eq_NaN_iff dest: num_eq_refl)
    next
      case False
      with ne have "eq a b as bs = deepEq a b as bs" by auto
      moreover from False ne 1 have "deepEq a b as bs \<longleftrightarrow> same_struct a b" by blast
      ultimately show ?thesis by simp
    qed
  qed
next
  case (2 a b as bs)
  show ?case
  proof (cases "\<exists>i xs j ys. a = VArr i xs \<and> b = VArr j ys")
    case True
    then obtain i xs j ys where ab: "a = VArr i xs" "b = VArr j ys" by blast
    have none: "stack_search as bs a b = None"
      using U "2.prems" by (intro stack_search_None) (auto dest: inside_self)
    have "stack_ok U (a # as) (size x)" if "x \<in> set xs" for x
      using "2.prems" ab size_elem [OF that, of i]
      by (intro stack_ok_push [of U as "size a"]) (auto simp: is_ref_def dest: inside_self)
    moreover have "list_all (inside U) xs" "list_all (inside U) ys"
      using "2.prems" ab by (auto simp: list_all_iff intro: inside_arr)
    ultimately show ?thesis using 2 ab none by (auto simp: list_all2_lengthD)
  next
    case no_arr: False
    show ?thesis
    proof (cases "\<exists>i ps j qs. a = VObj i ps \<and> b = VObj j qs")
      case True
      then obtain i ps j qs where ab: "a = VObj i ps" "b = VObj j qs" by blast
      have none: "stack_search as bs a b = None"
        using U "2.prems" by (intro stack_search_None) (auto dest: inside_self)
      have "stack_ok U (a # as) (size x)" if "(k, x) \<in> set ps" for k x
        using "2.prems" ab size_prop [OF that, of i]
        by (intro stack_ok_push [of U as "size a"]) (auto simp: is_ref_def dest: inside_self)
      moreover have "plain_obj a" "plain_obj b"
        using U "2.prems" by (auto simp: refs_ok_def dest: inside_self)
      then have "\<not> ctors_differ ps qs" using ab by (simp add: plain_obj_def ctors_differ_def)
      moreover have "\<And>k v. (k, v) \<in> set ps \<Longrightarrow> inside U v" "\<And>k v. (k, v) \<in> set qs \<Longrightarrow> inside U v"
        using "2.prems" ab inside_obj by blast+
      ultimately show ?thesis using 2 ab none by simp
    next
      case False
      with no_arr "2.prems" show ?thesis
        by (cases a; cases b) (auto simp: nullish_def deep_number)
    qed
  qed
next
  case (3 x xs y ys as bs)
  then show ?case by auto
next
  case (5 k v ps qs as bs)
  have tail: "eq_props ps qs as bs \<longleftrightarrow>
      (\<forall>(k, v) \<in> set ps. \<exists>w. obj_get qs k = Some w \<and> same_struct v w)"
    using "5.prems" by (intro "5.IH"(1)) auto
  have v: "inside U v" "stack_ok U as (size v)" using "5.prems"(1) [of k v] by auto
  show ?case
  proof (cases "obj_get qs k")
    case None
    then show ?thesis by simp
  next
    case (Some w)
    have "inside U w" using "5.prems"(2) obj_get_in [OF Some] by blast
    then have "eq v w as bs \<longleftrightarrow> same_struct v w" if "eq_props ps qs as bs"
      using "5.IH"(2) [OF that Some v(1) _ v(2)] by blast
    with tail Some show ?thesis by auto
  qed
qed auto

section \<open>Properties\<close>

text \<open>
  C9. \<open>_.isEqual\<close> decides structural equality: same primitive value (\<open>NaN\<close> equals itself, \<open>0\<close> and
  \<open>-0\<close> differ), same function, arrays with the same elements, objects with the same keys and
  equal values in any order; for values whose objects have the ordinary constructor and in which
  an identity determines the contents.
\<close>

theorem isEqual_structural:
  assumes "refs_ok (subvals a @ subvals b)"
  shows "isEqual a b \<longleftrightarrow> same_struct a b"
  unfolding isEqual_def using assms
  by (rule eq_decides(1)) (simp_all add: inside_def stack_ok_def)

definition point :: "nat \<Rightarrow> jsval" where
  "point i = VObj i [(lit ''x'', VInt 1), (lit ''y'', VArr (i + 1) [VNum NaN])]"

theorem isEqual_structural_witness:
  "isEqual (point 1) (VObj 3 [(lit ''y'', VArr 4 [VNum NaN]), (lit ''x'', VInt 1)])"
proof -
  let ?b = "VObj 3 [(lit ''y'', VArr 4 [VNum NaN]), (lit ''x'', VInt 1)]"
  have "refs_ok (subvals (point 1) @ subvals ?b)"
    by (simp add: refs_ok_def point_def plain_obj_def is_ref_def obj_ok_def obj_get_def lit_def)
  moreover have "same_struct (point 1) ?b" by (simp add: point_def obj_get_def lit_def)
  ultimately show ?thesis using isEqual_structural by blast
qed

end
