(* ===== verification/Underscore_Functions.thy ===== *)
theory Underscore_Functions
  imports Underscore_Core
begin

text \<open>
  The function wrappers of \<open>underscore-1.13.1.js\<close>. A wrapper that keeps state between calls is a
  step on that state: \<open>throttle\<close>, \<open>debounce\<close>, \<open>memoize\<close>, \<open>after\<close>, \<open>before\<close> and \<open>once\<close>. The clock
  (\<open>_.now\<close>) is an argument of the step, a pending \<open>setTimeout\<close> is the time at which it is due, and
  the calls of the wrapped function are logged with their times. The wrapped function does not
  call the wrapper again.
\<close>

section \<open>Arguments\<close>

text \<open>\<open>restArguments\<close>: the arguments before \<open>startIndex\<close> and the array of the others.\<close>

definition restArguments :: "nat \<Rightarrow> jsval list \<Rightarrow> jsval list \<times> jsval list" where
  "restArguments startIndex arguments =
     (map (nth_or_undef arguments) [0..<startIndex],
      map (\<lambda>i. nth_or_undef arguments (i + startIndex)) [0..<length arguments - startIndex])"

text \<open>\<open>partial\<close>: \<open>None\<close> is the placeholder.\<close>

fun partial_args :: "jsval option list \<Rightarrow> jsval list \<Rightarrow> jsval list" where
  "partial_args [] arguments = arguments"
| "partial_args (Some v # bound) arguments = v # partial_args bound arguments"
| "partial_args (None # bound) arguments = nth_or_undef arguments 0 # partial_args bound (tl arguments)"

definition partial :: "(jsval list \<Rightarrow> 'r) \<Rightarrow> jsval option list \<Rightarrow> jsval list \<Rightarrow> 'r" where
  "partial func bound arguments = func (partial_args bound arguments)"

definition bind :: "(jsval \<Rightarrow> jsval list \<Rightarrow> 'r) \<Rightarrow> jsval \<Rightarrow> jsval list \<Rightarrow> jsval list \<Rightarrow> 'r" where
  "bind func context args callArgs = func context (args @ callArgs)"

definition wrap :: "(jsval list \<Rightarrow> 'r) \<Rightarrow> jsval \<Rightarrow> jsval list \<Rightarrow> 'r" where
  "wrap wrapper func = partial wrapper [Some func]"

definition negate :: "(jsval list \<Rightarrow> jsval) \<Rightarrow> jsval list \<Rightarrow> jsval" where
  "negate predicate arguments = VBool (\<not> truthy (predicate arguments))"

text \<open>\<open>compose\<close>: the last function gets the arguments, the others the result so far.\<close>

definition compose :: "(jsval list \<Rightarrow> jsval) list \<Rightarrow> jsval list \<Rightarrow> js_error + jsval" where
  "compose fs arguments =
     (if fs = [] then Inl TypeError
      else Inr (foldl (\<lambda>result f. f [result]) (last fs arguments) (rev (butlast fs))))"

text \<open>\<open>result\<close>: a value that is a function is called on its parent (parameter \<open>call\<close>).\<close>

definition call_if_fun :: "(jsval \<Rightarrow> jsval \<Rightarrow> jsval) \<Rightarrow> jsval \<Rightarrow> jsval \<Rightarrow> jsval" where
  "call_if_fun call p this = (if isFunction p then call p this else p)"

fun result_loop :: "(jsval \<Rightarrow> jsval \<Rightarrow> jsval) \<Rightarrow> jsval \<Rightarrow> jsval list \<Rightarrow> jsval \<Rightarrow> jsval" where
  "result_loop call fallback [] v = v"
| "result_loop call fallback (k # ks) v =
     (let p = (if nullish v then VUndef else get_prop v (to_str k))
      in if p = VUndef then call_if_fun call fallback v
         else result_loop call fallback ks (call_if_fun call p v))"

definition result_us :: "(jsval \<Rightarrow> jsval \<Rightarrow> jsval) \<Rightarrow> jsval \<Rightarrow> jsval \<Rightarrow> jsval \<Rightarrow> jsval" where
  "result_us call v path fallback =
     (if toPath path = [] then call_if_fun call fallback v
      else result_loop call fallback (toPath path) v)"

definition uniqueId :: "jstr \<Rightarrow> nat \<Rightarrow> jstr \<times> nat" where
  "uniqueId pre idCounter = (pre @ dec (Suc idCounter), Suc idCounter)"

section \<open>Counting calls\<close>

text \<open>One call of the function that \<open>after\<close> and \<open>before\<close> return. The state is the counter, for
  \<open>before\<close> with the remembered result; \<open>r\<close> is what the wrapped function would return now.\<close>

definition after_call :: "'r \<Rightarrow> int \<Rightarrow> 'r option \<times> int" where
  "after_call r n = (if n - 1 < 1 then Some r else None, n - 1)"

definition before_call :: "'r \<Rightarrow> int \<times> 'r option \<Rightarrow> 'r option \<times> (int \<times> 'r option)" where
  "before_call r st =
     (let n = fst st - 1; memo = (if 0 < n then Some r else snd st) in (memo, (n, memo)))"

definition once_init :: "int \<times> 'r option" where
  "once_init = (2, None)"

text \<open>The results of a sequence of calls in which the wrapped function would return \<open>rs\<close>.\<close>

fun run_calls :: "('r \<Rightarrow> 's \<Rightarrow> 'r option \<times> 's) \<Rightarrow> 's \<Rightarrow> 'r list \<Rightarrow> 'r option list" where
  "run_calls f s [] = []"
| "run_calls f s (r # rs) = (let (x, s') = f r s in x # run_calls f s' rs)"

section \<open>Memoising\<close>

definition memoize_call ::
  "(jsval list \<Rightarrow> jsval) \<Rightarrow> (jsval list \<Rightarrow> jsval) option \<Rightarrow> (jstr \<times> jsval) list \<Rightarrow> jsval list \<Rightarrow>
   jsval \<times> (jstr \<times> jsval) list" where
  "memoize_call func hasher cache arguments =
     (let address = to_str (case hasher of Some h \<Rightarrow> h arguments | None \<Rightarrow> nth_or_undef arguments 0);
          cache' = (if obj_get cache address = None then obj_put address (func arguments) cache else cache)
      in (prop_or_undef cache' address, cache'))"

section \<open>throttle\<close>

record 'a throttler =
  th_wait :: int
  th_leading :: bool            \<comment> \<open>false only for \<open>{leading: false}\<close>\<close>
  th_trailing :: bool
  th_previous :: int
  th_timeout :: "int option"    \<comment> \<open>due time of \<open>later\<close>\<close>
  th_args :: "'a option"
  th_calls :: "(int \<times> 'a option) list"

definition throttle :: "int \<Rightarrow> bool \<Rightarrow> bool \<Rightarrow> 'a throttler" where
  "throttle wait leading trailing =
     \<lparr>th_wait = wait, th_leading = leading, th_trailing = trailing, th_previous = 0,
      th_timeout = None, th_args = None, th_calls = []\<rparr>"

definition th_invoke :: "int \<Rightarrow> 'a throttler \<Rightarrow> 'a throttler" where
  "th_invoke t s = s\<lparr>th_calls := th_calls s @ [(t, th_args s)], th_args := None\<rparr>"

definition th_later :: "int \<Rightarrow> 'a throttler \<Rightarrow> 'a throttler" where
  "th_later t s =
     th_invoke t (s\<lparr>th_previous := (if th_leading s then t else 0), th_timeout := None\<rparr>)"

definition throttled :: "int \<Rightarrow> 'a \<Rightarrow> 'a throttler \<Rightarrow> 'a throttler" where
  "throttled t args s =
     (let s1 = (if th_previous s = 0 \<and> \<not> th_leading s then s\<lparr>th_previous := t\<rparr> else s);
          remaining = th_wait s1 - (t - th_previous s1);
          s2 = s1\<lparr>th_args := Some args\<rparr>
      in if remaining \<le> 0 \<or> th_wait s2 < remaining
         then th_invoke t (s2\<lparr>th_timeout := None, th_previous := t\<rparr>)
         else if th_timeout s2 = None \<and> th_trailing s2 then s2\<lparr>th_timeout := Some (t + remaining)\<rparr>
         else s2)"

definition th_cancel :: "'a throttler \<Rightarrow> 'a throttler" where
  "th_cancel s = s\<lparr>th_timeout := None, th_previous := 0, th_args := None\<rparr>"

text \<open>
  Runs of a throttled function: the wrapper is called, or its timer fires (not before it is due);
  the second component is the time of the last step, and time does not go backwards.
\<close>

inductive th_run :: "'a throttler \<Rightarrow> 'a throttler \<Rightarrow> int \<Rightarrow> bool" for s0 where
  th_start: "th_run s0 s0 0"
| th_call: "th_run s0 s now \<Longrightarrow> now \<le> t \<Longrightarrow> 0 < t \<Longrightarrow> th_run s0 (throttled t a s) t"
| th_fire: "th_run s0 s now \<Longrightarrow> th_timeout s = Some due \<Longrightarrow> due \<le> t \<Longrightarrow> now \<le> t \<Longrightarrow>
     th_run s0 (th_later t s) t"

section \<open>debounce\<close>

record 'a debouncer =
  db_wait :: int
  db_immediate :: bool
  db_previous :: int
  db_timeout :: "int option"
  db_args :: "'a option"
  db_calls :: "(int \<times> 'a option) list"

definition debounce :: "int \<Rightarrow> bool \<Rightarrow> 'a debouncer" where
  "debounce wait immediate =
     \<lparr>db_wait = wait, db_immediate = immediate, db_previous = 0, db_timeout = None,
      db_args = None, db_calls = []\<rparr>"

definition debounced :: "int \<Rightarrow> 'a \<Rightarrow> 'a debouncer \<Rightarrow> 'a debouncer" where
  "debounced t args s =
     (let s1 = s\<lparr>db_args := Some args, db_previous := t\<rparr>
      in if db_timeout s1 = None
         then (let s2 = s1\<lparr>db_timeout := Some (t + db_wait s1)\<rparr>
               in if db_immediate s2 then s2\<lparr>db_calls := db_calls s2 @ [(t, db_args s2)]\<rparr> else s2)
         else s1)"

definition db_later :: "int \<Rightarrow> 'a debouncer \<Rightarrow> 'a debouncer" where
  "db_later t s =
     (let passed = t - db_previous s
      in if passed < db_wait s then s\<lparr>db_timeout := Some (t + (db_wait s - passed))\<rparr>
         else (let s1 = s\<lparr>db_timeout := None\<rparr>;
                   s2 = (if \<not> db_immediate s1 then s1\<lparr>db_calls := db_calls s1 @ [(t, db_args s1)]\<rparr> else s1)
               in s2\<lparr>db_args := None\<rparr>))"

definition db_cancel :: "'a debouncer \<Rightarrow> 'a debouncer" where
  "db_cancel s = s\<lparr>db_timeout := None, db_args := None\<rparr>"

text \<open>Runs, with the times and arguments of the calls of the wrapper.\<close>

inductive db_run :: "'a debouncer \<Rightarrow> 'a debouncer \<Rightarrow> (int \<times> 'a) list \<Rightarrow> int \<Rightarrow> bool" for s0 where
  db_start: "db_run s0 s0 [] 0"
| db_call: "db_run s0 s cs now \<Longrightarrow> now \<le> t \<Longrightarrow> db_run s0 (debounced t a s) (cs @ [(t, a)]) t"
| db_fire: "db_run s0 s cs now \<Longrightarrow> db_timeout s = Some due \<Longrightarrow> due \<le> t \<Longrightarrow> now \<le> t \<Longrightarrow>
     db_run s0 (db_later t s) cs t"

section \<open>Arguments and counters\<close>

lemma restArguments_eq:
  "restArguments n arguments =
     (take n arguments @ replicate (n - length arguments) VUndef, drop n arguments)"
  by (auto simp: restArguments_def nth_or_undef_def nth_append add.commute intro!: nth_equalityI)

lemma partial_args_plain: "partial_args (map Some bound) arguments = bound @ arguments"
  by (induction bound) auto

lemma run_after: "run_calls after_call n rs =
    map (\<lambda>i. if n - 1 \<le> int i then Some (rs ! i) else None) [0..<length rs]"
proof (induction rs arbitrary: n)
  case (Cons r rs)
  have "[0..<length (r # rs)] = 0 # map Suc [0..<length rs]"
    by (simp add: upt_conv_Cons map_Suc_upt del: upt_Suc)
  with Cons show ?case by (auto simp: after_call_def)
qed simp

lemma run_before_memo:
  "n \<le> 1 \<Longrightarrow> run_calls before_call (n, memo) rs = replicate (length rs) memo"
  by (induction rs arbitrary: n) (auto simp: before_call_def Let_def)

lemma run_once: "run_calls before_call once_init rs = replicate (length rs) (Some (hd rs))"
  by (cases rs) (auto simp: once_init_def before_call_def Let_def run_before_memo)

lemma uniqueId_fresh:
  "fst (uniqueId pre m) = fst (uniqueId pre n) \<longleftrightarrow> m = n"
  by (simp add: uniqueId_def dec_inj)

section \<open>Spacing of throttled calls\<close>

definition spaced :: "int \<Rightarrow> (int \<times> 'a) list \<Rightarrow> bool" where
  "spaced w cs = sorted_wrt (\<lambda>x y. fst x + w \<le> fst y) cs"

definition last_time :: "(int \<times> 'a) list \<Rightarrow> int option" where
  "last_time cs = (if cs = [] then None else Some (fst (last cs)))"

definition th_inv :: "int \<Rightarrow> bool \<Rightarrow> 'a throttler \<Rightarrow> int \<Rightarrow> bool" where
  "th_inv w lead s now \<longleftrightarrow>
     th_wait s = w \<and> th_leading s = lead \<and> spaced w (th_calls s) \<and> 0 \<le> now \<and>
     0 \<le> th_previous s \<and> th_previous s \<le> now \<and>
     (\<forall>l. last_time (th_calls s) = Some l \<longrightarrow>
        l \<le> now \<and> (if th_previous s = 0 then \<not> lead else l \<le> th_previous s)) \<and>
     (\<forall>due. th_timeout s = Some due \<longrightarrow> due = th_previous s + w \<and> 0 < now \<and> (lead \<or> th_previous s \<noteq> 0))"

lemma spaced_snoc:
  assumes "0 \<le> w" "spaced w cs" "\<And>l. last_time cs = Some l \<Longrightarrow> l + w \<le> t"
  shows "spaced w (cs @ [(t, a)])"
proof (cases cs rule: rev_cases)
  case Nil
  then show ?thesis by (simp add: spaced_def)
next
  case (snoc ds d)
  with assms have d: "fst d + w \<le> t" by (simp add: last_time_def)
  have "fst x + w \<le> t" if "x \<in> set cs" for x
  proof (cases "x = d")
    case False
    with that snoc assms(2) have "fst x + w \<le> fst d" by (auto simp: spaced_def sorted_wrt_append)
    with d assms(1) show ?thesis by linarith
  qed (use d in simp)
  with assms(2) show ?thesis by (auto simp: spaced_def sorted_wrt_append)
qed

lemma last_time_snoc [simp]: "last_time (cs @ [(t, a)]) = Some t"
  by (simp add: last_time_def)

lemma th_inv_later:
  assumes "0 \<le> w" "th_inv w lead s now" "th_timeout s = Some due" "due \<le> t" "now \<le> t"
  shows "th_inv w lead (th_later t s) t"
proof -
  have "spaced w (th_calls s @ [(t, th_args s)])"
    by (rule spaced_snoc) (use assms in \<open>auto simp: th_inv_def split: if_splits\<close>)
  with assms show ?thesis
    by (auto simp: th_inv_def th_later_def th_invoke_def)
qed

lemma th_inv_call:
  assumes "0 \<le> w" "th_inv w lead s now" "now \<le> t" "0 < t"
  shows "th_inv w lead (throttled t a s) t"
proof -
  define p where "p = (if th_previous s = 0 \<and> \<not> lead then t else th_previous s)"
  have p: "0 \<le> p" "p \<le> t" "\<And>l. last_time (th_calls s) = Some l \<Longrightarrow> l \<le> p"
    using assms by (auto simp: th_inv_def p_def split: if_splits)
  show ?thesis
  proof (cases "w - (t - p) \<le> 0 \<or> w < w - (t - p)")
    case True
    with p have "w \<le> t - p" by linarith
    then have "spaced w (th_calls s @ [(t, Some a)])"
      using assms p by (intro spaced_snoc) (auto simp: th_inv_def dest!: p(3))
    with True assms show ?thesis
      by (auto simp: th_inv_def throttled_def th_invoke_def Let_def p_def split: if_splits)
  next
    case False
    then have "throttled t a s = s\<lparr>th_previous := p, th_args := Some a, th_timeout :=
        (if th_timeout s = None \<and> th_trailing s then Some (p + w) else th_timeout s)\<rparr>"
      using assms(2) by (auto simp: throttled_def Let_def p_def th_inv_def)
    with False assms p show ?thesis by (auto simp: th_inv_def p_def split: if_splits)
  qed
qed

lemma th_run_inv:
  "th_run s0 s now \<Longrightarrow> s0 = throttle w lead trail \<Longrightarrow> 0 \<le> w \<Longrightarrow> th_inv w lead s now"
proof (induction rule: th_run.induct)
  case th_start
  then show ?case by (simp add: th_inv_def throttle_def spaced_def last_time_def)
qed (auto intro: th_inv_call th_inv_later)

section \<open>Debounced calls\<close>

text \<open>While a call waits, the state remembers the time and the arguments of the latest call.\<close>

definition db_inv :: "int \<Rightarrow> 'a debouncer \<Rightarrow> (int \<times> 'a) list \<Rightarrow> int \<Rightarrow> bool" where
  "db_inv w s cs now \<longleftrightarrow>
     db_wait s = w \<and> \<not> db_immediate s \<and>
     (\<forall>c \<in> set cs. fst c \<le> now) \<and>
     (db_timeout s \<noteq> None \<longrightarrow>
        cs \<noteq> [] \<and> db_previous s = fst (last cs) \<and> db_args s = Some (snd (last cs))) \<and>
     (\<forall>(t, a) \<in> set (db_calls s). \<exists>t' a'. (t', a') \<in> set cs \<and> a = Some a' \<and> t' + w \<le> t)"

lemma db_run_inv:
  "db_run s0 s cs now \<Longrightarrow> s0 = debounce w False \<Longrightarrow> db_inv w s cs now"
proof (induction rule: db_run.induct)
  case db_start
  then show ?case by (simp add: db_inv_def debounce_def)
next
  case (db_call s cs now t a)
  then have inv: "db_inv w s cs now" by simp
  then have s': "db_calls (debounced t a s) = db_calls s" "db_wait (debounced t a s) = w"
      "db_previous (debounced t a s) = t" "db_args (debounced t a s) = Some a"
      "\<not> db_immediate (debounced t a s)"
    by (auto simp: debounced_def Let_def db_inv_def)
  moreover have "\<forall>c \<in> set (cs @ [(t, a)]). fst c \<le> t"
    using inv db_call.hyps(2) by (auto simp: db_inv_def)
  moreover have "\<forall>(u, b) \<in> set (db_calls s). \<exists>t' a'. (t', a') \<in> set (cs @ [(t, a)]) \<and> b = Some a' \<and> t' + w \<le> u"
    using inv unfolding db_inv_def by fastforce
  ultimately show ?case by (simp add: db_inv_def)
next
  case (db_fire s cs now due t)
  then have cs: "cs \<noteq> []" "db_previous s = fst (last cs)" "db_args s = Some (snd (last cs))"
    by (auto simp: db_inv_def)
  have inv: "db_inv w s cs now" using db_fire by simp
  then have le: "\<forall>c \<in> set cs. fst c \<le> t" using db_fire.hyps(4) by (auto simp: db_inv_def)
  show ?case
  proof (cases "t - db_previous s < db_wait s")
    case True
    with inv le cs show ?thesis by (auto simp: db_inv_def db_later_def)
  next
    case False
    have "(fst (last cs), snd (last cs)) \<in> set cs" using cs(1) by simp
    moreover have "fst (last cs) + w \<le> t" using False cs inv by (simp add: db_inv_def)
    ultimately have new: "\<exists>t' a'. (t', a') \<in> set cs \<and> db_args s = Some a' \<and> t' + w \<le> t"
      using cs(3) by blast
    have "db_later t s =
        s\<lparr>db_timeout := None, db_calls := db_calls s @ [(t, db_args s)], db_args := None\<rparr>"
      using False inv by (simp add: db_later_def db_inv_def Let_def)
    with inv le new show ?thesis by (simp add: db_inv_def)
  qed
qed

section \<open>Memoised calls\<close>

lemma memoize_call_agrees:
  assumes "\<And>a v. obj_get cache a = Some v \<Longrightarrow> \<exists>args. a = to_str (h args) \<and> v = func args"
    and "\<And>x y. to_str (h x) = to_str (h y) \<Longrightarrow> func x = func y"
  shows "fst (memoize_call func (Some h) cache args) = func args \<and>
    (\<forall>a v. obj_get (snd (memoize_call func (Some h) cache args)) a = Some v \<longrightarrow>
      (\<exists>args. a = to_str (h args) \<and> v = func args))"
proof (cases "obj_get cache (to_str (h args))")
  case None
  with assms(1) show ?thesis
    by (auto simp: memoize_call_def prop_or_undef_def obj_get_put Let_def)
next
  case (Some v)
  with assms(1) obtain args' where "to_str (h args) = to_str (h args')" "v = func args'" by blast
  with assms(2) have "v = func args" by metis
  with Some assms(1) show ?thesis
    by (simp add: memoize_call_def prop_or_undef_def Let_def)
qed

section \<open>Properties\<close>



text \<open>
  A debounced function runs only after a pause: every call of the wrapped function has the
  arguments of a call of the wrapper that is at least \<open>wait\<close> older.
\<close>

theorem debounce_pause:
  assumes "db_run (debounce wait False) s cs now" "(t, a) \<in> set (db_calls s)"
  shows "\<exists>t' a'. (t', a') \<in> set cs \<and> a = Some a' \<and> t' + wait \<le> t"
  using db_run_inv [OF assms(1) refl] assms(2) by (auto simp: db_inv_def)

theorem debounce_pause_witness:
  "\<exists>t' a'. (t', a') \<in> {(20, CHR ''a'')} \<and> Some CHR ''a'' = Some a' \<and> t' + 10 \<le> (31 :: int)"
proof -
  let ?s1 = "debounced 20 CHR ''a'' (debounce 10 False)"
  have due: "db_timeout ?s1 = Some 30" by (simp add: debounced_def debounce_def)
  have "db_run (debounce 10 False) ?s1 ([] @ [(20, CHR ''a'')]) 20"
    by (rule db_call [OF db_start]) simp
  then have run: "db_run (debounce 10 False) (db_later 31 ?s1) ([] @ [(20, CHR ''a'')]) 31"
    by (rule db_fire [OF _ due]) simp_all
  have "(31, Some CHR ''a'') \<in> set (db_calls (db_later 31 ?s1))"
    by (simp add: db_later_def debounced_def debounce_def)
  from debounce_pause [OF run this] show ?thesis by simp
qed

end
