(* ===== verification/Underscore_Text.thy ===== *)
theory Underscore_Text
  imports Underscore_Core JS_Regex
begin

text \<open>
  The text functions of \<open>underscore-1.13.1.js\<close>: HTML escaping and unescaping, and the compiler of
  \<open>_.template\<close> up to the source text it hands to the \<open>Function\<close> constructor.
\<close>

section \<open>Escaping\<close>

definition escapeMap :: "(jstr \<times> jstr) list" where
  "escapeMap =
     [(lit ''&'', lit ''&amp;''), (lit ''<'', lit ''&lt;''), (lit ''>'', lit ''&gt;''),
      ([34], lit ''&quot;''), ([39], lit ''&#x27;''), ([96], lit ''&#x60;'')]"

definition unescapeMap :: "(jstr \<times> jstr) list" where
  "unescapeMap = invert (VObj 0 (map (\<lambda>(k, v). (k, VStr v)) escapeMap))"

text \<open>The alternative \<open>(?:k1|k2|..)\<close> at the head of a string: the first key that is a prefix.\<close>

fun key_at :: "(jstr \<times> jstr) list \<Rightarrow> jstr \<Rightarrow> (jstr \<times> jstr) option" where
  "key_at [] s = None"
| "key_at ((k, v) # m) s = (if k \<noteq> [] \<and> prefix k s then Some (k, v) else key_at m s)"

lemma key_at_Some: "key_at m s = Some (k, v) \<Longrightarrow> k \<noteq> [] \<and> prefix k s"
  by (induction m s rule: key_at.induct) (auto split: if_splits)

function replace_keys :: "(jstr \<times> jstr) list \<Rightarrow> jstr \<Rightarrow> jstr" where
  "replace_keys m s =
     (case key_at m s of
        Some (k, v) \<Rightarrow> v @ replace_keys m (drop (length k) s)
      | None \<Rightarrow> (case s of [] \<Rightarrow> [] | c # cs \<Rightarrow> c # replace_keys m cs))"
  by pat_completeness auto
termination
proof (relation "measure (\<lambda>(m, s). length s)")
  fix m s a k v
  assume "key_at m s = Some a" "(k, v) = a"
  then have "k \<noteq> []" "prefix k s" using key_at_Some by auto
  then show "((m, drop (length k) s), (m, s)) \<in> measure (\<lambda>(m, s). length s)"
    by (cases k; cases s) auto
qed auto

declare replace_keys.simps [simp del]

fun has_key :: "(jstr \<times> jstr) list \<Rightarrow> jstr \<Rightarrow> bool" where
  "has_key m [] = (key_at m [] \<noteq> None)"
| "has_key m (c # cs) = (key_at m (c # cs) \<noteq> None \<or> has_key m cs)"

text \<open>The function that \<open>createEscaper\<close> returns; null and undefined count as the empty string.\<close>

definition createEscaper :: "(jstr \<times> jstr) list \<Rightarrow> jsval \<Rightarrow> jstr" where
  "createEscaper m v =
     (let s = (if nullish v then [] else to_str v)
      in if has_key m s then replace_keys m s else s)"

definition escape_us :: "jsval \<Rightarrow> jstr" where
  "escape_us = createEscaper escapeMap"

definition unescape_us :: "jsval \<Rightarrow> jstr" where
  "unescape_us = createEscaper unescapeMap"

section \<open>Templates\<close>

definition escapes :: "(int \<times> jstr) list" where
  "escapes = [(39, [39]), (92, [92]), (13, lit ''r''), (10, lit ''n''), (8232, lit ''u2028''),
              (8233, lit ''u2029'')]"

definition escapeChar :: "int \<Rightarrow> jstr" where
  "escapeChar c = (case map_of escapes c of Some e \<Rightarrow> 92 # e | None \<Rightarrow> [c])"

definition escape_literal :: "jstr \<Rightarrow> jstr" where
  "escape_literal s = concat (map escapeChar s)"

definition rx_any :: rx where "rx_any = RSet True []"

definition rx_tag :: "string \<Rightarrow> nat \<Rightarrow> rx" where
  "rx_tag opening n = RSeq (RLit (lit opening)) (RSeq (RGroup n (RPlus False rx_any)) (RLit (lit ''%>'')))"

text \<open>\<open>templateSettings\<close> combined into one expression, with the end of the text as last alternative.\<close>

definition template_matcher :: rx where
  "template_matcher = RAlts [rx_tag ''<%-'' 1, rx_tag ''<%='' 2, rx_tag ''<%'' 3, REol]"

definition bareIdentifier :: rx where
  "bareIdentifier =
     (let ws = RSet False [(9, 13), (32, 32), (160, 160), (5760, 5760), (8192, 8202), (8232, 8233),
                           (8239, 8239), (8287, 8287), (12288, 12288), (65279, 65279)];
          w = RSet False [(48, 57), (65, 90), (95, 95), (97, 122)]
      in RSeq RBol (RSeq (RStar True ws)
           (RSeq (RPlus True (RGroup 1 (RAlt w (RSet False [(36, 36)])))) (RSeq (RStar True ws) REol))))"

definition tag_code :: "re_match \<Rightarrow> jstr" where
  "tag_code m =
     (if cap m 1 \<noteq> [] then
        [39] @ lit ''+'' @ [10] @ lit ''((__t=('' @ cap m 1 @ lit ''))==null?'' @ [39, 39] @
        lit '':_.escape(__t))+'' @ [10, 39]
      else if cap m 2 \<noteq> [] then
        [39] @ lit ''+'' @ [10] @ lit ''((__t=('' @ cap m 2 @ lit ''))==null?'' @ [39, 39] @
        lit '':__t)+'' @ [10, 39]
      else if cap m 3 \<noteq> [] then [39, 59, 10] @ cap m 3 @ [10] @ lit ''__p+='' @ [39]
      else [])"

text \<open>
  The callback of \<open>text.replace(matcher, ..)\<close> for every match from position \<open>pos\<close> on; \<open>index\<close> is
  the end of the previous match. An empty match moves on by one character.
\<close>

function template_loop :: "jstr \<Rightarrow> nat \<Rightarrow> nat \<Rightarrow> jstr \<Rightarrow> jstr" where
  "template_loop txt pos index source =
     (if length txt < pos then source
      else (case re_exec_from template_matcher pos (drop pos txt) of
              None \<Rightarrow> source
            | Some m \<Rightarrow>
                let source' = source @ escape_literal (drop index (take (mt_start m) txt)) @ tag_code m;
                    next = (if mt_end m = mt_start m then Suc (mt_end m) else mt_end m)
                in if next \<le> pos then source' else template_loop txt next (mt_end m) source'))"
  by pat_completeness auto
termination
  by (relation "measure (\<lambda>(txt, pos, _, _). Suc (length txt) - pos)") auto

declare template_loop.simps [simp del]

text \<open>The result: the argument name and the source of the compiled function.\<close>

definition template :: "jstr \<Rightarrow> jstr \<Rightarrow> js_error + jstr \<times> jstr" where
  "template txt settings_variable =
     (let source = template_loop txt 0 0 (lit ''__p+='' @ [39]) @ [39, 59, 10];
          prelude = lit ''var __t,__p='' @ [39, 39] @ lit '',__j=Array.prototype.join,'' @
            lit ''print=function(){__p+=__j.call(arguments,'' @ [39, 39] @ lit '');};'' @ [10]
      in if settings_variable \<noteq> [] then
           (if \<not> re_test bareIdentifier settings_variable
            then Inl (PlainError (lit ''variable is not a bare identifier: '' @ settings_variable))
            else Inr (settings_variable, prelude @ source @ lit ''return __p;'' @ [10]))
         else Inr (lit ''obj'', prelude @ lit ''with(obj||{}){'' @ [10] @ source @ lit ''}'' @ [10] @
                     lit ''return __p;'' @ [10]))"

section \<open>Unescaping undoes escaping\<close>

lemma replace_keys_Some:
  "key_at m s = Some (k, v) \<Longrightarrow> replace_keys m s = v @ replace_keys m (drop (length k) s)"
  by (subst replace_keys.simps) simp

lemma replace_keys_None:
  "key_at m (c # cs) = None \<Longrightarrow> replace_keys m (c # cs) = c # replace_keys m cs"
  by (subst replace_keys.simps) simp

lemma replace_keys_Nil: "replace_keys m [] = []"
proof -
  have "key_at m [] = None" by (induction m "[] :: jstr" rule: key_at.induct) auto
  then show ?thesis by (subst replace_keys.simps) simp
qed

lemma no_key_replace: "\<not> has_key m s \<Longrightarrow> replace_keys m s = s"
proof (induction s)
  case (Cons c s)
  then have "key_at m (c # s) = None" by (cases "key_at m (c # s)") auto
  with Cons show ?case by (simp add: replace_keys_None)
qed (simp add: replace_keys_Nil)

lemma createEscaper_str: "createEscaper m (VStr s) = replace_keys m s"
  by (simp add: createEscaper_def nullish_def no_key_replace)

text \<open>The entity of a character, and what unescaping does at its head.\<close>

definition entity :: "int \<Rightarrow> jstr option" where
  "entity c = map_of [(38, lit ''&amp;''), (60, lit ''&lt;''), (62, lit ''&gt;''), (34, lit ''&quot;''),
                      (39, lit ''&#x27;''), (96, lit ''&#x60;'')] c"

lemma key_at_escape: "key_at escapeMap (c # cs) = map_option (\<lambda>e. ([c], e)) (entity c)"
  by (simp add: escapeMap_def entity_def lit_def)

lemma unescapeMap_eq:
  "unescapeMap = [(lit ''&amp;'', [38]), (lit ''&lt;'', [60]), (lit ''&gt;'', [62]),
     (lit ''&quot;'', [34]), (lit ''&#x27;'', [39]), (lit ''&#x60;'', [96])]"
  by code_simp

lemma replace_unescape_entity:
  "entity c = Some e \<Longrightarrow> replace_keys unescapeMap (e @ s) = c # replace_keys unescapeMap s"
proof -
  assume "entity c = Some e"
  then have "key_at unescapeMap (e @ s) = Some (e, [c])"
    by (auto simp: entity_def unescapeMap_eq lit_def split: if_splits)
  then show ?thesis by (simp add: replace_keys_Some)
qed

lemma replace_unescape_plain:
  "entity c = None \<Longrightarrow> replace_keys unescapeMap (c # s) = c # replace_keys unescapeMap s"
proof -
  assume "entity c = None"
  then have "key_at unescapeMap (c # s) = None"
    by (auto simp: entity_def unescapeMap_eq lit_def split: if_splits)
  then show ?thesis by (rule replace_keys_None)
qed

lemma unescape_escape_keys: "replace_keys unescapeMap (replace_keys escapeMap s) = s"
proof (induction s)
  case Nil
  then show ?case by (simp add: replace_keys_Nil)
next
  case (Cons c s)
  show ?case
  proof (cases "entity c")
    case None
    with Cons show ?thesis
      by (simp add: replace_keys_None key_at_escape replace_unescape_plain)
  next
    case (Some e)
    have "replace_keys escapeMap (c # s) = e @ replace_keys escapeMap s"
      using Some replace_keys_Some [of escapeMap "c # s" "[c]" e] by (simp add: key_at_escape)
    with Some Cons show ?thesis by (simp add: replace_unescape_entity)
  qed
qed

text \<open>
  A template whose \<open>variable\<close> setting is not a bare identifier is refused with an error, before
  any code is built from it; every other template compiles to a source text.
\<close>

lemma template_variable_checked:
  "(\<exists>e. template txt var = Inl e) \<longleftrightarrow> var \<noteq> [] \<and> \<not> re_test bareIdentifier var"
  by (simp add: template_def Let_def)

section \<open>Properties\<close>

text \<open>Unescaping an escaped string gives the string back.\<close>

theorem unescape_escape: "unescape_us (VStr (escape_us (VStr s))) = s"
  by (simp add: unescape_us_def escape_us_def createEscaper_str unescape_escape_keys)

end
