(* ===== verification/JQ_Core.thy ===== *)
theory JQ_Core
  imports Underscore_Equal
begin

text \<open>
  \<open>jquery-3.5.1.js\<close>, first part: the type helpers, the array utilities (\<open>each\<close>, \<open>makeArray\<close>,
  \<open>inArray\<close>, \<open>merge\<close>, \<open>grep\<close>, \<open>map\<close>), the set operations of \<open>jQuery.fn\<close> (\<open>get\<close>, \<open>eq\<close>, \<open>slice\<close>,
  \<open>even\<close>, \<open>odd\<close>, \<open>end\<close>) and \<open>jQuery.extend\<close>.

  \<open>extend\<close> writes into its target; the model returns the target after the writes. The objects it
  creates (\<open>clone = {}\<close>, \<open>clone = []\<close>) get the next unused identity, a counter that the model
  threads through. Every object of the model has \<open>Object.prototype\<close> as its prototype, so that
  \<open>isPlainObject\<close> is decided by its first test. Lengths are finite numbers.
\<close>

section \<open>Types\<close>

fun typeof :: "jsval \<Rightarrow> jstr" where
  "typeof VUndef = lit ''undefined''"
| "typeof VNull = lit ''object''"
| "typeof (VBool _) = lit ''boolean''"
| "typeof (VNum _) = lit ''number''"
| "typeof (VStr _) = lit ''string''"
| "typeof (VArr _ _) = lit ''object''"
| "typeof (VObj _ _) = lit ''object''"
| "typeof (VFun _ _ _) = lit ''function''"

text \<open>No DOM node is a value of the model, and functions have no \<open>nodeType\<close>.\<close>

definition jq_isFunction :: "jsval \<Rightarrow> bool" where
  "jq_isFunction v =
     (typeof v = lit ''function'' \<and> typeof (get_prop v (lit ''nodeType'')) \<noteq> lit ''number'')"

definition isWindow :: "jsval \<Rightarrow> bool" where
  "isWindow v = (\<not> nullish v \<and> strict_eq v (get_prop v (lit ''window'')))"

definition class2type :: "(string \<times> jstr) list" where
  "class2type =
     [(''[object Boolean]'', lit ''boolean''), (''[object Number]'', lit ''number''),
      (''[object String]'', lit ''string''), (''[object Function]'', lit ''function''),
      (''[object Array]'', lit ''array''), (''[object Date]'', lit ''date''),
      (''[object RegExp]'', lit ''regexp''), (''[object Object]'', lit ''object''),
      (''[object Error]'', lit ''error''), (''[object Symbol]'', lit ''symbol'')]"

definition toType :: "jsval \<Rightarrow> jstr" where
  "toType v =
     (if nullish v then to_str v
      else if typeof v = lit ''object'' \<or> typeof v = lit ''function''
      then (case map_of class2type (class_tag v) of Some t \<Rightarrow> t | None \<Rightarrow> lit ''object'')
      else typeof v)"

text \<open>\<open>k in v\<close>, a \<open>TypeError\<close> when \<open>v\<close> is a primitive value.\<close>

definition has_in :: "jstr \<Rightarrow> jsval \<Rightarrow> js_error + bool" where
  "has_in k v =
     (if isObject v then Inr (has_own v k \<or> k \<in> set object_proto) else Inl TypeError)"

definition array_like_length :: "jsval \<Rightarrow> js_error + jsval" where
  "array_like_length v =
     (if \<not> truthy v then Inr (VBool False)
      else case has_in (lit ''length'') v of
        Inl e \<Rightarrow> Inl e
      | Inr b \<Rightarrow> Inr (if b then get_prop v (lit ''length'') else VBool False))"

definition jq_isArrayLike :: "jsval \<Rightarrow> js_error + bool" where
  "jq_isArrayLike v =
     (case array_like_length v of
        Inl e \<Rightarrow> Inl e
      | Inr len \<Rightarrow>
          if jq_isFunction v \<or> isWindow v then Inr False
          else if toType v = lit ''array'' \<or> strict_eq len (VInt 0) then Inr True
          else (case len of
              VNum (Fin n) \<Rightarrow> if 0 < n then has_in (int_str (n - 1)) v else Inr False
            | VNum PInf \<Rightarrow> has_in (lit ''Infinity'') v
            | _ \<Rightarrow> Inr False))"

definition isPlainObject :: "jsval \<Rightarrow> bool" where
  "isPlainObject v = (truthy v \<and> class_tag v = ''[object Object]'')"

text \<open>The names \<open>for (name in v)\<close> runs through, with their values.\<close>

fun for_in :: "jsval \<Rightarrow> (jstr \<times> jsval) list" where
  "for_in (VArr _ xs) = map (\<lambda>i. (dec i, xs ! i)) [0..<length xs]"
| "for_in (VStr s) = map (\<lambda>i. (dec i, VStr [s ! i])) [0..<length s]"
| "for_in (VObj _ ps) = ps"
| "for_in _ = []"

definition isEmptyObject :: "jsval \<Rightarrow> bool" where
  "isEmptyObject v = (case for_in v of [] \<Rightarrow> True | _ \<Rightarrow> False)"

section \<open>Array utilities\<close>

definition jq_entries :: "jsval \<Rightarrow> js_error + (jsval \<times> jsval) list" where
  "jq_entries v =
     (case jq_isArrayLike v of
        Inl e \<Rightarrow> Inl e
      | Inr True \<Rightarrow> Inr (map (\<lambda>i. (VInt (int i), get_idx v i)) [0..<loop_len v])
      | Inr False \<Rightarrow> Inr (map (\<lambda>(k, x). (VStr k, x)) (for_in v)))"

text \<open>The callback gets the key and the value; \<open>True\<close> means that it returned \<open>false\<close>.\<close>

fun each_loop :: "('k \<Rightarrow> 'v \<Rightarrow> 's \<Rightarrow> bool \<times> 's) \<Rightarrow> ('k \<times> 'v) list \<Rightarrow> 's \<Rightarrow> 's" where
  "each_loop f [] s = s"
| "each_loop f ((k, v) # es) s =
     (case f k v s of (brk, s') \<Rightarrow> if brk then s' else each_loop f es s')"

definition jq_each :: "jsval \<Rightarrow> (jsval \<Rightarrow> jsval \<Rightarrow> 's \<Rightarrow> bool \<times> 's) \<Rightarrow> 's \<Rightarrow> js_error + 's" where
  "jq_each v f s =
     (case jq_entries v of Inl e \<Rightarrow> Inl e | Inr es \<Rightarrow> Inr (each_loop f es s))"

definition num_len :: "jsval \<Rightarrow> nat" where
  "num_len v = (case to_num v of Fin n \<Rightarrow> nat n | _ \<Rightarrow> 0)"

fun merge_loop :: "jsval \<Rightarrow> nat list \<Rightarrow> jsval list \<Rightarrow> jsval list" where
  "merge_loop second [] first = first"
| "merge_loop second (j # js) first = merge_loop second js (first @ [get_idx second j])"

definition jq_merge :: "jsval list \<Rightarrow> jsval \<Rightarrow> jsval list" where
  "jq_merge first second = merge_loop second [0..<num_len (get_prop second (lit ''length''))] first"

text \<open>\<open>isArrayLike( Object( arr ) )\<close>: a string object has a \<open>length\<close> and its indices.\<close>

definition boxed_array_like :: "jsval \<Rightarrow> js_error + bool" where
  "boxed_array_like v =
     (case v of VStr _ \<Rightarrow> Inr True | VBool _ \<Rightarrow> Inr False | VNum _ \<Rightarrow> Inr False
      | _ \<Rightarrow> jq_isArrayLike v)"

definition makeArray :: "jsval \<Rightarrow> jsval list \<Rightarrow> js_error + jsval list" where
  "makeArray v results =
     (if nullish v then Inr results
      else case boxed_array_like v of
        Inl e \<Rightarrow> Inl e
      | Inr b \<Rightarrow>
          Inr (if b then jq_merge results (case v of VStr s \<Rightarrow> VArr 0 [VStr s] | _ \<Rightarrow> v)
               else results @ [v]))"

text \<open>\<open>Array.prototype.indexOf\<close> with a start position, and \<open>inArray\<close>.\<close>

fun index_from :: "('a \<Rightarrow> bool) \<Rightarrow> nat \<Rightarrow> 'a list \<Rightarrow> int" where
  "index_from P i [] = -1"
| "index_from P i (x # xs) = (if P x then int i else index_from P (Suc i) xs)"

definition arr_indexOf :: "('a \<Rightarrow> bool) \<Rightarrow> 'a list \<Rightarrow> int \<Rightarrow> int" where
  "arr_indexOf P xs i = index_from P (slice_pos (length xs) i) (slice_from xs i)"

definition inArray :: "jsval \<Rightarrow> jsval \<Rightarrow> int option \<Rightarrow> int" where
  "inArray x v i =
     (if nullish v then -1
      else arr_indexOf (\<lambda>y. strict_eq y x) (elems v) (case i of Some n \<Rightarrow> n | None \<Rightarrow> 0))"

fun grep_loop :: "('a \<Rightarrow> nat \<Rightarrow> bool) \<Rightarrow> bool \<Rightarrow> nat \<Rightarrow> 'a list \<Rightarrow> 'a list \<Rightarrow> 'a list" where
  "grep_loop f expect i [] acc = acc"
| "grep_loop f expect i (x # xs) acc =
     (let callbackInverse = (\<not> f x i) in
      grep_loop f expect (Suc i) xs (if callbackInverse \<noteq> expect then acc @ [x] else acc))"

definition grep :: "'a list \<Rightarrow> ('a \<Rightarrow> nat \<Rightarrow> bool) \<Rightarrow> bool \<Rightarrow> 'a list" where
  "grep xs f invt = grep_loop f (\<not> invt) 0 xs []"

definition flat :: "jsval list \<Rightarrow> jsval list" where
  "flat xs = concat (map (\<lambda>x. case x of VArr _ ys \<Rightarrow> ys | _ \<Rightarrow> [x]) xs)"

fun map_loop :: "(jsval \<Rightarrow> jsval \<Rightarrow> jsval) \<Rightarrow> (jsval \<times> jsval) list \<Rightarrow> jsval list \<Rightarrow> jsval list" where
  "map_loop f [] ret = ret"
| "map_loop f ((i, x) # es) ret =
     (let y = f x i in map_loop f es (if nullish y then ret else ret @ [y]))"

definition jq_map :: "jsval \<Rightarrow> (jsval \<Rightarrow> jsval \<Rightarrow> jsval) \<Rightarrow> js_error + jsval list" where
  "jq_map v f =
     (case jq_entries v of Inl e \<Rightarrow> Inl e | Inr es \<Rightarrow> Inr (flat (map_loop f es [])))"

section \<open>Sets of elements\<close>

text \<open>A jQuery object: its elements and the object it was made from (\<open>prevObject\<close>).\<close>

datatype jqset = JQ (els: "jsval list") (prevObject: "jqset option")

definition jq_empty :: jqset where
  "jq_empty = JQ [] None"

definition pushStack :: "jqset \<Rightarrow> jsval list \<Rightarrow> jqset" where
  "pushStack s xs = JQ (jq_merge (els jq_empty) (VArr 0 xs)) (Some s)"

definition set_get :: "jqset \<Rightarrow> int option \<Rightarrow> jsval list + jsval" where
  "set_get s num =
     (case num of
        None \<Rightarrow> Inl (els s)
      | Some n \<Rightarrow>
          let k = (if n < 0 then n + int (length (els s)) else n)
          in Inr (if 0 \<le> k then nth_or_undef (els s) (nat k) else VUndef))"

definition set_map :: "jqset \<Rightarrow> (nat \<Rightarrow> jsval \<Rightarrow> jsval) \<Rightarrow> jqset" where
  "set_map s f =
     pushStack s (flat (map_loop (\<lambda>x i. case i of VNum (Fin n) \<Rightarrow> f (nat n) x | _ \<Rightarrow> VUndef)
       (map (\<lambda>i. (VInt (int i), els s ! i)) [0..<length (els s)]) []))"

definition set_slice :: "jqset \<Rightarrow> int \<Rightarrow> int option \<Rightarrow> jqset" where
  "set_slice s a b =
     pushStack s (case b of None \<Rightarrow> slice_from (els s) a | Some n \<Rightarrow> slice (els s) a n)"

definition set_eq :: "jqset \<Rightarrow> int \<Rightarrow> jqset" where
  "set_eq s i =
     (let len = int (length (els s)); j = i + (if i < 0 then len else 0)
      in pushStack s (if 0 \<le> j \<and> j < len then [els s ! nat j] else []))"

definition set_first :: "jqset \<Rightarrow> jqset" where "set_first s = set_eq s 0"
definition set_last :: "jqset \<Rightarrow> jqset" where "set_last s = set_eq s (-1)"

definition set_even :: "jqset \<Rightarrow> jqset" where
  "set_even s = pushStack s (grep (els s) (\<lambda>_ i. (i + 1) mod 2 \<noteq> 0) False)"

definition set_odd :: "jqset \<Rightarrow> jqset" where
  "set_odd s = pushStack s (grep (els s) (\<lambda>_ i. i mod 2 \<noteq> 0) False)"

definition set_end :: "jqset \<Rightarrow> jqset" where
  "set_end s = (case prevObject s of Some p \<Rightarrow> p | None \<Rightarrow> jq_empty)"

section \<open>extend\<close>

text \<open>
  \<open>target[ name ] = v\<close>. Writing past the end of an array makes it longer; named properties of
  arrays are outside the model.
\<close>

fun put_prop :: "jstr \<Rightarrow> jsval \<Rightarrow> jsval \<Rightarrow> jsval" where
  "put_prop k v (VObj i ps) = VObj i (obj_put k v ps)"
| "put_prop k v (VArr i xs) =
     (if index_key k then
        let n = dec_val k in
        VArr i ((xs @ replicate (Suc n - length xs) VUndef)[n := v])
      else VArr i xs)"
| "put_prop k v t = t"

text \<open>\<open>for ( name in options )\<close>, with the recursive call of a deep copy.\<close>

function (sequential) extend_loop :: "bool \<Rightarrow> (jstr \<times> jsval) list \<Rightarrow> jsval \<Rightarrow> nat \<Rightarrow> jsval \<times> nat" where
  "extend_loop deep [] target n = (target, n)"
| "extend_loop deep ((name, copy) # es) target n =
     (if name = lit ''__proto__'' \<or> strict_eq target copy then extend_loop deep es target n
      else if deep \<and> truthy copy \<and> (isPlainObject copy \<or> isArray copy) then
        let src = get_prop target name;
            copyIsArray = isArray copy;
            (clone, n1) =
              (if copyIsArray \<and> \<not> isArray src then (VArr n [], n + 1)
               else if \<not> copyIsArray \<and> \<not> isPlainObject src then (VObj n [], n + 1)
               else (src, n));
            (v, n2) = extend_loop deep (for_in copy) clone n1
        in extend_loop deep es (put_prop name v target) n2
      else if copy \<noteq> VUndef then extend_loop deep es (put_prop name copy target) n
      else extend_loop deep es target n)"
  by pat_completeness auto

definition es_size :: "(jstr \<times> jsval) list \<Rightarrow> nat" where
  "es_size es = sum_list (map (\<lambda>(_, v). Suc (size v)) es)"

lemma es_size_simps [simp]: "es_size [] = 0" "es_size ((k, v) # es) = Suc (size v) + es_size es"
  by (simp_all add: es_size_def)

lemma es_size_for_in:
  "isPlainObject v \<or> isArray v \<Longrightarrow> es_size (for_in v) < Suc (size v)"
proof (cases v)
  case (VArr i xs)
  have "es_size (map (\<lambda>i. (dec i, xs ! i)) [0..<length xs]) = size_list size xs"
  proof -
    have "map (\<lambda>i. Suc (size (xs ! i))) [0..<length xs] = map (\<lambda>x. Suc (size x)) xs"
      by (rule nth_equalityI) auto
    then show ?thesis by (simp add: es_size_def comp_def size_list_conv_sum_list sum_list_Suc)
  qed
  with VArr show ?thesis by simp
next
  case (VObj i ps)
  have "es_size ps \<le> size_list (size_prod (\<lambda>_. 0) size) ps"
    by (induction ps) (auto simp: es_size_def)
  with VObj show ?thesis by simp
qed (simp_all add: isPlainObject_def isArray_def tagTester_def)

termination extend_loop
  by (relation "measure (\<lambda>(deep, es, target, n). es_size es)")
    (auto intro: less_le_trans [OF es_size_for_in])

declare extend_loop.simps(2) [simp del]

definition extend_args :: "bool \<Rightarrow> jsval list \<Rightarrow> jsval \<Rightarrow> nat \<Rightarrow> jsval \<times> nat" where
  "extend_args deep args target n =
     foldl (\<lambda>(t, m) options. if nullish options then (t, m) else extend_loop deep (for_in options) t m)
       (target, n) args"

text \<open>\<open>this_obj\<close> is \<open>this\<close>, the target when only the flag or nothing precedes the single source.\<close>

definition jq_extend :: "jsval \<Rightarrow> jsval list \<Rightarrow> nat \<Rightarrow> jsval \<times> nat" where
  "jq_extend this_obj args n =
     (let arg = nth_or_undef args;
          (target0, n0) = (if truthy (arg 0) then (arg 0, n) else (VObj n [], n + 1));
          (deep, target1, n1, i) =
            (case arg 0 of
               VBool True \<Rightarrow>
                 (if truthy (arg 1) then (True, arg 1, n0, 2) else (True, VObj n0 [], n0 + 1, 2))
             | _ \<Rightarrow> (False, target0, n0, 1));
          (target2, n2) =
            (if typeof target1 \<noteq> lit ''object'' \<and> \<not> jq_isFunction target1 then (VObj n1 [], n1 + 1)
             else (target1, n1))
      in if i = length args then extend_args deep (drop (i - 1) args) this_obj n2
         else extend_args deep (drop i args) target2 n2)"

section \<open>The array utilities as list functions\<close>

lemma grep_loop_eq:
  "grep_loop f expect i xs acc = acc @ map snd (filter (\<lambda>(j, x). f x j = expect) (enumerate i xs))"
  by (induction f expect i xs acc rule: grep_loop.induct) (auto simp: Let_def)

lemma grep_filter: "grep xs (\<lambda>x _. P x) b = filter (\<lambda>x. P x \<noteq> b) xs"
proof -
  have "map snd (filter (\<lambda>(j, x). P x = (\<not> b)) (enumerate i xs)) = filter (\<lambda>x. P x \<noteq> b) xs" for i
    by (induction xs arbitrary: i) auto
  then show ?thesis by (simp add: grep_def grep_loop_eq)
qed

text \<open>\<open>grep\<close> and its inverted form split the list.\<close>

lemma grep_split: "mset (grep xs f False) + mset (grep xs f True) = mset xs"
proof -
  have "mset (grep_loop f True i xs a) + mset (grep_loop f False i xs b) = mset xs + mset a + mset b"
    for i a b by (induction xs arbitrary: i a b) (auto simp: Let_def)
  from this [of 0 "[]" "[]"] show ?thesis by (simp add: grep_def)
qed

lemma jq_merge_arr: "jq_merge xs (VArr i ys) = xs @ ys"
proof -
  have loop: "merge_loop second js xs = xs @ map (get_idx second) js" for second js
    by (induction second js xs rule: merge_loop.induct) auto
  have "map (get_idx (VArr i ys)) [0..<length ys] = ys"
    by (rule nth_equalityI) (auto simp: nth_or_undef_def)
  then show ?thesis by (simp add: jq_merge_def num_len_def loop)
qed

lemma els_pushStack [simp]: "els (pushStack s xs) = xs" "set_end (pushStack s xs) = s"
  by (simp_all add: pushStack_def jq_merge_arr jq_empty_def set_end_def)

lemma even_odd_split: "mset (els (set_even s)) + mset (els (set_odd s)) = mset (els s)"
proof -
  have "grep xs (\<lambda>_ i. (i + 1) mod 2 \<noteq> 0) False = grep xs (\<lambda>_ i. i mod 2 \<noteq> 0) True" for xs :: "jsval list"
  proof -
    have "grep_loop (\<lambda>_ i. (i + 1) mod 2 \<noteq> 0) True k xs a = grep_loop (\<lambda>_ i. i mod 2 \<noteq> 0) False k xs a" for k a
      by (induction xs arbitrary: k a) (auto simp: Let_def mod_Suc)
    then show ?thesis by (simp add: grep_def)
  qed
  then show ?thesis
    using grep_split [of "els s" "\<lambda>_ i. i mod 2 \<noteq> 0"] by (simp add: set_even_def set_odd_def add.commute)
qed

lemma index_from_spec:
  "index_from P i xs = (if \<exists>x \<in> set xs. P x then int (i + length (takeWhile (\<lambda>x. \<not> P x) xs)) else -1)"
  by (induction P i xs rule: index_from.induct) auto

section \<open>Deep copies\<close>

text \<open>The identities of the arrays and objects in a value.\<close>

fun ref_ids :: "jsval \<Rightarrow> nat set" where
  "ref_ids (VArr i xs) = insert i (\<Union>x \<in> set xs. ref_ids x)"
| "ref_ids (VObj i ps) = insert i (\<Union>(k, x) \<in> set ps. ref_ids x)"
| "ref_ids v = {}"

text \<open>
  Values that a deep copy reproduces: no \<open>undefined\<close> (it is not copied) and no property named
  \<open>__proto__\<close> (it is skipped), arrays within the index range.
\<close>

fun copyable :: "jsval \<Rightarrow> bool" where
  "copyable VUndef = False"
| "copyable (VArr i xs) = (int (length xs) < 4294967295 \<and> (\<forall>x \<in> set xs. copyable x))"
| "copyable (VObj i ps) = (obj_ok ps \<and> (\<forall>(k, x) \<in> set ps. k \<noteq> lit ''__proto__'' \<and> copyable x))"
| "copyable v = True"

lemma index_key_dec: "int n < 4294967295 \<Longrightarrow> index_key (dec n)"
proof -
  have "hd (dec n) \<noteq> 48 \<or> n = 0" 
  proof (induction n rule: dec.induct)
    case (1 n)
    have "dec k \<noteq> []" for k using is_digits_dec [of k] by (simp add: is_digits_def)
    with 1 show ?case by (subst dec.simps) (auto simp: hd_append div_eq_0_iff)
  qed
  moreover assume "int n < 4294967295"
  ultimately show ?thesis by (auto simp: index_key_def is_digits_dec dec_val_dec) (simp add: dec.simps)
qed

lemma put_prop_snoc:
  "int (length ys) < 4294967295 \<Longrightarrow> put_prop (dec (length ys)) v (VArr m ys) = VArr m (ys @ [v])"
  by (simp add: index_key_dec dec_val_dec Let_def list_update_append)

text \<open>
  \<open>w\<close> is a deep copy of \<open>x\<close> made with the identities from \<open>n\<close> to \<open>n'\<close>; the copy of a container
  is what the recursive call makes from an empty one.
\<close>

definition copied :: "nat \<Rightarrow> jsval \<Rightarrow> jsval \<Rightarrow> nat \<Rightarrow> bool" where
  "copied n x w n' = (n \<le> n' \<and> same_struct w x \<and> ref_ids w \<subseteq> {n..<n'})"

definition container :: "jsval \<Rightarrow> bool" where
  "container x = (isPlainObject x \<or> isArray x)"

definition blank :: "jsval \<Rightarrow> nat \<Rightarrow> jsval" where
  "blank x n = (if isArray x then VArr n [] else VObj n [])"

lemma container_simps [simp]:
  "container VUndef = False" "container VNull = False" "container (VBool b) = False"
  "container (VNum a) = False" "container (VStr s) = False" "container (VFun i l src) = False"
  "container (VArr i xs)" "container (VObj i ps)"
  "isArray (VArr i xs)" "\<not> isArray (VObj i ps)" "\<not> isArray VUndef"
  "isPlainObject (VObj i ps)" "\<not> isPlainObject (VArr i xs)" "\<not> isPlainObject VUndef"
  by (simp_all add: container_def isPlainObject_def isArray_def tagTester_def)

definition copies :: "jsval \<Rightarrow> bool" where
  "copies x = (container x \<longrightarrow> copyable x \<longrightarrow>
     (\<forall>n. (\<forall>i \<in> ref_ids x. i < n) \<longrightarrow>
       (\<exists>w n'. extend_loop True (for_in x) (blank x n) (Suc n) = (w, n') \<and> copied n x w n')))"

lemma copy_step:
  assumes "copies x" "copyable x" "\<forall>i \<in> ref_ids x. i < n" "name \<noteq> lit ''__proto__''"
    and "\<not> strict_eq target x" "get_prop target name = VUndef"
  shows "\<exists>w n'. extend_loop True ((name, x) # es) target n = extend_loop True es (put_prop name w target) n'
      \<and> copied n x w n'"
proof (cases "container x")
  case True
  then obtain w n' where w: "extend_loop True (for_in x) (blank x n) (Suc n) = (w, n')" "copied n x w n'"
    using assms(1-3) by (auto simp: copies_def)
  have "truthy x" using True by (cases x) auto
  with True w(1) assms(4-) have
    "extend_loop True ((name, x) # es) target n = extend_loop True es (put_prop name w target) n'"
    by (cases x) (auto simp: extend_loop.simps(2) blank_def)
  with w(2) show ?thesis by blast
next
  case False
  then have "extend_loop True ((name, x) # es) target n = extend_loop True es (put_prop name x target) n"
    using assms by (cases x) (auto simp: extend_loop.simps(2) container_def)
  moreover have "copied n x x n" using False assms(2) by (cases x) (auto simp: copied_def)
  ultimately show ?thesis by blast
qed

lemma copied_later: "copied n x w n' \<Longrightarrow> m \<le> n \<Longrightarrow> n' \<le> k \<Longrightarrow> copied m x w k"
  by (auto simp: copied_def)

lemma copy_array:
  assumes "\<And>x. x \<in> set xs \<Longrightarrow> copies x \<and> copyable x \<and> (\<forall>i \<in> ref_ids x. i < n \<and> i \<noteq> m)"
    and "int (length xs) < 4294967295" "length ys + k = length xs"
  shows "\<exists>ws n'. extend_loop True (map (\<lambda>i. (dec i, xs ! i)) [length ys..<length xs]) (VArr m ys) n =
      (VArr m (ys @ ws), n') \<and> n \<le> n' \<and> list_all2 (\<lambda>w x. copied n x w n') ws (drop (length ys) xs)"
  using assms
proof (induction k arbitrary: ys n)
  case 0
  then show ?case by (intro exI [of _ "[]"]) auto
next
  case (Suc k)
  let ?l = "length ys"
  have l: "?l < length xs" using Suc.prems(3) by simp
  let ?x = "xs ! ?l"
  have x: "copies ?x" "copyable ?x" "\<forall>i \<in> ref_ids ?x. i < n \<and> i \<noteq> m"
    using Suc.prems(1) [of ?x] l by auto
  have "\<not> strict_eq (VArr m ys) ?x" using x(3) by (cases ?x) auto
  moreover have "get_prop (VArr m ys) (dec ?l) = VUndef" and "dec ?l \<noteq> lit ''__proto__''"
    using is_digits_dec [of ?l] by (auto simp: nth_or_undef_def dec_val_dec is_digits_def lit_def)
  ultimately obtain w n1 where step:
    "extend_loop True ((dec ?l, ?x) # map (\<lambda>i. (dec i, xs ! i)) [Suc ?l..<length xs]) (VArr m ys) n =
       extend_loop True (map (\<lambda>i. (dec i, xs ! i)) [Suc ?l..<length xs]) (put_prop (dec ?l) w (VArr m ys)) n1"
    "copied n ?x w n1"
    using copy_step x by blast
  have n1: "n \<le> n1" using step(2) by (simp add: copied_def)
  have put: "put_prop (dec ?l) w (VArr m ys) = VArr m (ys @ [w])"
    by (rule put_prop_snoc) (use Suc.prems(2) l in simp)
  have "\<exists>ws n'. extend_loop True (map (\<lambda>i. (dec i, xs ! i)) [length (ys @ [w])..<length xs])
        (VArr m (ys @ [w])) n1 = (VArr m ((ys @ [w]) @ ws), n') \<and> n1 \<le> n' \<and>
      list_all2 (\<lambda>w x. copied n1 x w n') ws (drop (length (ys @ [w])) xs)"
  proof (rule Suc.IH)
    show "copies x \<and> copyable x \<and> (\<forall>i \<in> ref_ids x. i < n1 \<and> i \<noteq> m)" if "x \<in> set xs" for x
      using Suc.prems(1) [OF that] n1 by fastforce
  qed (use Suc.prems in auto)
  then obtain ws n2 where rest:
    "extend_loop True (map (\<lambda>i. (dec i, xs ! i)) [Suc ?l..<length xs]) (VArr m (ys @ [w])) n1 =
       (VArr m (ys @ w # ws), n2)" "n1 \<le> n2"
    "list_all2 (\<lambda>w x. copied n1 x w n2) ws (drop (Suc ?l) xs)" by auto
  have "list_all2 (\<lambda>w x. copied n x w n2) (w # ws) (drop ?l xs)"
    using rest(2,3) step(2) n1 l
    by (auto simp: Cons_nth_drop_Suc [symmetric] intro: copied_later elim: list_all2_mono)
  then show ?case
    using step(1) rest(1,2) put n1 l by (intro exI [of _ "w # ws"] exI [of _ n2]) (simp add: upt_conv_Cons)
qed

definition copied_props :: "nat \<Rightarrow> (jstr \<times> jsval) list \<Rightarrow> (jstr \<times> jsval) list \<Rightarrow> nat \<Rightarrow> (jstr \<times> jsval) list \<Rightarrow> bool" where
  "copied_props n es qs n' qs' = (n \<le> n' \<and> obj_ok qs' \<and>
     (\<forall>k. case map_of es k of
        None \<Rightarrow> obj_get qs' k = obj_get qs k
      | Some x \<Rightarrow> \<exists>w. obj_get qs' k = Some w \<and> copied n x w n'))"

lemma copied_props_Cons:
  assumes "copied_props n1 es (obj_put k w qs) n2 qs'" "copied n x w n1" "k \<notin> fst ` set es"
  shows "copied_props n ((k, x) # es) qs n2 qs'"
proof -
  have le: "n \<le> n1" "n1 \<le> n2" using assms by (auto simp: copied_def copied_props_def)
  have "map_of es k = None" using assms(3) by (simp add: map_of_eq_None_iff)
  with assms(1) have "obj_get qs' k = Some w" by (auto simp: copied_props_def obj_get_put dest: spec [of _ k])
  moreover have "case map_of es j of None \<Rightarrow> obj_get qs' j = obj_get qs j
      | Some x \<Rightarrow> \<exists>w. obj_get qs' j = Some w \<and> copied n x w n2" if "j \<noteq> k" for j
  proof (cases "map_of es j")
    case None
    with assms(1) that show ?thesis by (auto simp: copied_props_def obj_get_put dest!: spec [of _ j])
  next
    case (Some x)
    with assms(1) obtain w where "obj_get qs' j = Some w" "copied n1 x w n2"
      by (auto simp: copied_props_def dest!: spec [of _ j])
    with Some le show ?thesis by (auto intro: copied_later)
  qed
  ultimately show ?thesis
    using assms(1,2) le by (auto simp: copied_props_def intro: copied_later)
qed

lemma copy_object:
  assumes "\<And>k x. (k, x) \<in> set es \<Longrightarrow>
      copies x \<and> copyable x \<and> (\<forall>i \<in> ref_ids x. i < n \<and> i \<noteq> m) \<and> k \<noteq> lit ''__proto__''"
    and "obj_ok es" "obj_ok qs" "fst ` set es \<inter> fst ` set qs = {}"
  shows "\<exists>qs' n'. extend_loop True es (VObj m qs) n = (VObj m qs', n') \<and> copied_props n es qs n' qs'"
  using assms
proof (induction es arbitrary: qs n)
  case Nil
  then show ?case by (auto simp: copied_props_def)
next
  case (Cons e es)
  obtain k x where e: "e = (k, x)" by (cases e)
  have x: "copies x" "copyable x" "\<forall>i \<in> ref_ids x. i < n \<and> i \<noteq> m" "k \<noteq> lit ''__proto__''"
    using Cons.prems(1) [of k x] e by auto
  have k: "k \<notin> fst ` set es" "k \<notin> fst ` set qs" using Cons.prems(2,4) e by (auto simp: obj_ok_def)
  have "\<not> strict_eq (VObj m qs) x" using x(3) by (cases x) auto
  moreover have "get_prop (VObj m qs) k = VUndef"
  proof -
    have "map_of qs k = None" using k(2) by (simp add: map_of_eq_None_iff)
    then show ?thesis by (simp add: prop_or_undef_def obj_get_def)
  qed
  ultimately obtain w n1 where step:
    "extend_loop True ((k, x) # es) (VObj m qs) n = extend_loop True es (VObj m (obj_put k w qs)) n1"
    "copied n x w n1"
    using copy_step [of x n k "VObj m qs" es] x by auto
  have n1: "n \<le> n1" using step(2) by (simp add: copied_def)
  have "\<exists>qs' n'. extend_loop True es (VObj m (obj_put k w qs)) n1 = (VObj m qs', n') \<and>
      copied_props n1 es (obj_put k w qs) n' qs'"
  proof (rule Cons.IH)
    show "copies x \<and> copyable x \<and> (\<forall>i \<in> ref_ids x. i < n1 \<and> i \<noteq> m) \<and> k \<noteq> lit ''__proto__''"
      if "(k, x) \<in> set es" for k x
      using Cons.prems(1) [of k x] that n1 by fastforce
    have "fst ` set (obj_put k w qs) = insert k (fst ` set qs)"
      using k(2) by (simp add: obj_put_def keys_insert_key)
    then show "fst ` set es \<inter> fst ` set (obj_put k w qs) = {}" using Cons.prems(4) k(1) by auto
  qed (use Cons.prems e in \<open>auto simp: obj_ok_def obj_ok_put [unfolded obj_ok_def]\<close>)
  with step k(1) e show ?case by (metis copied_props_Cons)
qed

lemma copied_props_struct:
  assumes "copied_props n ps [] n' qs" "obj_ok ps"
  shows "same_struct (VObj m qs) (VObj j ps)" "ref_ids (VObj m qs) \<subseteq> insert m {n..<n'}"
proof -
  have keys: "fst ` set qs = fst ` set ps"
  proof -
    have "k \<in> fst ` set qs \<longleftrightarrow> k \<in> fst ` set ps" for k
    proof -
      have "k \<in> fst ` set qs \<longleftrightarrow> map_of qs k \<noteq> None" "k \<in> fst ` set ps \<longleftrightarrow> map_of ps k \<noteq> None"
        by (simp_all add: map_of_eq_None_iff)
      with assms(1) show ?thesis
        by (auto simp: copied_props_def obj_get_def split: option.splits dest: spec [of _ k])
    qed
    then show ?thesis by auto
  qed
  moreover have ok: "obj_ok qs" using assms(1) by (simp add: copied_props_def)
  ultimately have "length qs = length ps"
    using assms(2) by (metis distinct_card length_map obj_ok_def set_map)
  moreover have part: "\<exists>x. obj_get ps k = Some x \<and> copied n x w n'" if "(k, w) \<in> set qs" for k w
  proof -
    have "obj_get qs k = Some w" using ok that by (rule obj_get_mem)
    moreover have "k \<in> fst ` set ps" using that unfolding keys [symmetric] by force
    then obtain x where "map_of ps k = Some x" by (cases "map_of ps k") (simp_all add: map_of_eq_None_iff)
    ultimately show ?thesis
      using assms(1) by (auto simp: copied_props_def obj_get_def split: option.splits dest!: spec [of _ k])
  qed
  moreover from part have "\<exists>x. obj_get ps k = Some x \<and> same_struct w x" if "(k, w) \<in> set qs" for k w
    using that unfolding copied_def by blast
  ultimately show "same_struct (VObj m qs) (VObj j ps)" by auto
  have "ref_ids w \<subseteq> {n..<n'}" if "(k, w) \<in> set qs" for k w
    using part [OF that] unfolding copied_def by blast
  then show "ref_ids (VObj m qs) \<subseteq> insert m {n..<n'}" by fastforce
qed

lemma copies_all: "copies x"
proof (induction x)
  case (VArr i xs)
  show ?case unfolding copies_def
  proof (intro impI allI)
    fix n assume p: "copyable (VArr i xs)" "\<forall>i \<in> ref_ids (VArr i xs). i < n"
    have "\<exists>ws n'. extend_loop True (map (\<lambda>i. (dec i, xs ! i)) [length ([] :: jsval list)..<length xs]) (VArr n []) (Suc n) =
        (VArr n ([] @ ws), n') \<and> Suc n \<le> n' \<and> list_all2 (\<lambda>w x. copied (Suc n) x w n') ws (drop (length ([] :: jsval list)) xs)"
    proof (rule copy_array [where k = "length xs"])
      show "copies x \<and> copyable x \<and> (\<forall>i \<in> ref_ids x. i < Suc n \<and> i \<noteq> n)" if "x \<in> set xs" for x
        using VArr that p by fastforce
    qed (use p in auto)
    then obtain ws n' where w: "extend_loop True (for_in (VArr i xs)) (VArr n []) (Suc n) = (VArr n ws, n')"
      "Suc n \<le> n'" "list_all2 (\<lambda>w x. copied (Suc n) x w n') ws xs" by auto
    have "list_all2 same_struct ws xs" using w(3) by (rule list_all2_mono) (simp add: copied_def)
    moreover have "ref_ids w \<subseteq> {n..<n'}" if "w \<in> set ws" for w
    proof -
      from that obtain j where "j < length ws" "w = ws ! j" by (auto simp: in_set_conv_nth)
      with w(3) have "copied (Suc n) (xs ! j) w n'" by (auto simp: list_all2_conv_all_nth)
      then show ?thesis by (auto simp: copied_def)
    qed
    ultimately have "copied n (VArr i xs) (VArr n ws) n'" using w(2) by (auto simp: copied_def)
    with w(1) show "\<exists>w n'. extend_loop True (for_in (VArr i xs)) (blank (VArr i xs) n) (Suc n) = (w, n') \<and>
        copied n (VArr i xs) w n'" by (auto simp: blank_def)
  qed
next
  case (VObj i ps)
  show ?case unfolding copies_def
  proof (intro impI allI)
    fix n assume p: "copyable (VObj i ps)" "\<forall>i \<in> ref_ids (VObj i ps). i < n"
    have "\<exists>qs' n'. extend_loop True ps (VObj n []) (Suc n) = (VObj n qs', n') \<and> copied_props (Suc n) ps [] n' qs'"
    proof (rule copy_object)
      show "copies x \<and> copyable x \<and> (\<forall>i \<in> ref_ids x. i < Suc n \<and> i \<noteq> n) \<and> k \<noteq> lit ''__proto__''"
        if "(k, x) \<in> set ps" for k x
        using VObj [OF that, of x] that p by fastforce
    qed (use p in \<open>auto simp: obj_ok_def\<close>)
    then obtain qs n' where q: "extend_loop True ps (VObj n []) (Suc n) = (VObj n qs, n')"
      "copied_props (Suc n) ps [] n' qs" by blast
    have "copied n (VObj i ps) (VObj n qs) n'"
    proof -
      have "obj_ok ps" using p(1) by simp
      note st = copied_props_struct [OF q(2) this]
      have "Suc n \<le> n'" using q(2) by (simp add: copied_props_def)
      moreover have "ref_ids (VObj n qs) \<subseteq> {n..<n'}" using st(2) [of n] \<open>Suc n \<le> n'\<close> by fastforce
      ultimately show ?thesis using st(1) [of n i] unfolding copied_def by auto
    qed
    with q(1) show "\<exists>w n'. extend_loop True (for_in (VObj i ps)) (blank (VObj i ps) n) (Suc n) = (w, n') \<and>
        copied n (VObj i ps) w n'" by (auto simp: blank_def)
  qed
qed (simp_all add: copies_def)

text \<open>Without the flag only the first level is copied: the source's defined properties win.\<close>

lemma extend_shallow_get:
  assumes "obj_ok ps" "\<forall>(k, x) \<in> set ps. k \<noteq> lit ''__proto__'' \<and> \<not> strict_eq (VObj m []) x"
  shows "\<exists>qs'. extend_loop False ps (VObj m qs) n = (VObj m qs', n) \<and>
    (\<forall>k. obj_get qs' k =
       (case obj_get ps k of Some x \<Rightarrow> if x = VUndef then obj_get qs k else Some x | None \<Rightarrow> obj_get qs k))"
  using assms
proof (induction ps arbitrary: qs)
  case Nil
  then show ?case by (simp add: obj_get_def)
next
  case (Cons p ps)
  obtain k x where p: "p = (k, x)" by (cases p)
  have x: "k \<noteq> lit ''__proto__''" "\<not> strict_eq (VObj m []) x" "k \<notin> fst ` set ps" "obj_ok ps"
    using Cons.prems p by (auto simp: obj_ok_def)
  have k: "obj_get ps k = None" using x(3) by (simp add: obj_get_def map_of_eq_None_iff)
  have ne: "\<not> strict_eq (VObj m qs) x" using x(2) by simp
  let ?qs = "if x = VUndef then qs else obj_put k x qs"
  have "extend_loop False (p # ps) (VObj m qs) n = extend_loop False ps (VObj m ?qs) n"
    using x(1) ne p by (simp add: extend_loop.simps(2))
  moreover obtain qs' where "extend_loop False ps (VObj m ?qs) n = (VObj m qs', n)"
    "\<forall>k. obj_get qs' k =
       (case obj_get ps k of Some x \<Rightarrow> if x = VUndef then obj_get ?qs k else Some x | None \<Rightarrow> obj_get ?qs k)"
    using Cons.IH [of ?qs] x(4) Cons.prems(2) by auto
  moreover have "obj_get (p # ps) j = (if j = k then Some x else obj_get ps j)" for j
    using p by (simp add: obj_get_def)
  ultimately show ?case
    using k by (auto simp: obj_get_put split: option.splits)
qed

section \<open>Well-formed values\<close>

text \<open>Every object of a value, at any depth, has each property once.\<close>

fun wf_val :: "jsval \<Rightarrow> bool" where
  "wf_val (VArr _ xs) = list_all wf_val xs"
| "wf_val (VObj _ ps) = (obj_ok ps \<and> list_all (\<lambda>p. wf_val (snd p)) ps)"
| "wf_val _ = True"

lemma obj_put_set: "set (obj_put k v ps) \<subseteq> insert (k, v) (set ps)"
proof -
  have "set (insert_key k v ps) \<subseteq> insert (k, v) (set ps)"
    by (induction k v ps rule: insert_key.induct) auto
  then show ?thesis by (auto simp: obj_put_def split: if_splits)
qed

lemma wf_get_prop: "wf_val v \<Longrightarrow> wf_val (get_prop v k)"
  by (cases v) (auto simp: nth_or_undef_def prop_or_undef_def list_all_iff obj_get_def
      split: option.splits dest!: map_of_SomeD)

lemma wf_put_prop: "wf_val v \<Longrightarrow> wf_val t \<Longrightarrow> wf_val (put_prop k v t)"
  by (cases t) (auto simp: Let_def list_all_iff obj_ok_put
      dest!: set_update_subset_insert [THEN subsetD] obj_put_set [THEN subsetD])

lemma wf_for_in: "wf_val v \<Longrightarrow> list_all (\<lambda>e. wf_val (snd e)) (for_in v)"
  by (cases v) (auto simp: list_all_iff)

lemma extend_loop_wf:
  "list_all (\<lambda>e. wf_val (snd e)) es \<Longrightarrow> wf_val target \<Longrightarrow> wf_val (fst (extend_loop deep es target n))"
proof (induction deep es target n rule: extend_loop.induct)
  case (2 deep name copy es target n)
  have [simp]: "obj_ok ([] :: (jstr \<times> jsval) list)" by (simp add: obj_ok_def)
  show ?case
  proof (cases "name = lit ''__proto__'' \<or> strict_eq target copy")
    case False
    show ?thesis
    proof (cases "deep \<and> truthy copy \<and> (isPlainObject copy \<or> isArray copy)")
      case True
      with False 2 show ?thesis
        by (auto simp: extend_loop.simps(2) Let_def wf_put_prop wf_for_in wf_get_prop split: prod.splits)
    qed (use False 2 in \<open>auto simp: extend_loop.simps(2) wf_put_prop\<close>)
  qed (use 2 in \<open>simp add: extend_loop.simps(2)\<close>)
qed simp

lemma extend_args_wf:
  "list_all wf_val args \<Longrightarrow> wf_val target \<Longrightarrow> wf_val (fst (extend_args deep args target n))"
  unfolding extend_args_def
proof (induction args arbitrary: target n)
  case (Cons a args)
  then show ?case by (cases "extend_loop deep (for_in a) target n")
    (use extend_loop_wf [OF wf_for_in, of a target deep n] in auto)
qed simp

lemma jq_extend_wf:
  assumes "wf_val this_obj" "list_all wf_val args"
  shows "wf_val (fst (jq_extend this_obj args n))"
proof -
  have arg: "wf_val (nth_or_undef args i)" and rest: "list_all wf_val (drop i args)" for i
    using assms(2) by (auto simp: nth_or_undef_def list_all_iff dest: in_set_dropD)
  have obj: "wf_val (VObj i [])" for i by (simp add: obj_ok_def)
  let ?arg = "nth_or_undef args"
  obtain t0 n0 where 0: "(if truthy (?arg 0) then (?arg 0, n) else (VObj n [], n + 1)) = (t0, n0)" "wf_val t0"
    by (cases "truthy (?arg 0)") (use arg obj in auto)
  define q where "q = (case ?arg 0 of
        VBool True \<Rightarrow> (if truthy (?arg 1) then (True, ?arg 1, n0, 2) else (True, VObj n0 [], n0 + 1, 2))
      | _ \<Rightarrow> (False, t0, n0, 1 :: nat))"
  have "wf_val (fst (snd q))"
    using arg obj 0(2) by (simp add: q_def split: jsval.splits bool.splits)
  then obtain deep t1 n1 i where 1: "q = (deep, t1, n1, i)" "wf_val t1" by (cases q) auto
  obtain t2 n2 where 2: "(if typeof t1 \<noteq> lit ''object'' \<and> \<not> jq_isFunction t1 then (VObj n1 [], n1 + 1)
      else (t1, n1)) = (t2, n2)" "wf_val t2"
    using obj 1(2) by (cases "typeof t1 \<noteq> lit ''object'' \<and> \<not> jq_isFunction t1") auto
  show ?thesis
    unfolding jq_extend_def Let_def 0(1) prod.case q_def [symmetric] 1(1) 2(1)
    using extend_args_wf [OF rest assms(1)] extend_args_wf [OF rest 2(2)] by simp
qed

section \<open>Properties\<close>



end
