(* ===== verification/JQ_Callbacks.thy ===== *)
theory JQ_Callbacks
  imports JQ_Core
begin

text \<open>
  \<open>jquery-3.5.1.js\<close>: \<open>jQuery.Callbacks\<close>, the callback lists that Deferreds, effects and requests
  are built on.

  A \<open>cbs\<close> record holds the variables of one list. Callbacks run while a list fires and may
  operate on any list, also on the one that is firing; a \<open>world\<close> therefore holds all lists (by
  number), the log of the user callbacks that ran, and the \<open>state\<close> variable of a Deferred. A user
  callback is given by the operations it performs when it is called with some data and by
  whether it returns \<open>false\<close>: the parameter \<open>acts\<close> of the definitions. The other callbacks are
  the list methods that Deferreds register. Since callbacks can keep a list firing for ever, the
  loops take fuel, and \<open>None\<close> is a run that did not end within it.
\<close>

section \<open>Options\<close>

text \<open>\<open>s.match( rnothtmlwhite ) || []\<close>\<close>

definition html_white :: "int \<Rightarrow> bool" where
  "html_white c = (c \<in> {32, 9, 13, 10, 12})"

definition nothtmlwhite :: "jstr \<Rightarrow> jstr list" where
  "nothtmlwhite s = words_of html_white s"

definition createOptions :: "jstr \<Rightarrow> (jstr \<times> bool) list" where
  "createOptions options = foldl (\<lambda>obj flag. obj_put flag True obj) [] (nothtmlwhite options)"

section \<open>One list\<close>

datatype dstate = Pending | Resolved | Rejected

datatype cb =
    User nat
  | SetState dstate   \<comment> \<open>\<open>function() { state = stateString }\<close>\<close>
  | DisableCb nat     \<comment> \<open>the method \<open>disable\<close>, \<open>lock\<close> or \<open>fire\<close> of a list\<close>
  | LockCb nat
  | FireCb nat

text \<open>\<open>memory\<close> is \<open>None\<close> for its falsy values, \<open>list\<close> is \<open>None\<close> for the empty string of a spent list.\<close>

record 'd cbs =
  opt_once :: bool
  opt_memory :: bool
  opt_unique :: bool
  opt_stopOnFalse :: bool
  firing :: bool
  memory :: "'d option"
  fired :: bool
  locked :: bool
  cb_list :: "cb list option"
  queue :: "'d list"
  firingIndex :: int

definition Callbacks :: "jstr \<Rightarrow> 'd cbs" where
  "Callbacks options =
     (let opts = createOptions options; flag = (\<lambda>f. obj_get opts (lit f) = Some True) in
      \<lparr>opt_once = flag ''once'', opt_memory = flag ''memory'', opt_unique = flag ''unique'',
       opt_stopOnFalse = flag ''stopOnFalse'', firing = False, memory = None, fired = False,
       locked = False, cb_list = Some [], queue = [], firingIndex = -1\<rparr>)"

text \<open>An argument of \<open>add\<close>: a function, an array-like of arguments, or something that is ignored.\<close>

datatype arg = Fn cb | Args "arg list" | NoFn

definition list_length :: "'d cbs \<Rightarrow> nat" where
  "list_length s = (case cb_list s of Some xs \<Rightarrow> length xs | None \<Rightarrow> 0)"

definition has_cb :: "cb \<Rightarrow> 'd cbs \<Rightarrow> bool" where
  "has_cb c s = (case cb_list s of Some xs \<Rightarrow> arr_indexOf (\<lambda>x. x = c) xs 0 > -1 | None \<Rightarrow> False)"

definition has_any :: "'d cbs \<Rightarrow> bool" where
  "has_any s = (list_length s > 0)"

fun push_args :: "arg list \<Rightarrow> 'd cbs \<Rightarrow> 'd cbs" where
  "push_args [] s = s"
| "push_args (Fn c # as) s =
     push_args as (if \<not> opt_unique s \<or> \<not> has_cb c s
                   then s\<lparr>cb_list := map_option (\<lambda>xs. xs @ [c]) (cb_list s)\<rparr> else s)"
| "push_args (Args bs # as) s = push_args as (push_args bs s)"
| "push_args (NoFn # as) s = push_args as s"

text \<open>The second component says that the method ends with a call of \<open>fire\<close>.\<close>

definition cb_add :: "arg list \<Rightarrow> 'd cbs \<Rightarrow> 'd cbs \<times> bool" where
  "cb_add as s =
     (case cb_list s of
        None \<Rightarrow> (s, False)
      | Some xs \<Rightarrow>
          (case (memory s, firing s) of
             (Some m, False) \<Rightarrow>
               (push_args as (s\<lparr>firingIndex := int (length xs) - 1, queue := queue s @ [m]\<rparr>), True)
           | _ \<Rightarrow> (push_args as s, False)))"

function remove_loop :: "cb \<Rightarrow> int \<Rightarrow> cb list \<Rightarrow> int \<Rightarrow> cb list \<times> int" where
  "remove_loop c index xs fi =
     (let index' = arr_indexOf (\<lambda>x. x = c) xs index in
      if index' > -1 then
        remove_loop c index' (take (nat index') xs @ drop (Suc (nat index')) xs)
          (if index' \<le> fi then fi - 1 else fi)
      else (xs, fi))"
  by pat_completeness auto

lemma arr_indexOf_less:
  assumes "arr_indexOf P xs i > -1"
  shows "nat (arr_indexOf P xs i) < length xs \<and> P (xs ! nat (arr_indexOf P xs i))"
proof -
  let ?k = "slice_pos (length xs) i"
  let ?ys = "drop ?k xs"
  from assms have ex: "\<exists>x \<in> set ?ys. P x" and
    idx: "arr_indexOf P xs i = int (?k + length (takeWhile (\<lambda>x. \<not> P x) ?ys))"
    by (auto simp: arr_indexOf_def slice_from_def index_from_spec split: if_splits)
  have "\<exists>x \<in> set ys. P x \<Longrightarrow> length (takeWhile (\<lambda>x. \<not> P x) ys) < length ys" for ys
    by (induction ys) auto
  from this [OF ex] have l: "length (takeWhile (\<lambda>x. \<not> P x) ?ys) < length ?ys" .
  then have "P (?ys ! length (takeWhile (\<lambda>x. \<not> P x) ?ys))"
    using nth_length_takeWhile by blast
  with l idx show ?thesis by (auto simp: nat_int_add)
qed

termination remove_loop
  by (relation "measure (\<lambda>(c, index, xs, fi). length xs)") (auto dest: arr_indexOf_less)

declare remove_loop.simps [simp del]

definition remove_one :: "'d cbs \<Rightarrow> cb \<Rightarrow> 'd cbs" where
  "remove_one s c =
     (case cb_list s of
        None \<Rightarrow> s
      | Some xs \<Rightarrow>
          (case remove_loop c 0 xs (firingIndex s) of
             (ys, fi) \<Rightarrow> s\<lparr>cb_list := Some ys, firingIndex := fi\<rparr>))"

definition cb_remove :: "cb list \<Rightarrow> 'd cbs \<Rightarrow> 'd cbs" where
  "cb_remove cs s = foldl remove_one s cs"

definition cb_empty :: "'d cbs \<Rightarrow> 'd cbs" where
  "cb_empty s = (if cb_list s \<noteq> None then s\<lparr>cb_list := Some []\<rparr> else s)"

definition cb_disable :: "'d cbs \<Rightarrow> 'd cbs" where
  "cb_disable s = s\<lparr>locked := True, queue := [], cb_list := None, memory := None\<rparr>"

definition cb_disabled :: "'d cbs \<Rightarrow> bool" where
  "cb_disabled s = (cb_list s = None)"

definition cb_lock :: "'d cbs \<Rightarrow> 'd cbs" where
  "cb_lock s =
     (let s1 = s\<lparr>locked := True, queue := []\<rparr>
      in if memory s = None \<and> \<not> firing s then s1\<lparr>cb_list := None, memory := None\<rparr> else s1)"

definition cb_fireWith :: "'d \<Rightarrow> 'd cbs \<Rightarrow> 'd cbs \<times> bool" where
  "cb_fireWith d s =
     (if \<not> locked s then (s\<lparr>queue := queue s @ [d]\<rparr>, \<not> firing s) else (s, False))"

text \<open>The parts of \<open>fire\<close>: before the loops, the next execution, the step after a callback, the end.\<close>

definition fire_begin :: "'d cbs \<Rightarrow> 'd cbs" where
  "fire_begin s = s\<lparr>locked := locked s \<or> opt_once s, fired := True, firing := True\<rparr>"

definition fire_break :: "bool \<Rightarrow> 'd cbs \<Rightarrow> 'd cbs" where
  "fire_break ret_false s =
     (if ret_false \<and> opt_stopOnFalse s
      then s\<lparr>firingIndex := int (list_length s), memory := None\<rparr> else s)"

definition fire_end :: "'d cbs \<Rightarrow> 'd cbs" where
  "fire_end s =
     (let m = (if opt_memory s then memory s else None);
          s1 = s\<lparr>memory := m, firing := False\<rparr>
      in if locked s then s1\<lparr>cb_list := (if m \<noteq> None then Some [] else None)\<rparr> else s1)"

section \<open>Firing\<close>

record 'd world =
  lists :: "'d cbs list"
  state :: dstate
  log :: "(nat \<times> nat \<times> 'd) list"   \<comment> \<open>the list, the user callback and its data\<close>

datatype 'd op =
    Add nat "arg list"
  | Remove nat "cb list"
  | Empty nat
  | Disable nat
  | Lock nat
  | FireWith nat 'd
  | Assign dstate

definition at_list :: "nat \<Rightarrow> ('d cbs \<Rightarrow> 'd cbs) \<Rightarrow> 'd world \<Rightarrow> 'd world" where
  "at_list k f w = w\<lparr>lists := (lists w)[k := f (lists w ! k)]\<rparr>"

text \<open>A method call up to its \<open>fire()\<close>: the list that has to fire, if any.\<close>

fun do_op :: "'d op \<Rightarrow> 'd world \<Rightarrow> 'd world \<times> nat option" where
  "do_op (Add k as) w =
     (at_list k (\<lambda>s. fst (cb_add as s)) w, if snd (cb_add as (lists w ! k)) then Some k else None)"
| "do_op (Remove k cs) w = (at_list k (cb_remove cs) w, None)"
| "do_op (Empty k) w = (at_list k cb_empty w, None)"
| "do_op (Disable k) w = (at_list k cb_disable w, None)"
| "do_op (Lock k) w = (at_list k cb_lock w, None)"
| "do_op (FireWith k d) w =
     (at_list k (\<lambda>s. fst (cb_fireWith d s)) w,
      if snd (cb_fireWith d (lists w ! k)) then Some k else None)"
| "do_op (Assign st) w = (w\<lparr>state := st\<rparr>, None)"

fun cb_acts :: "(nat \<Rightarrow> 'd \<Rightarrow> 'd op list \<times> bool) \<Rightarrow> cb \<Rightarrow> 'd \<Rightarrow> 'd op list \<times> bool" where
  "cb_acts acts (User u) d = acts u d"
| "cb_acts acts (SetState st) d = ([Assign st], False)"
| "cb_acts acts (DisableCb k) d = ([Disable k], False)"
| "cb_acts acts (LockCb k) d = ([Lock k], False)"
| "cb_acts acts (FireCb k) d = ([FireWith k d], False)"

fun note_call :: "nat \<Rightarrow> cb \<Rightarrow> 'd \<Rightarrow> 'd world \<Rightarrow> 'd world" where
  "note_call k (User u) d w = w\<lparr>log := log w @ [(k, u, d)]\<rparr>"
| "note_call k c d w = w"

text \<open>
  \<open>run_ops\<close> runs a sequence of method calls; \<open>fire_loop\<close> is the inner loop of \<open>fire\<close> and
  \<open>fire_queue\<close> the head of the outer one.
\<close>

fun run_ops :: "(nat \<Rightarrow> 'd \<Rightarrow> 'd op list \<times> bool) \<Rightarrow> nat \<Rightarrow> 'd op list \<Rightarrow> 'd world \<Rightarrow> 'd world option"
  and fire_queue :: "(nat \<Rightarrow> 'd \<Rightarrow> 'd op list \<times> bool) \<Rightarrow> nat \<Rightarrow> nat \<Rightarrow> 'd world \<Rightarrow> 'd world option"
  and fire_loop :: "(nat \<Rightarrow> 'd \<Rightarrow> 'd op list \<times> bool) \<Rightarrow> nat \<Rightarrow> nat \<Rightarrow> 'd world \<Rightarrow> 'd world option"
where
  "run_ops acts 0 ops w = None"
| "run_ops acts (Suc n) [] w = Some w"
| "run_ops acts (Suc n) (p # ps) w =
     (case do_op p w of
        (w1, None) \<Rightarrow> run_ops acts n ps w1
      | (w1, Some k) \<Rightarrow>
          (case fire_queue acts n k (at_list k fire_begin w1) of
             None \<Rightarrow> None
           | Some w2 \<Rightarrow> run_ops acts n ps w2))"
| "fire_queue acts 0 k w = None"
| "fire_queue acts (Suc n) k w =
     (case queue (lists w ! k) of
        [] \<Rightarrow> Some (at_list k fire_end w)
      | d # q \<Rightarrow> fire_loop acts n k (at_list k (\<lambda>s. s\<lparr>memory := Some d, queue := q\<rparr>) w))"
| "fire_loop acts 0 k w = None"
| "fire_loop acts (Suc n) k w =
     (let s = lists w ! k; i = firingIndex s + 1;
          w1 = at_list k (\<lambda>s. s\<lparr>firingIndex := i\<rparr>) w
      in if i < int (list_length s) then
           (case (cb_list s, memory s) of
              (Some cs, Some d) \<Rightarrow>
                let c = cs ! nat i; (ops, ret_false) = cb_acts acts c d
                in (case run_ops acts n ops (note_call k c d w1) of
                      None \<Rightarrow> None
                    | Some w2 \<Rightarrow> fire_loop acts n k (at_list k (fire_break ret_false) w2))
            | _ \<Rightarrow> None)
         else fire_queue acts n k (at_list k (\<lambda>s. s\<lparr>firingIndex := -1\<rparr>) w1))"

section \<open>Single operations\<close>

lemma at_list_simps [simp]:
  "length (lists (at_list k f w)) = length (lists w)" "state (at_list k f w) = state w"
  "log (at_list k f w) = log w"
  by (simp_all add: at_list_def)

lemma at_list_same [simp]: "k < length (lists w) \<Longrightarrow> lists (at_list k f w) ! k = f (lists w ! k)"
  by (simp add: at_list_def)

lemma at_list_other [simp]: "j \<noteq> k \<Longrightarrow> lists (at_list k f w) ! j = lists w ! j"
  by (simp add: at_list_def)

lemma at_list_at_list: "at_list k f (at_list k g w) = at_list k (\<lambda>s. f (g s)) w"
  by (cases "k < length (lists w)") (simp_all add: at_list_def list_update_beyond)

lemma note_call_simps [simp]:
  "lists (note_call k c d w) = lists w" "state (note_call k c d w) = state w"
  by (cases c; simp)+

fun flat_args :: "arg list \<Rightarrow> cb list" where
  "flat_args [] = []"
| "flat_args (Fn c # as) = c # flat_args as"
| "flat_args (Args bs # as) = flat_args bs @ flat_args as"
| "flat_args (NoFn # as) = flat_args as"

lemma has_cb_iff: "has_cb c s \<longleftrightarrow> (\<exists>xs. cb_list s = Some xs \<and> c \<in> set xs)"
  by (auto simp: has_cb_def arr_indexOf_def index_from_spec slice_from_def slice_pos_def
      split: option.splits if_splits)

text \<open>\<open>add\<close> appends the functions it is given, at any nesting; a \<open>unique\<close> list stays free of repeats.\<close>

lemma push_args_frame [simp]:
  "opt_once (push_args as s) = opt_once s" "opt_memory (push_args as s) = opt_memory s"
  "opt_unique (push_args as s) = opt_unique s" "opt_stopOnFalse (push_args as s) = opt_stopOnFalse s"
  "firing (push_args as s) = firing s" "memory (push_args as s) = memory s"
  "fired (push_args as s) = fired s" "locked (push_args as s) = locked s"
  "queue (push_args as s) = queue s" "firingIndex (push_args as s) = firingIndex s"
  "cb_list (push_args as s) = None \<longleftrightarrow> cb_list s = None"
  by (induction as s rule: push_args.induct) (simp_all split: if_splits)

lemma push_args_list:
  "\<not> opt_unique s \<Longrightarrow> cb_list s = Some xs \<Longrightarrow> cb_list (push_args as s) = Some (xs @ flat_args as)"
  by (induction as s arbitrary: xs rule: push_args.induct) auto

lemma push_args_unique:
  "opt_unique s \<Longrightarrow> cb_list s = Some xs \<Longrightarrow> distinct xs \<Longrightarrow>
     \<exists>ys. cb_list (push_args as s) = Some ys \<and> distinct ys \<and> set ys = set xs \<union> set (flat_args as)"
proof (induction as s arbitrary: xs rule: push_args.induct)
  case (2 c as s)
  show ?case
  proof (cases "c \<in> set xs")
    case True
    with 2(1) [of xs] 2(2-4) show ?thesis by (auto simp: has_cb_iff)
  next
    case False
    with 2(1) [of "xs @ [c]"] 2(2-4) show ?thesis by (auto simp: has_cb_iff)
  qed
next
  case (3 bs as s)
  from 3(1) [OF 3(3-5)] obtain ys where
    ys: "cb_list (push_args bs s) = Some ys" "distinct ys" "set ys = set xs \<union> set (flat_args bs)" by blast
  from 3(2) [OF _ ys(1,2)] 3(3) ys(3) show ?case by auto
qed auto

text \<open>
  \<open>remove\<close> takes out every occurrence, and the index of the running callback moves so that the
  callbacks that still have to run are the same, less the removed ones.
\<close>

lemma filter_id_if: "(\<And>x. x \<in> set xs \<Longrightarrow> P x) \<Longrightarrow> filter P xs = xs"
  by (simp add: filter_id_conv)

lemma remove_loop_spec:
  assumes "0 \<le> index" "nat index \<le> length xs" "c \<notin> set (take (nat index) xs)"
    and "-1 \<le> fi"
  shows "case remove_loop c index xs fi of (ys, fi') \<Rightarrow>
    ys = filter (\<lambda>x. x \<noteq> c) xs \<and> drop (nat (fi' + 1)) ys = filter (\<lambda>x. x \<noteq> c) (drop (nat (fi + 1)) xs)
    \<and> -1 \<le> fi' \<and> fi' \<le> fi"
  using assms
proof (induction c index xs fi rule: remove_loop.induct)
  case (1 c index xs fi)
  let ?i = "arr_indexOf (\<lambda>x. x = c) xs index"
  let ?k = "nat index"
  have idx: "?i = (if c \<in> set (drop ?k xs)
      then int (?k + length (takeWhile (\<lambda>x. x \<noteq> c) (drop ?k xs))) else -1)"
    using "1.prems"(1,2) by (simp add: arr_indexOf_def index_from_spec slice_from_def slice_pos_def)
  show ?case
  proof (cases "?i > -1")
    case False
    then have "c \<notin> set (drop ?k xs)" using idx by (auto split: if_splits)
    with "1.prems"(3) have "c \<notin> set xs" by (metis UnE append_take_drop_id set_append)
    then have keep: "filter (\<lambda>x. x \<noteq> c) ys = ys" if "set ys \<subseteq> set xs" for ys
      using that by (intro filter_id_if) auto
    show ?thesis
      using False "1.prems"(4) keep [of xs] keep [of "drop (nat (fi + 1)) xs"]
      by (subst remove_loop.simps) (simp add: Let_def set_drop_subset)
  next
    case True
    define n where "n = nat ?i"
    have n: "n < length xs" "xs ! n = c" using arr_indexOf_less [OF True] n_def by auto
    have pre: "c \<notin> set (take n xs)"
    proof -
      have nn: "n = ?k + length (takeWhile (\<lambda>x. x \<noteq> c) (drop ?k xs))" using idx True n_def by (auto split: if_splits)
      have "take n xs = take ?k xs @ takeWhile (\<lambda>x. x \<noteq> c) (drop ?k xs)"
        unfolding nn by (simp add: take_add takeWhile_eq_take [symmetric])
      with "1.prems"(3) show ?thesis by (auto dest: set_takeWhileD)
    qed
    let ?xs = "take n xs @ drop (Suc n) xs"
    let ?fi = "if ?i \<le> fi then fi - 1 else fi"
    have i: "?i = int n" using True n_def by simp
    have split: "xs = take n xs @ c # drop (Suc n) xs" using id_take_nth_drop [OF n(1)] n(2) by simp
    then have f: "filter (\<lambda>x. x \<noteq> c) ?xs = filter (\<lambda>x. x \<noteq> c) xs"
      by (metis (mono_tags, lifting) filter.simps(2) filter_append)
    have d: "filter (\<lambda>x. x \<noteq> c) (drop (nat (?fi + 1)) ?xs) = filter (\<lambda>x. x \<noteq> c) (drop (nat (fi + 1)) xs)"
    proof (cases "?i \<le> fi")
      case True
      then have "nat (fi + 1) = Suc n + (nat fi - n)" using i by linarith
      moreover have "drop (nat fi) ?xs = drop (nat fi - n) (drop (Suc n) xs)"
        using True i n(1) by (simp add: drop_append)
      ultimately show ?thesis using True i by (simp add: add.commute)
    next
      case False
      then have le: "nat (fi + 1) \<le> n" using i by linarith
      have "drop (nat (fi + 1)) xs = drop (nat (fi + 1)) (take n xs) @ c # drop (Suc n) xs"
        using split le n(1) by (metis drop_append drop0 diff_is_0_eq length_take min.absorb4)
      moreover have "drop (nat (fi + 1)) ?xs = drop (nat (fi + 1)) (take n xs) @ drop (Suc n) xs"
        using le n(1) by simp
      ultimately show ?thesis using False by simp
    qed
    have "case remove_loop c ?i ?xs ?fi of (ys, fi') \<Rightarrow>
        ys = filter (\<lambda>x. x \<noteq> c) ?xs \<and> drop (nat (fi' + 1)) ys = filter (\<lambda>x. x \<noteq> c) (drop (nat (?fi + 1)) ?xs)
        \<and> -1 \<le> fi' \<and> fi' \<le> ?fi"
      using "1.IH" [OF refl True] pre n i "1.prems"(4) by (auto simp: n_def [symmetric])
    then have "case remove_loop c ?i ?xs ?fi of (ys, fi') \<Rightarrow>
        ys = filter (\<lambda>x. x \<noteq> c) xs \<and> drop (nat (fi' + 1)) ys = filter (\<lambda>x. x \<noteq> c) (drop (nat (fi + 1)) xs)
        \<and> -1 \<le> fi' \<and> fi' \<le> fi"
      unfolding f d by (auto split: if_splits)
    then show ?thesis
      using True by (subst remove_loop.simps) (simp add: Let_def n_def)
  qed
qed

section \<open>The invariant of a list\<close>

text \<open>
  Between calls nothing is queued and the index rests at \<open>-1\<close>; a \<open>unique\<close> list has no repeats; a
  \<open>once\<close> list that was fired is locked; a spent list is locked and forgets its data; only lists
  with \<open>memory\<close> remember data when they do not fire.
\<close>

definition cb_inv :: "'d cbs \<Rightarrow> bool" where
  "cb_inv s =
     ((\<not> firing s \<longrightarrow> queue s = [] \<and> firingIndex s = -1 \<and> (opt_memory s \<or> memory s = None)) \<and>
      -1 \<le> firingIndex s \<and>
      (opt_unique s \<longrightarrow> (case cb_list s of Some xs \<Rightarrow> distinct xs | None \<Rightarrow> True)) \<and>
      (opt_once s \<and> fired s \<longrightarrow> locked s) \<and>
      (cb_list s = None \<longrightarrow> locked s \<and> memory s = None \<and> queue s = []))"

lemma cb_inv_Callbacks: "cb_inv (Callbacks options)"
  by (simp add: cb_inv_def Callbacks_def Let_def)

abbreviation no_repeat :: "cb list option \<Rightarrow> bool" where
  "no_repeat l \<equiv> (case l of Some xs \<Rightarrow> distinct xs | None \<Rightarrow> True)"

lemma push_args_distinct:
  assumes "opt_unique s" "no_repeat (cb_list s)"
  shows "no_repeat (cb_list (push_args as s))"
proof (cases "cb_list s")
  case None
  then have "cb_list (push_args as s) = None" by simp
  then show ?thesis by (simp only: option.case)
next
  case (Some xs)
  with assms push_args_unique [OF assms(1) Some, of as] show ?thesis by auto
qed

lemma cb_inv_push_args: "cb_inv s \<Longrightarrow> cb_inv (push_args as s)"
  using push_args_distinct [of s as] by (auto simp: cb_inv_def)

lemma cb_inv_add: "cb_inv s \<Longrightarrow> \<not> snd (cb_add as s) \<Longrightarrow> cb_inv (fst (cb_add as s)) \<and> firing (fst (cb_add as s)) = firing s"
  by (auto simp: cb_add_def cb_inv_push_args split: option.splits bool.splits)

lemma cb_inv_add_fire:
  assumes "cb_inv s" "snd (cb_add as s)"
  shows "cb_inv (fire_begin (fst (cb_add as s))) \<and> \<not> firing s \<and> queue (fst (cb_add as s)) \<noteq> []"
proof -
  from assms(2) obtain xs m where x: "cb_list s = Some xs" "memory s = Some m" "\<not> firing s"
    "fst (cb_add as s) = push_args as (s\<lparr>firingIndex := int (length xs) - 1, queue := queue s @ [m]\<rparr>)"
    by (auto simp: cb_add_def split: option.splits bool.splits)
  let ?s = "s\<lparr>firingIndex := int (length xs) - 1, queue := queue s @ [m]\<rparr>"
  have "no_repeat (cb_list (push_args as ?s))" if "opt_unique s"
    by (rule push_args_distinct) (use that assms(1) in \<open>simp_all add: cb_inv_def\<close>)
  moreover have "cb_list (push_args as ?s) \<noteq> None" using x(1) by (simp del: not_None_eq)
  ultimately show ?thesis using assms(1) x by (simp add: fire_begin_def cb_inv_def)
qed

lemma cb_inv_remove_one: "cb_inv s \<Longrightarrow> cb_inv (remove_one s c) \<and> firing (remove_one s c) = firing s"
proof (cases "cb_list s")
  case (Some xs)
  moreover assume "cb_inv s"
  ultimately show ?thesis
    using remove_loop_spec [of 0 xs c "firingIndex s"]
    by (auto simp: cb_inv_def remove_one_def split: prod.splits option.splits)
qed (simp add: remove_one_def)

lemma cb_inv_remove: "cb_inv s \<Longrightarrow> cb_inv (cb_remove cs s) \<and> firing (cb_remove cs s) = firing s"
  unfolding cb_remove_def by (induction cs arbitrary: s) (auto simp: cb_inv_remove_one)

lemma cb_inv_simple:
  "cb_inv s \<Longrightarrow> cb_inv (cb_empty s) \<and> firing (cb_empty s) = firing s"
  "cb_inv s \<Longrightarrow> cb_inv (cb_disable s) \<and> firing (cb_disable s) = firing s"
  "cb_inv s \<Longrightarrow> cb_inv (cb_lock s) \<and> firing (cb_lock s) = firing s"
  by (auto simp: cb_inv_def cb_empty_def cb_disable_def cb_lock_def Let_def)

lemma cb_inv_fireWith:
  "cb_inv s \<Longrightarrow> \<not> snd (cb_fireWith d s) \<Longrightarrow> cb_inv (fst (cb_fireWith d s)) \<and> firing (fst (cb_fireWith d s)) = firing s"
  "cb_inv s \<Longrightarrow> snd (cb_fireWith d s) \<Longrightarrow>
     cb_inv (fire_begin (fst (cb_fireWith d s))) \<and> \<not> firing s \<and> queue (fst (cb_fireWith d s)) \<noteq> []"
  by (auto simp: cb_inv_def cb_fireWith_def fire_begin_def split: if_splits)

definition lists_inv :: "'d world \<Rightarrow> bool" where
  "lists_inv w = (\<forall>s \<in> set (lists w). cb_inv s)"

definition flags :: "'d world \<Rightarrow> bool list" where
  "flags w = map firing (lists w)"

lemma flags_at_list: "flags (at_list k f w) = (flags w)[k := firing (f (lists w ! k))]"
  by (simp add: flags_def at_list_def map_update)

lemma flags_sel [simp]: "length (flags w) = length (lists w)" "k < length (lists w) \<Longrightarrow> flags w ! k = firing (lists w ! k)"
  by (simp_all add: flags_def)

lemma flags_same: "(k < length (lists w) \<Longrightarrow> firing (f (lists w ! k)) = firing (lists w ! k)) \<Longrightarrow> flags (at_list k f w) = flags w"
  by (cases "k < length (lists w)") (simp_all add: flags_at_list list_update_same_conv list_update_beyond)

lemma lists_inv_at_list:
  "lists_inv w \<Longrightarrow> (k < length (lists w) \<Longrightarrow> cb_inv (f (lists w ! k))) \<Longrightarrow> lists_inv (at_list k f w)"
  by (cases "k < length (lists w)")
    (auto simp: lists_inv_def at_list_def list_update_beyond dest: set_update_subset_insert [THEN subsetD])

lemma lists_inv_nth: "lists_inv w \<Longrightarrow> k < length (lists w) \<Longrightarrow> cb_inv (lists w ! k)"
  by (simp add: lists_inv_def)

lemma do_op_quiet:
  assumes "lists_inv w" "do_op p w = (w1, None)"
  shows "lists_inv w1 \<and> flags w1 = flags w"
proof (cases p)
  case (Add k as)
  with assms show ?thesis
    by (auto intro!: lists_inv_at_list flags_same dest: lists_inv_nth cb_inv_add split: if_splits)
next
  case (FireWith k d)
  with assms show ?thesis
    by (auto intro!: lists_inv_at_list flags_same dest: lists_inv_nth cb_inv_fireWith split: if_splits)
next
  case (Assign st)
  with assms show ?thesis by (auto simp: lists_inv_def flags_def)
qed (use assms in \<open>auto intro!: lists_inv_at_list flags_same dest: lists_inv_nth cb_inv_remove cb_inv_simple\<close>)

lemma do_op_fire:
  assumes "lists_inv w" "do_op p w = (w1, Some k)"
  shows "lists_inv (at_list k fire_begin w1) \<and> (flags w)[k := False] = flags w \<and>
    flags (at_list k fire_begin w1) = (flags w)[k := True] \<and> length (lists w1) = length (lists w) \<and>
    (k < length (lists w) \<longrightarrow> queue (lists w1 ! k) \<noteq> [])"
proof -
  obtain f where f: "w1 = at_list k f w" and
    ok: "k < length (lists w) \<Longrightarrow>
      cb_inv (fire_begin (f (lists w ! k))) \<and> \<not> firing (lists w ! k) \<and> queue (f (lists w ! k)) \<noteq> []"
  proof (cases p)
    case (Add j as)
    with assms have "j = k" "w1 = at_list k (\<lambda>s. fst (cb_add as s)) w" "snd (cb_add as (lists w ! k))"
      by (auto split: if_splits)
    with assms(1) show thesis by (intro that) (auto dest: lists_inv_nth intro!: cb_inv_add_fire)
  next
    case (FireWith j d)
    with assms have "j = k" "w1 = at_list k (\<lambda>s. fst (cb_fireWith d s)) w" "snd (cb_fireWith d (lists w ! k))"
      by (auto split: if_splits)
    with assms(1) show thesis by (intro that) (auto dest: lists_inv_nth intro!: cb_inv_fireWith(2))
  qed (use assms in auto)
  have w: "at_list k fire_begin w1 = at_list k (\<lambda>s. fire_begin (f s)) w" using f by (simp add: at_list_at_list)
  have "lists_inv (at_list k (\<lambda>s. fire_begin (f s)) w)" using assms(1) ok by (blast intro: lists_inv_at_list)
  moreover have "flags (at_list k (\<lambda>s. fire_begin (f s)) w) = (flags w)[k := True]"
    using ok by (cases "k < length (lists w)") (simp_all add: flags_at_list list_update_beyond fire_begin_def)
  moreover have "(flags w)[k := False] = flags w"
    using ok by (cases "k < length (lists w)") (simp_all add: list_update_same_conv list_update_beyond)
  moreover have "k < length (lists w) \<longrightarrow> queue (lists w1 ! k) \<noteq> []" using ok f by simp
  ultimately show ?thesis using w f by simp
qed

text \<open>The invariant holds through every run, and a run leaves each list firing or not as it was.\<close>

lemma fire_inv:
  "cb_inv s \<Longrightarrow> firing s \<Longrightarrow> queue s = d # q \<Longrightarrow> cb_inv (s\<lparr>memory := Some d, queue := q\<rparr>)"
  "cb_inv s \<Longrightarrow> firing s \<Longrightarrow> queue s = [] \<Longrightarrow> firingIndex s = -1 \<Longrightarrow> cb_inv (fire_end s)"
  "cb_inv s \<Longrightarrow> cb_inv (fire_break b s) \<or> \<not> firing s"
  "cb_inv s \<Longrightarrow> firing s \<Longrightarrow> cb_inv (s\<lparr>firingIndex := firingIndex s + 1\<rparr>)"
  "cb_inv s \<Longrightarrow> firing s \<Longrightarrow> cb_inv (s\<lparr>firingIndex := -1\<rparr>)"
  by (auto simp: cb_inv_def fire_end_def fire_break_def Let_def split: option.splits)

lemma run_inv:
  "run_ops acts n ops w = Some w' \<Longrightarrow> lists_inv w \<Longrightarrow> lists_inv w' \<and> flags w' = flags w"
  "fire_queue acts n k w = Some w' \<Longrightarrow> lists_inv w \<Longrightarrow>
     (k < length (lists w) \<Longrightarrow> firing (lists w ! k) \<and> (queue (lists w ! k) = [] \<longrightarrow> firingIndex (lists w ! k) = -1)) \<Longrightarrow>
     lists_inv w' \<and> flags w' = (flags w)[k := False]"
  "fire_loop acts n k w = Some w' \<Longrightarrow> lists_inv w \<Longrightarrow> (k < length (lists w) \<Longrightarrow> firing (lists w ! k)) \<Longrightarrow>
     lists_inv w' \<and> flags w' = (flags w)[k := False]"
proof (induction acts n ops w and acts n k w and acts n k w arbitrary: w' and w' and w'
    rule: run_ops_fire_queue_fire_loop.induct)
  case (3 acts n p ps w)
  obtain w1 r where op: "do_op p w = (w1, r)" by (cases "do_op p w")
  show ?case
  proof (cases r)
    case None
    with 3 op do_op_quiet [of w p w1] show ?thesis by auto
  next
    case (Some k)
    note f = do_op_fire [OF 3(5) op [unfolded Some]]
    from 3(4) op Some obtain w2 where
      w2: "fire_queue acts n k (at_list k fire_begin w1) = Some w2" "run_ops acts n ps w2 = Some w'"
      by (auto split: option.splits)
    have "lists_inv w2 \<and> flags w2 = (flags (at_list k fire_begin w1))[k := False]"
      by (rule 3(2) [OF op [symmetric] Some w2(1)]) (use f in \<open>auto simp: fire_begin_def\<close>)
    with f have "lists_inv w2" "flags w2 = flags w" by auto
    with 3(3) [OF op [symmetric] Some w2(1) w2(2)] show ?thesis by simp
  qed
next
  case (5 acts n k w)
  show ?case
  proof (cases "queue (lists w ! k)")
    case Nil
    with 5 have w': "w' = at_list k fire_end w" by simp
    have "flags w' = (flags w)[k := False]"
      unfolding w' by (simp add: flags_at_list fire_end_def Let_def)
    moreover have "lists_inv w'"
      unfolding w' using 5(3,4) Nil by (intro lists_inv_at_list fire_inv(2)) (auto dest: lists_inv_nth)
    ultimately show ?thesis by simp
  next
    case (Cons d q)
    let ?w = "at_list k (\<lambda>s. s\<lparr>memory := Some d, queue := q\<rparr>) w"
    have "lists_inv ?w"
      using 5(3,4) Cons by (intro lists_inv_at_list fire_inv(1)) (auto dest: lists_inv_nth)
    moreover have "flags ?w = flags w" by (rule flags_same) simp
    ultimately show ?thesis using 5(1) [OF Cons] 5(2,4) Cons by auto
  qed
next
  case (7 acts n k w)
  let ?s = "lists w ! k" and ?i = "firingIndex (lists w ! k) + 1"
  let ?w1 = "at_list k (\<lambda>s. s\<lparr>firingIndex := ?i\<rparr>) w"
  have w1: "lists_inv ?w1" "flags ?w1 = flags w"
    using 7(5,6) by (auto intro!: lists_inv_at_list flags_same fire_inv(4) dest: lists_inv_nth)
  show ?case
  proof (cases "?i < int (list_length ?s)")
    case False
    let ?w2 = "at_list k (\<lambda>s. s\<lparr>firingIndex := -1\<rparr>) ?w1"
    have "lists_inv ?w2"
      using lists_inv_nth [OF w1(1), of k] 7(6) by (intro lists_inv_at_list [OF w1(1)] fire_inv(5)) auto
    moreover have "flags ?w2 = flags w" using w1(2) by (simp add: flags_same)
    moreover have "fire_queue acts n k ?w2 = Some w'" using 7(4) False by (simp add: Let_def)
    ultimately show ?thesis
      using 7(3) [OF refl refl refl False] 7(6) by auto
  next
    case True
    with 7(4) obtain cs d where cs: "cb_list ?s = Some cs" "memory ?s = Some d"
      by (auto simp: Let_def split: option.splits)
    obtain ops b where act: "cb_acts acts (cs ! nat ?i) d = (ops, b)" by (cases "cb_acts acts (cs ! nat ?i) d")
    let ?w2 = "note_call k (cs ! nat ?i) d ?w1"
    from 7(4) True cs act obtain w3 where w3: "run_ops acts n ops ?w2 = Some w3"
      "fire_loop acts n k (at_list k (fire_break b) w3) = Some w'"
      by (auto simp: Let_def split: option.splits)
    have "lists_inv ?w2" "flags ?w2 = flags w" using w1 by (simp_all add: lists_inv_def flags_def)
    then have i3: "lists_inv w3" "flags w3 = flags w"
      using 7(1) [OF refl refl refl True refl cs(1,2) refl refl act [symmetric] w3(1)] by auto
    have len: "length (lists w3) = length (lists w)" using i3(2) by (metis flags_sel(1))
    have fk: "firing (lists w3 ! k)" if "k < length (lists w)"
      using that i3(2) len 7(6) by (metis flags_sel(2))
    have "lists_inv (at_list k (fire_break b) w3)"
      using fk len fire_inv(3) [of "lists w3 ! k" b] lists_inv_nth [OF i3(1), of k]
      by (intro lists_inv_at_list [OF i3(1)]) auto
    moreover have "flags (at_list k (fire_break b) w3) = flags w"
      using i3(2) by (simp add: flags_same fire_break_def)
    moreover have "firing (lists (at_list k (fire_break b) w3) ! k)" if "k < length (lists w)"
      using fk [OF that] that len by (simp add: fire_break_def)
    ultimately show ?thesis
      using 7(2) [OF refl refl refl True refl cs(1,2) refl refl act [symmetric] w3(1,2)] len by auto
  qed
qed auto

section \<open>What a fire runs\<close>

text \<open>The callbacks up to the first one that returns \<open>false\<close>.\<close>

fun upto_false :: "('u \<Rightarrow> bool) \<Rightarrow> 'u list \<Rightarrow> 'u list" where
  "upto_false rf [] = []"
| "upto_false rf (u # us) = u # (if rf u then [] else upto_false rf us)"

definition to_run :: "(nat \<Rightarrow> 'd \<Rightarrow> 'd op list \<times> bool) \<Rightarrow> 'd cbs \<Rightarrow> 'd \<Rightarrow> nat list \<Rightarrow> nat list" where
  "to_run acts s d us = (if opt_stopOnFalse s then upto_false (\<lambda>u. snd (acts u d)) us else us)"

lemma fire_loop_end:
  assumes "k < length (lists w)" "firingIndex (lists w ! k) + 1 \<ge> int (list_length (lists w ! k))"
    and "queue (lists w ! k) = []"
  shows "\<exists>w'. fire_loop acts (Suc (Suc n)) k w = Some w' \<and> log w' = log w"
  using assms by (simp add: Let_def at_list_at_list)

lemma fire_loop_step:
  assumes "cb_list (lists w ! k) = Some cs" "firingIndex (lists w ! k) + 1 = int i" "i < length cs"
    and "memory (lists w ! k) = Some d" "cb_acts acts (cs ! i) d = (ops, b)"
  shows "fire_loop acts (Suc n) k w =
    (case run_ops acts n ops (note_call k (cs ! i) d (at_list k (\<lambda>s. s\<lparr>firingIndex := int i\<rparr>) w)) of
       None \<Rightarrow> None | Some w2 \<Rightarrow> fire_loop acts n k (at_list k (fire_break b) w2))"
  using assms by (subst fire_loop.simps(2)) (simp add: Let_def list_length_def)

definition begun :: "'d \<Rightarrow> 'd cbs \<Rightarrow> 'd cbs" where
  "begun d s = s\<lparr>locked := opt_once s, fired := True, firing := True, memory := Some d, queue := []\<rparr>"

lemma run_fireWith:
  assumes "k < length (lists w)" "\<not> locked (lists w ! k)" "\<not> firing (lists w ! k)" "queue (lists w ! k) = []"
  shows "run_ops acts (Suc (Suc n)) (FireWith k d # ps) w =
    (case fire_loop acts n k (at_list k (begun d) w) of None \<Rightarrow> None | Some w2 \<Rightarrow> run_ops acts (Suc n) ps w2)"
proof -
  let ?w = "at_list k fire_begin (at_list k (\<lambda>s. fst (cb_fireWith d s)) w)"
  have q: "queue (lists ?w ! k) = [d]" using assms by (simp add: cb_fireWith_def fire_begin_def)
  have "at_list k (\<lambda>s. s\<lparr>memory := Some d, queue := []\<rparr>) ?w = at_list k (begun d) w"
    using assms by (simp add: at_list_def cb_fireWith_def fire_begin_def begun_def)
  then have "fire_queue acts (Suc n) k ?w = fire_loop acts n k (at_list k (begun d) w)" using q by simp
  moreover have "do_op (FireWith k d) w = (at_list k (\<lambda>s. fst (cb_fireWith d s)) w, Some k)"
    using assms by (simp add: cb_fireWith_def)
  ultimately show ?thesis by (subst run_ops.simps(3)) (simp del: do_op.simps fire_queue.simps run_ops.simps)
qed

lemma fire_loop_quiet:
  assumes "k < length (lists w)" "cb_list (lists w ! k) = Some (pre @ map User us)"
    and "firingIndex (lists w ! k) = int (length pre) - 1" "memory (lists w ! k) = Some d"
    and "queue (lists w ! k) = []" "\<And>u. u \<in> set us \<Longrightarrow> fst (acts u d) = []"
  shows "\<exists>w'. fire_loop acts (Suc (Suc (length us + n))) k w = Some w' \<and>
    log w' = log w @ map (\<lambda>u. (k, u, d)) (to_run acts (lists w ! k) d us)"
  using assms
proof (induction us arbitrary: pre w)
  case Nil
  then have "firingIndex (lists w ! k) + 1 \<ge> int (list_length (lists w ! k))" by (simp add: list_length_def)
  from fire_loop_end [OF Nil(1) this Nil(5), of acts n] show ?case by (simp add: to_run_def)
next
  case (Cons u us)
  let ?s = "lists w ! k"
  let ?b = "snd (acts u d)"
  let ?w1 = "at_list k (\<lambda>s. s\<lparr>firingIndex := int (length pre)\<rparr>) w"
  let ?w2 = "?w1\<lparr>log := log w @ [(k, u, d)]\<rparr>"
  let ?w3 = "at_list k (fire_break ?b) ?w2"
  have i: "firingIndex ?s + 1 = int (length pre)" using Cons.prems(3) by simp
  have act: "acts u d = ([], ?b)" using Cons.prems(6) [of u] by (cases "acts u d") simp
  have step: "fire_loop acts (Suc (Suc (length (u # us) + n))) k w = fire_loop acts (Suc (Suc (length us + n))) k ?w3"
    using fire_loop_step [OF Cons.prems(2) i _ Cons.prems(4), of acts "[]" ?b "Suc (Suc (length us + n))"] act
    by (simp add: nth_append del: fire_loop.simps)
  show ?case
  proof (cases "?b \<and> opt_stopOnFalse ?s")
    case True
    have "\<exists>w'. fire_loop acts (Suc (Suc (length us + n))) k ?w3 = Some w' \<and> log w' = log ?w3"
      by (rule fire_loop_end) (use Cons.prems True in \<open>simp_all add: fire_break_def list_length_def at_list_def\<close>)
    with step True show ?thesis by (simp add: to_run_def del: fire_loop.simps)
  next
    case False
    then have s: "lists ?w3 ! k = ?s\<lparr>firingIndex := int (length pre)\<rparr>"
      using Cons.prems(1) by (auto simp: fire_break_def at_list_def)
    have "\<exists>w'. fire_loop acts (Suc (Suc (length us + n))) k ?w3 = Some w' \<and>
        log w' = log ?w3 @ map (\<lambda>u. (k, u, d)) (to_run acts (lists ?w3 ! k) d us)"
    proof (rule Cons.IH [of _ "pre @ [User u]"])
      show "k < length (lists ?w3)" using Cons.prems(1) by simp
    qed (use Cons.prems s in \<open>simp_all\<close>)
    with step False s show ?thesis by (auto simp: to_run_def simp del: fire_loop.simps)
  qed
qed

section \<open>Properties\<close>


text \<open>A world with one fresh list.\<close>

definition new_world :: "jstr \<Rightarrow> 'd world" where
  "new_world options = \<lparr>lists = [Callbacks options], state = Pending, log = []\<rparr>"

definition greet :: "nat \<Rightarrow> nat \<Rightarrow> nat op list \<times> bool" where
  "greet u d = (if u = 0 then [Add 0 [Fn (User 1)], FireWith 0 9] else [], False)"

lemma new_world_ok: "lists_inv (new_world options)" "flags (new_world options) = replicate 1 False"
  by (simp_all add: new_world_def lists_inv_def flags_def cb_inv_Callbacks) (simp add: Callbacks_def Let_def)




end
