(* ===== verification/JQ_Deferred.thy ===== *)
theory JQ_Deferred
  imports JQ_Callbacks
begin

text \<open>
  \<open>jquery-3.5.1.js\<close>: \<open>jQuery.Deferred\<close>. A Deferred is a world with the six callback lists of its
  \<open>tuples\<close>: \<open>progress\<close>, \<open>done\<close> and \<open>fail\<close> callbacks are lists 0, 2 and 4, the handlers that \<open>then\<close>
  registers are lists 1, 3 and 5. Its methods are list operations; \<open>resolve\<close> and \<open>reject\<close> settle
  the state through the callbacks that the constructor registers first.

  The functions that \<open>then\<close> and \<open>pipe\<close> wrap around their arguments are user callbacks here; \<open>JQ_Then\<close>
  describes what those of \<open>then\<close> do to the Deferred that it returns.
\<close>

section \<open>The constructor and the methods\<close>

text \<open>\<open>tuples\<close>: the lists of \<open>notify\<close>, \<open>resolve\<close> and \<open>reject\<close>, callbacks and handlers.\<close>

definition tuples :: "'d cbs list" where
  "tuples =
     [Callbacks (lit ''memory''), Callbacks (lit ''memory''),
      Callbacks (lit ''once memory''), Callbacks (lit ''once memory''),
      Callbacks (lit ''once memory''), Callbacks (lit ''once memory'')]"

text \<open>The first callbacks of a tuple: \<open>i\<close> is its number, \<open>3 - i\<close> the opposite one.\<close>

definition state_cbs :: "nat \<Rightarrow> dstate \<Rightarrow> cb list" where
  "state_cbs i st =
     [SetState st, DisableCb (2 * (3 - i)), DisableCb (2 * (3 - i) + 1), LockCb 0, LockCb 1]"

definition tuple_adds :: "nat \<Rightarrow> dstate option \<Rightarrow> 'd op list" where
  "tuple_adds i stateString =
     (case stateString of Some st \<Rightarrow> [Add (2 * i) (map Fn (state_cbs i st))] | None \<Rightarrow> []) @
     [Add (2 * i) [Fn (FireCb (2 * i + 1))]]"

definition Deferred :: "'d world" where
  "Deferred =
     foldl (\<lambda>w p. fst (do_op p w)) \<lparr>lists = tuples, state = Pending, log = []\<rparr>
       (tuple_adds 0 None @ tuple_adds 1 (Some Resolved) @ tuple_adds 2 (Some Rejected))"

definition deferred_progress :: "arg list \<Rightarrow> 'd op list" where "deferred_progress as = [Add 0 as]"
definition deferred_done :: "arg list \<Rightarrow> 'd op list" where "deferred_done as = [Add 2 as]"
definition deferred_fail :: "arg list \<Rightarrow> 'd op list" where "deferred_fail as = [Add 4 as]"

definition deferred_always :: "arg list \<Rightarrow> 'd op list" where
  "deferred_always as = deferred_done [Args as] @ deferred_fail [Args as]"

definition deferred_notifyWith :: "'d \<Rightarrow> 'd op list" where "deferred_notifyWith d = [FireWith 0 d]"
definition deferred_resolveWith :: "'d \<Rightarrow> 'd op list" where "deferred_resolveWith d = [FireWith 2 d]"
definition deferred_rejectWith :: "'d \<Rightarrow> 'd op list" where "deferred_rejectWith d = [FireWith 4 d]"

text \<open>\<open>then\<close>: the three functions it makes are appended to the handlers.\<close>

definition deferred_then :: "nat \<Rightarrow> nat \<Rightarrow> nat \<Rightarrow> 'd op list" where
  "deferred_then onProgress onFulfilled onRejected =
     [Add 1 [Fn (User onProgress)], Add 3 [Fn (User onFulfilled)], Add 5 [Fn (User onRejected)]]"

text \<open>What user code can do to a Deferred: the operations of these methods, with user callbacks.\<close>

fun api :: "'d op \<Rightarrow> bool" where
  "api (Add k as) = (k < 6 \<and> list_all (\<lambda>c. case c of User _ \<Rightarrow> True | _ \<Rightarrow> False) (flat_args as))"
| "api (FireWith k d) = (k \<in> {0, 2, 4})"
| "api _ = False"

lemmas callbacks_eval = Callbacks_def createOptions_def nothtmlwhite_def lit_def words_of_word
  words_of_sep html_white_def obj_put_def obj_get_def key_before_def index_key_def is_digits_def

lemma Callbacks_memory:
  "Callbacks (lit ''memory'') =
    \<lparr>opt_once = False, opt_memory = True, opt_unique = False, opt_stopOnFalse = False, firing = False,
     memory = None, fired = False, locked = False, cb_list = Some [], queue = [], firingIndex = -1\<rparr>"
  by (simp add: callbacks_eval)

lemma Callbacks_once_memory:
  "Callbacks (lit ''once memory'') =
    \<lparr>opt_once = True, opt_memory = True, opt_unique = False, opt_stopOnFalse = False, firing = False,
     memory = None, fired = False, locked = False, cb_list = Some [], queue = [], firingIndex = -1\<rparr>"
  by (simp add: callbacks_eval)

lemma Deferred_lists:
  "Deferred = \<lparr>lists =
     [(Callbacks (lit ''memory''))\<lparr>cb_list := Some [FireCb 1]\<rparr>, Callbacks (lit ''memory''),
      (Callbacks (lit ''once memory''))\<lparr>cb_list := Some (state_cbs 1 Resolved @ [FireCb 3])\<rparr>,
      Callbacks (lit ''once memory''),
      (Callbacks (lit ''once memory''))\<lparr>cb_list := Some (state_cbs 2 Rejected @ [FireCb 5])\<rparr>,
      Callbacks (lit ''once memory'')], state = Pending, log = []\<rparr>"
  by (simp add: Deferred_def tuples_def tuple_adds_def Callbacks_memory Callbacks_once_memory
      at_list_def cb_add_def state_cbs_def)

section \<open>The invariant\<close>

text \<open>
  Per list and state: a \<open>Free\<close> list holds only user callbacks and the call of its handler list;
  while the Deferred is pending the lists of \<open>resolve\<close> and \<open>reject\<close> wait, idle, with the callbacks
  of the constructor in front; after settling one is \<open>Settled\<close>, locked and past these callbacks,
  and its opposite is \<open>Dead\<close>.
\<close>

datatype role = Free | Waiting | Settled | Dead

fun role_of :: "dstate \<Rightarrow> nat \<Rightarrow> role" where
  "role_of Pending k = (if k < 2 then Free else Waiting)"
| "role_of Resolved k = (if k < 2 \<or> k = 3 then Free else if k = 2 then Settled else Dead)"
| "role_of Rejected k = (if k < 2 \<or> k = 5 then Free else if k = 4 then Settled else Dead)"

definition safe :: "nat \<Rightarrow> cb \<Rightarrow> bool" where
  "safe k c = (case c of User _ \<Rightarrow> True | FireCb j \<Rightarrow> k \<in> {0, 2, 4} \<and> j = Suc k | _ \<Rightarrow> False)"

definition safe_list :: "nat \<Rightarrow> 'd cbs \<Rightarrow> bool" where
  "safe_list k s = (\<forall>cs. cb_list s = Some cs \<longrightarrow> (\<forall>c \<in> set cs. safe k c))"

definition safe_rest :: "nat \<Rightarrow> 'd cbs \<Rightarrow> bool" where
  "safe_rest k s =
     (\<forall>cs j. cb_list s = Some cs \<longrightarrow> j < length cs \<longrightarrow> firingIndex s < int j \<longrightarrow> safe k (cs ! j))"

definition builtin :: "nat \<Rightarrow> cb list" where
  "builtin k = (if k = 2 then state_cbs 1 Resolved else if k = 4 then state_cbs 2 Rejected else [])"

definition idle :: "'d cbs \<Rightarrow> bool" where
  "idle s = (\<not> firing s \<and> memory s = None \<and> queue s = [] \<and> firingIndex s = -1 \<and> \<not> locked s)"

fun role_ok :: "role \<Rightarrow> nat \<Rightarrow> 'd cbs \<Rightarrow> bool" where
  "role_ok Free k s = safe_list k s"
| "role_ok Waiting k s =
     (idle s \<and> opt_once s \<and> (\<exists>cs. cb_list s = Some (builtin k @ cs) \<and> (\<forall>c \<in> set cs. safe k c)))"
| "role_ok Settled k s =
     (locked s \<and> queue s = [] \<and> (if firing s then safe_rest k s else safe_list k s))"
| "role_ok Dead k s = (cb_list s = None \<and> memory s = None \<and> locked s \<and> queue s = [])"

definition list_ok :: "dstate \<Rightarrow> nat \<Rightarrow> 'd cbs \<Rightarrow> bool" where
  "list_ok st k s = (-1 \<le> firingIndex s \<and> \<not> opt_stopOnFalse s \<and> \<not> opt_unique s \<and> role_ok (role_of st k) k s)"

text \<open>The lists whose user callbacks can have run in a state.\<close>

definition ran_ok :: "dstate \<Rightarrow> nat \<Rightarrow> bool" where
  "ran_ok st k = (role_of st k \<in> {Free, Settled})"

definition deferred_inv :: "'d world \<Rightarrow> bool" where
  "deferred_inv w =
     (length (lists w) = 6 \<and> (\<forall>k < 6. list_ok (state w) k (lists w ! k)) \<and>
      (\<forall>(k, u, d) \<in> set (log w). ran_ok (state w) k))"

lemma less_6_cases: "k < 6 \<Longrightarrow> k = 0 \<or> k = 1 \<or> k = 2 \<or> k = 3 \<or> k = 4 \<or> k = (5 :: nat)"
  by linarith

lemma all_less_6: "(\<forall>k < 6. P k) \<longleftrightarrow> P 0 \<and> P 1 \<and> P 2 \<and> P 3 \<and> P 4 \<and> P (5 :: nat)"
  by (auto dest!: less_6_cases)

lemma deferred_inv_Deferred: "deferred_inv Deferred"
  unfolding deferred_inv_def Deferred_lists all_less_6
  by (simp add: list_ok_def Callbacks_memory Callbacks_once_memory idle_def
      safe_list_def safe_def builtin_def)

lemma deferred_inv_at_list:
  assumes "deferred_inv w" "k < 6 \<Longrightarrow> list_ok (state w) k (f (lists w ! k))"
  shows "deferred_inv (at_list k f w)"
proof -
  have "list_ok (state w) j (lists (at_list k f w) ! j)" if "j < 6" for j
    using assms that by (cases "j = k") (auto simp: deferred_inv_def)
  with assms(1) show ?thesis by (simp add: deferred_inv_def)
qed

lemma deferred_inv_list: "deferred_inv w \<Longrightarrow> k < 6 \<Longrightarrow> list_ok (state w) k (lists w ! k)"
  by (simp add: deferred_inv_def)

text \<open>Adding user callbacks keeps the role of a list.\<close>

lemma flat_user_safe:
  "list_all (\<lambda>c. case c of User _ \<Rightarrow> True | _ \<Rightarrow> False) cs \<Longrightarrow> c \<in> set cs \<Longrightarrow> safe k c"
  by (auto simp: list_all_iff safe_def split: cb.splits)

lemma push_args_ok:
  assumes "role_ok r k s" "\<not> opt_unique s" "\<And>c. c \<in> set (flat_args as) \<Longrightarrow> safe k c"
  shows "role_ok r k (push_args as s)"
proof (cases "cb_list s")
  case None
  then have n: "cb_list (push_args as s) = None" by simp
  show ?thesis
    using assms None by (cases r) (auto simp: safe_list_def safe_rest_def n simp del: push_args_frame(11))
next
  case (Some xs)
  note p = push_args_list [OF assms(2) Some, of as]
  show ?thesis
  proof (cases r)
    case Waiting
    with assms Some p show ?thesis by (auto simp: idle_def)
  next
    case Settled
    with assms Some p show ?thesis by (auto simp: safe_list_def safe_rest_def nth_append)
  qed (use assms Some p in \<open>auto simp: safe_list_def\<close>)
qed

text \<open>A run leaves every list firing or not as it was; only the loops of \<open>fire\<close> end a firing.\<close>

lemma flags_other [simp]: "flags (w\<lparr>state := st\<rparr>) = flags w" "flags (note_call k c d w) = flags w"
  by (simp_all add: flags_def)

lemma do_op_flags:
  "do_op p w = (w1, None) \<Longrightarrow> flags w1 = flags w"
  "do_op p w = (w1, Some k) \<Longrightarrow> flags w1 = flags w \<and> (flags w)[k := False] = flags w"
proof -
  have push: "firing (fst (cb_add as s)) = firing s" for as and s :: "'a cbs"
    by (auto simp: cb_add_def split: option.splits bool.splits)
  have rm: "firing (cb_remove cs s) = firing s" for cs and s :: "'a cbs"
    unfolding cb_remove_def
    by (induction cs arbitrary: s) (auto simp: remove_one_def split: option.splits prod.splits)
  show "do_op p w = (w1, None) \<Longrightarrow> flags w1 = flags w"
    by (cases p) (auto intro!: flags_same split: if_splits simp: push rm cb_empty_def cb_disable_def
        cb_lock_def cb_fireWith_def Let_def)
  show "do_op p w = (w1, Some k) \<Longrightarrow> flags w1 = flags w \<and> (flags w)[k := False] = flags w"
    by (cases p; cases "k < length (lists w)")
      (auto intro!: flags_same split: if_splits option.splits bool.splits
        simp: push cb_fireWith_def cb_add_def list_update_same_conv list_update_beyond)
qed

lemma flags_begin: "flags (at_list k fire_begin w) = (flags w)[k := True]"
  by (simp add: flags_at_list fire_begin_def)

lemma run_flags:
  "run_ops acts n ops w = Some w' \<Longrightarrow> flags w' = flags w"
  "fire_queue acts n k w = Some w' \<Longrightarrow> flags w' = (flags w)[k := False]"
  "fire_loop acts n k w = Some w' \<Longrightarrow> flags w' = (flags w)[k := False]"
proof (induction acts n ops w and acts n k w and acts n k w arbitrary: w' and w' and w'
    rule: run_ops_fire_queue_fire_loop.induct)
  case (3 acts n p ps w)
  obtain w1 r where op: "do_op p w = (w1, r)" by (cases "do_op p w")
  show ?case
  proof (cases r)
    case None
    with 3 op show ?thesis by (auto simp: do_op_flags(1))
  next
    case (Some k)
    with 3 op do_op_flags(2) [of p w w1 k] show ?thesis
      by (auto simp: flags_begin split: option.splits)
  qed
next
  case (5 acts n k w)
  have "flags (at_list k (\<lambda>s. s\<lparr>memory := m, queue := q\<rparr>) w) = flags w" for m q
    by (rule flags_same) simp
  with 5 show ?case
    by (auto simp: flags_at_list fire_end_def Let_def split: list.splits)
next
  case (7 acts n k w)
  let ?i = "firingIndex (lists w ! k) + 1"
  let ?w1 = "at_list k (\<lambda>s. s\<lparr>firingIndex := ?i\<rparr>) w"
  have w1: "flags ?w1 = flags w" by (rule flags_same) simp
  have w2: "flags (at_list k (\<lambda>s. s\<lparr>firingIndex := -1\<rparr>) v) = flags v"
    "flags (at_list k (fire_break b) v) = flags v" for b v
    by (rule flags_same; simp add: fire_break_def)+
  show ?case
  proof (cases "?i < int (list_length (lists w ! k))")
    case False
    then have "fire_queue acts n k (at_list k (\<lambda>s. s\<lparr>firingIndex := -1\<rparr>) ?w1) = Some w'"
      using 7(4) by (simp add: Let_def)
    from 7(3) [OF refl refl refl False this] show ?thesis by (simp add: w1 w2)
  next
    case True
    with 7(4) obtain cs d where cs: "cb_list (lists w ! k) = Some cs" "memory (lists w ! k) = Some d"
      by (auto simp: Let_def split: option.splits)
    obtain ops b where act: "cb_acts acts (cs ! nat ?i) d = (ops, b)" by (cases "cb_acts acts (cs ! nat ?i) d")
    from 7(4) True cs act obtain w3 where w3: "run_ops acts n ops (note_call k (cs ! nat ?i) d ?w1) = Some w3"
      "fire_loop acts n k (at_list k (fire_break b) w3) = Some w'"
      by (auto simp: Let_def split: option.splits)
    from 7(1) [OF refl refl refl True refl cs refl refl act [symmetric] w3(1)]
      7(2) [OF refl refl refl True refl cs refl refl act [symmetric] w3(1,2)]
    show ?thesis by (simp add: w1 w2)
  qed
qed auto

text \<open>Once settled, the state stays.\<close>

definition stays :: "dstate \<Rightarrow> dstate \<Rightarrow> bool" where
  "stays st st' = (st = Pending \<or> st' = st)"

lemma stays_trans [trans]: "stays a b \<Longrightarrow> stays b c \<Longrightarrow> stays a c"
  by (auto simp: stays_def)

lemma ran_ok_stays: "ran_ok st k \<Longrightarrow> stays st st' \<Longrightarrow> ran_ok st' k"
  by (cases st; cases st') (auto simp: ran_ok_def stays_def split: if_splits)

definition op_ok :: "dstate \<Rightarrow> 'd op \<Rightarrow> bool" where
  "op_ok st p = (api p \<or> (\<exists>k d. p = FireWith k d \<and> k < 6 \<and> ran_ok st k))"

lemma op_ok_stays: "op_ok st p \<Longrightarrow> stays st st' \<Longrightarrow> op_ok st' p"
  by (auto simp: op_ok_def dest: ran_ok_stays)

text \<open>A list that is about to take its next execution from the queue.\<close>

definition ready :: "nat \<Rightarrow> 'd world \<Rightarrow> bool" where
  "ready k w =
     (k < 6 \<and> length (lists w) = 6 \<and> firing (lists w ! k) \<and> ran_ok (state w) k \<and>
      (case queue (lists w ! k) of
         [] \<Rightarrow> deferred_inv (at_list k fire_end w)
       | d # q \<Rightarrow> deferred_inv (at_list k (\<lambda>s. s\<lparr>memory := Some d, queue := q\<rparr>) w)))"

lemma list_ok_run:
  assumes "list_ok st k s" "ran_ok st k"
  shows "firing s \<Longrightarrow> list_ok st k (s\<lparr>firingIndex := firingIndex s + 1\<rparr>)"
    and "firing s \<Longrightarrow> queue s = [] \<Longrightarrow> list_ok st k (fire_end (s\<lparr>firingIndex := -1\<rparr>))"
    and "firing s \<Longrightarrow> queue s = d # q \<Longrightarrow> list_ok st k (s\<lparr>firingIndex := -1, memory := Some d, queue := q\<rparr>)"
    and "cb_list s = Some cs \<Longrightarrow> firing s \<Longrightarrow> firingIndex s + 1 = int i \<Longrightarrow> i < length cs \<Longrightarrow> safe k (cs ! i)"
    and "\<not> opt_stopOnFalse s"
  using assms
  by (auto simp: list_ok_def ran_ok_def safe_list_def safe_rest_def fire_end_def Let_def split: if_splits)

section \<open>Single operations keep the invariant\<close>

lemma add_cases:
  "snd (cb_add as s) \<Longrightarrow> \<exists>xs m. cb_list s = Some xs \<and> memory s = Some m \<and> \<not> firing s \<and>
     fst (cb_add as s) = push_args as (s\<lparr>firingIndex := int (length xs) - 1, queue := queue s @ [m]\<rparr>)"
  "\<not> snd (cb_add as s) \<Longrightarrow> fst (cb_add as s) = s \<or> fst (cb_add as s) = push_args as s"
  by (auto simp: cb_add_def split: option.splits bool.splits)

lemma list_ok_push:
  assumes "list_ok st k s" "list_all (\<lambda>c. case c of User _ \<Rightarrow> True | _ \<Rightarrow> False) (flat_args as)"
  shows "list_ok st k (push_args as s)"
  using assms push_args_ok [of "role_of st k" k s as] flat_user_safe [OF assms(2)]
  by (auto simp: list_ok_def)

lemma add_inv:
  assumes "deferred_inv w" "api (Add k as)" "do_op (Add k as) w = (w1, r)"
  shows "state w1 = state w \<and> (case r of None \<Rightarrow> deferred_inv w1 | Some j \<Rightarrow> ready j (at_list j fire_begin w1))"
proof (cases "snd (cb_add as (lists w ! k))")
  case False
  let ?s = "lists w ! k"
  have "list_ok (state w) k (fst (cb_add as ?s))"
    using add_cases(2) [OF False] deferred_inv_list [OF assms(1), of k] list_ok_push [of "state w" k ?s as] assms(2) by auto
  then have "deferred_inv (at_list k (\<lambda>s. fst (cb_add as s)) w)" by (rule deferred_inv_at_list [OF assms(1)])
  with False assms(3) show ?thesis by auto
next
  case True
  let ?s = "lists w ! k"
  have k: "k < 6" "length (lists w) = 6" using assms(1,2) by (auto simp: deferred_inv_def)
  obtain xs m where a: "cb_list ?s = Some xs" "memory ?s = Some m" "\<not> firing ?s"
    "fst (cb_add as ?s) = push_args as (?s\<lparr>firingIndex := int (length xs) - 1, queue := queue ?s @ [m]\<rparr>)"
    using add_cases(1) [OF True] by blast
  have ok: "list_ok (state w) k ?s" by (rule deferred_inv_list [OF assms(1) k(1)])
  with a have run: "ran_ok (state w) k"
    by (cases "role_of (state w) k") (auto simp: list_ok_def ran_ok_def idle_def)
  obtain d q where q: "queue ?s @ [m] = d # q" by (cases "queue ?s") auto
  let ?u = "(fire_begin (fst (cb_add as ?s)))\<lparr>memory := Some d, queue := q\<rparr>"
  let ?v = "?s\<lparr>firingIndex := int (length xs) - 1, queue := queue ?s @ [m]\<rparr>"
  have v: "role_ok Free k ?v" "\<not> opt_unique ?v"
    using ok run a by (auto simp: list_ok_def ran_ok_def safe_list_def)
  have "role_ok Free k (push_args as ?v)"
    by (rule push_args_ok [OF v]) (use assms(2) in \<open>auto intro: flat_user_safe\<close>)
  then have safe: "safe_list k ?u" using a(4) by (simp add: fire_begin_def safe_list_def)
  have "list_ok (state w) k ?u"
    using ok run a safe q by (auto simp: list_ok_def ran_ok_def fire_begin_def safe_rest_def safe_list_def)
  moreover have "at_list k (\<lambda>s. s\<lparr>memory := Some d, queue := q\<rparr>)
      (at_list k fire_begin (at_list k (\<lambda>s. fst (cb_add as s)) w)) = at_list k (\<lambda>_. ?u) w"
    using k by (simp add: at_list_at_list at_list_def)
  ultimately have "ready k (at_list k fire_begin (at_list k (\<lambda>s. fst (cb_add as s)) w))"
    using k run a(4) q deferred_inv_at_list [OF assms(1), of k "\<lambda>_. ?u"]
    by (simp add: ready_def fire_begin_def)
  with True assms(3) show ?thesis by auto
qed

lemma fireWith_inv:
  assumes "deferred_inv w" "op_ok (state w) (FireWith k d)" "do_op (FireWith k d) w = (w1, r)"
    and "r \<noteq> None \<Longrightarrow> ran_ok (state w) k"
  shows "state w1 = state w \<and> (case r of None \<Rightarrow> deferred_inv w1 | Some j \<Rightarrow> ready j (at_list j fire_begin w1))"
proof -
  let ?s = "lists w ! k"
  have k: "k < 6" "length (lists w) = 6" using assms(1,2) by (auto simp: deferred_inv_def op_ok_def)
  have ok: "list_ok (state w) k ?s" by (rule deferred_inv_list [OF assms(1) k(1)])
  show ?thesis
  proof (cases "snd (cb_fireWith d ?s)")
    case False
    have "list_ok (state w) k (fst (cb_fireWith d ?s))"
      using ok False by (cases "role_of (state w) k") (auto simp: cb_fireWith_def list_ok_def idle_def safe_list_def split: if_splits)
    with False assms(1,3) show ?thesis by (auto intro!: deferred_inv_at_list)
  next
    case True
    then have run: "ran_ok (state w) k" using assms(3,4) by auto
    obtain e q where q: "queue ?s @ [d] = e # q" by (cases "queue ?s") auto
    let ?u = "(fire_begin (fst (cb_fireWith d ?s)))\<lparr>memory := Some e, queue := q\<rparr>"
    have "list_ok (state w) k ?u"
      using ok run True q by (auto simp: list_ok_def ran_ok_def fire_begin_def cb_fireWith_def safe_list_def split: if_splits)
    moreover have "at_list k (\<lambda>s. s\<lparr>memory := Some e, queue := q\<rparr>)
        (at_list k fire_begin (at_list k (\<lambda>s. fst (cb_fireWith d s)) w)) = at_list k (\<lambda>_. ?u) w"
      using k by (simp add: at_list_at_list at_list_def)
    ultimately have "ready k (at_list k fire_begin (at_list k (\<lambda>s. fst (cb_fireWith d s)) w))"
      using k run q True deferred_inv_at_list [OF assms(1), of k "\<lambda>_. ?u"]
      by (auto simp: ready_def fire_begin_def cb_fireWith_def split: if_splits)
    with True assms(3) show ?thesis by auto
  qed
qed

section \<open>Settling\<close>

lemma builtin_step:
  assumes "fire_loop acts n k w = Some w'" "cb_list (lists w ! k) = Some cs"
    and "firingIndex (lists w ! k) + 1 = int i" "i < length cs" "memory (lists w ! k) = Some d"
    and "cb_acts acts (cs ! i) d = ([p], False)" "\<And>v. note_call k (cs ! i) d v = v"
    and "do_op p (at_list k (\<lambda>s. s\<lparr>firingIndex := int i\<rparr>) w) = (w2, None)"
  shows "\<exists>m < n. fire_loop acts m k w2 = Some w'"
proof -
  have id: "at_list k (fire_break False) v = v" for v :: "'a world"
    by (simp add: at_list_def fire_break_def)
  obtain n0 where n: "n = Suc n0" using assms(1) by (cases n) auto
  note st = fire_loop_step [OF assms(2-6), of n0]
  have "\<exists>m. n0 = Suc (Suc m)"
  proof (rule ccontr)
    assume "\<nexists>m. n0 = Suc (Suc m)"
    then have "n0 = 0 \<or> n0 = 1" by (metis One_nat_def not0_implies_Suc)
    with st assms(1,7,8) n show False by (auto simp del: fire_loop.simps)
  qed
  then have "run_ops acts n0 [p] (at_list k (\<lambda>s. s\<lparr>firingIndex := int i\<rparr>) w) = Some w2"
    using assms(8) by auto
  then show ?thesis using st assms(1,7) n id by (auto simp del: fire_loop.simps)
qed

definition outcome :: "nat \<Rightarrow> dstate" where
  "outcome k = (if k = 2 then Resolved else Rejected)"

definition set_index :: "nat \<Rightarrow> nat \<Rightarrow> 'd world \<Rightarrow> 'd world" where
  "set_index k i = at_list k (\<lambda>s. s\<lparr>firingIndex := int i\<rparr>)"

text \<open>The world after the callbacks of the constructor ran.\<close>

definition settled :: "nat \<Rightarrow> 'd world \<Rightarrow> 'd world" where
  "settled k w =
     at_list 1 cb_lock (set_index k 4 (at_list 0 cb_lock (set_index k 3
       (at_list (Suc (6 - k)) cb_disable (set_index k 2 (at_list (6 - k) cb_disable (set_index k 1
         ((set_index k 0 w)\<lparr>state := outcome k\<rparr>))))))))"

lemma state_cbs_nth:
  assumes "k = 2 \<or> k = 4"
  shows "builtin k = [SetState (outcome k), DisableCb (6 - k), DisableCb (Suc (6 - k)), LockCb 0, LockCb 1]"
  using assms by (auto simp: builtin_def state_cbs_def outcome_def)

lemma settling:
  assumes "fire_loop acts n k w = Some w'" "k = 2 \<or> k = 4" "length (lists w) = 6"
    and "cb_list (lists w ! k) = Some (builtin k @ cs)" "firingIndex (lists w ! k) = -1" "memory (lists w ! k) = Some d"
  shows "\<exists>m < n. fire_loop acts m k (settled k w) = Some w'"
proof -
  note b = state_cbs_nth [OF assms(2)]
  let ?w1 = "(set_index k 0 w)\<lparr>state := outcome k\<rparr>"
  let ?w2 = "at_list (6 - k) cb_disable (set_index k 1 ?w1)"
  let ?w3 = "at_list (Suc (6 - k)) cb_disable (set_index k 2 ?w2)"
  let ?w4 = "at_list 0 cb_lock (set_index k 3 ?w3)"
  have k: "k < 6" "6 - k \<noteq> k" "Suc (6 - k) \<noteq> k" "k \<noteq> 0" using assms(2) by auto
  have L: "lists ?w1 ! k = (lists w ! k)\<lparr>firingIndex := 0\<rparr>" "lists ?w2 ! k = (lists w ! k)\<lparr>firingIndex := 1\<rparr>"
    "lists ?w3 ! k = (lists w ! k)\<lparr>firingIndex := 2\<rparr>" "lists ?w4 ! k = (lists w ! k)\<lparr>firingIndex := 3\<rparr>"
    using k assms(3) by (auto simp: set_index_def at_list_def)
  obtain n1 where n1: "n1 < n" "fire_loop acts n1 k ?w1 = Some w'"
    using builtin_step [OF assms(1,4), of 0 d "Assign (outcome k)" ?w1] assms(5,6) b by (auto simp: set_index_def)
  obtain n2 where n2: "n2 < n1" "fire_loop acts n2 k ?w2 = Some w'"
    using builtin_step [OF n1(2), of "builtin k @ cs" 1 d "Disable (6 - k)" ?w2] assms(4,6) b L
    by (auto simp: set_index_def)
  obtain n3 where n3: "n3 < n2" "fire_loop acts n3 k ?w3 = Some w'"
    using builtin_step [OF n2(2), of "builtin k @ cs" 2 d "Disable (Suc (6 - k))" ?w3] assms(4,6) b L
    by (auto simp: set_index_def)
  obtain n4 where n4: "n4 < n3" "fire_loop acts n4 k ?w4 = Some w'"
    using builtin_step [OF n3(2), of "builtin k @ cs" 3 d "Lock 0" ?w4] assms(4,6) b L
    by (auto simp: set_index_def)
  obtain n5 where n5: "n5 < n4" "fire_loop acts n5 k (settled k w) = Some w'"
    using builtin_step [OF n4(2), of "builtin k @ cs" 4 d "Lock 1" "settled k w"] assms(4,6) b L
    by (auto simp: set_index_def settled_def)
  with n1(1) n2(1) n3(1) n4(1) show ?thesis by (meson less_trans)
qed

lemma nth_at_list:
  "j < length (lists w) \<Longrightarrow> lists (at_list k f w) ! j = (if j = k then f (lists w ! j) else lists w ! j)"
  by (simp add: at_list_def nth_list_update)

lemma settled_list:
  assumes "k = 2 \<or> k = 4" "length (lists w) = 6" "j < 6"
  shows "lists (settled k w) ! j =
    (if j = k then (lists w ! j)\<lparr>firingIndex := 4\<rparr>
     else if j = 6 - k \<or> j = Suc (6 - k) then cb_disable (lists w ! j)
     else if j < 2 then cb_lock (lists w ! j) else lists w ! j)"
  using assms by (elim disjE) (simp_all add: settled_def set_index_def nth_at_list)

lemma settled_inv:
  fixes d :: 'd
  assumes "deferred_inv w" "state w = Pending" "k = 2 \<or> k = 4"
  defines "v \<equiv> settled k (at_list k (begun d) w)"
  shows "deferred_inv v \<and> state v = outcome k \<and> firing (lists v ! k)"
proof -
  have len: "length (lists w) = 6" using assms(1) by (simp add: deferred_inv_def)
  have k: "k < 6" using assms(3) by auto
  have L: "list_ok Pending j (lists w ! j)" if "j < 6" for j
    using deferred_inv_list [OF assms(1) that] assms(2) by simp
  have vk: "lists v ! k = (begun d (lists w ! k))\<lparr>firingIndex := 4\<rparr>"
    using settled_list [OF assms(3), of "at_list k (begun d) w" k] k len by (simp add: v_def)
  have vj: "lists v ! j = (if j = 6 - k \<or> j = Suc (6 - k) then cb_disable (lists w ! j)
      else if j < 2 then cb_lock (lists w ! j) else lists w ! j)" if "j < 6" "j \<noteq> k" for j
    using settled_list [OF assms(3), of "at_list k (begun d) w" j] that len by (simp add: v_def)
  have "length (builtin k) = 5" using state_cbs_nth [OF assms(3)] by simp
  then have ok: "list_ok (outcome k) k (lists v ! k)"
    using L [OF k] assms(3) by (auto simp: vk list_ok_def begun_def outcome_def safe_rest_def nth_append)
  have "list_ok (outcome k) j (lists v ! j)" if "j < 6" for j
  proof (cases "j = k")
    case False
    with L [OF that] assms(3) that show ?thesis
      by (auto simp: vj list_ok_def outcome_def builtin_def safe_list_def cb_disable_def cb_lock_def Let_def
          dest!: less_6_cases split: if_splits)
  qed (use ok in simp)
  moreover have st: "state v = outcome k" "length (lists v) = 6" "log v = log w"
    using len by (simp_all add: v_def settled_def set_index_def)
  moreover have "ran_ok (outcome k) j" if "(j, u, e) \<in> set (log w)" for j u e
    using assms(1,2) that ran_ok_stays [of Pending j "outcome k"] by (auto simp: deferred_inv_def stays_def)
  ultimately show ?thesis using vk by (auto simp: deferred_inv_def begun_def)
qed

section \<open>Every run keeps the invariant\<close>

definition keeps :: "'d world \<Rightarrow> 'd world \<Rightarrow> bool" where
  "keeps w w' = (deferred_inv w' \<and> stays (state w) (state w'))"

definition runs_ok :: "(nat \<Rightarrow> 'd \<Rightarrow> 'd op list \<times> bool) \<Rightarrow> nat \<Rightarrow> bool" where
  "runs_ok acts n =
     (\<forall>ops w w'. run_ops acts n ops w = Some w' \<longrightarrow> deferred_inv w \<longrightarrow>
        (\<forall>p \<in> set ops. op_ok (state w) p) \<longrightarrow> keeps w w')"

definition queues_ok :: "(nat \<Rightarrow> 'd \<Rightarrow> 'd op list \<times> bool) \<Rightarrow> nat \<Rightarrow> bool" where
  "queues_ok acts n = (\<forall>k w w'. fire_queue acts n k w = Some w' \<longrightarrow> ready k w \<longrightarrow> keeps w w')"

definition active :: "nat \<Rightarrow> 'd world \<Rightarrow> bool" where
  "active k w = (deferred_inv w \<and> k < 6 \<and> firing (lists w ! k) \<and> ran_ok (state w) k)"

definition loops_ok :: "(nat \<Rightarrow> 'd \<Rightarrow> 'd op list \<times> bool) \<Rightarrow> nat \<Rightarrow> bool" where
  "loops_ok acts n = (\<forall>k w w'. fire_loop acts n k w = Some w' \<longrightarrow> active k w \<longrightarrow> keeps w w')"

lemma keeps_trans: "keeps w v \<Longrightarrow> keeps v u \<Longrightarrow> keeps w u"
  by (auto simp: keeps_def intro: stays_trans)

lemma keeps_state: "state w = state v \<Longrightarrow> keeps w u = keeps v u"
  by (simp add: keeps_def)

lemma fire_first:
  assumes "deferred_inv w" "op_ok (state w) (FireWith k d)" "\<not> ran_ok (state w) k"
    and "do_op (FireWith k d) w = (w1, Some j)"
  shows "j = k \<and> (k = 2 \<or> k = 4) \<and> state w = Pending \<and>
    (\<exists>cs. cb_list (lists w ! k) = Some (builtin k @ cs)) \<and>
    at_list k (\<lambda>s. s\<lparr>memory := Some d, queue := []\<rparr>) (at_list k fire_begin w1) = at_list k (begun d) w \<and>
    queue (lists (at_list k fire_begin w1) ! k) = [d]"
proof -
  have j: "j = k" "snd (cb_fireWith d (lists w ! k))" "w1 = at_list k (\<lambda>s. fst (cb_fireWith d s)) w"
    using assms(4) by (auto split: if_splits)
  have k: "k = 0 \<or> k = 2 \<or> k = 4" "k < 6" "length (lists w) = 6"
    using assms(1-3) by (auto simp: op_ok_def deferred_inv_def)
  have ok: "list_ok (state w) k (lists w ! k)" by (rule deferred_inv_list [OF assms(1) k(2)])
  with j(2) assms(3) have r: "role_of (state w) k = Waiting"
    by (cases "role_of (state w) k") (auto simp: list_ok_def ran_ok_def cb_fireWith_def split: if_splits)
  then have "state w = Pending" "k \<noteq> 0" by (cases "state w"; auto split: if_splits)+
  moreover have "idle (lists w ! k)" "\<exists>cs. cb_list (lists w ! k) = Some (builtin k @ cs)"
    using ok r by (auto simp: list_ok_def)
  ultimately show ?thesis
    using j k by (auto simp: idle_def cb_fireWith_def fire_begin_def begun_def at_list_def)
qed

lemma runs_okD:
  "runs_ok acts n \<Longrightarrow> run_ops acts n ops w = Some w' \<Longrightarrow> deferred_inv w \<Longrightarrow>
     (\<And>p. p \<in> set ops \<Longrightarrow> op_ok (state w) p) \<Longrightarrow> keeps w w'"
  and queues_okD: "queues_ok acts n \<Longrightarrow> fire_queue acts n k w = Some w' \<Longrightarrow> ready k w \<Longrightarrow> keeps w w'"
  and loops_okD: "loops_ok acts n \<Longrightarrow> fire_loop acts n k w = Some w' \<Longrightarrow> active k w \<Longrightarrow> keeps w w'"
  by (simp_all add: runs_ok_def queues_ok_def loops_ok_def)

lemma first_fire_keeps:
  assumes loops: "\<And>m. m < n \<Longrightarrow> loops_ok acts m" and inv: "deferred_inv w"
    and p: "op_ok (state w) (FireWith k d)" "\<not> ran_ok (state w) k" "do_op (FireWith k d) w = (w1, Some j)"
    and run: "fire_queue acts n j (at_list j fire_begin w1) = Some w2"
  shows "keeps w w2"
proof -
  note f = fire_first [OF inv p]
  then obtain cs where cs: "cb_list (lists w ! k) = Some (builtin k @ cs)" by blast
  obtain n0 where n0: "n = Suc n0" using run by (cases n) auto
  have kk: "k < 6" "length (lists w) = 6" using f inv by (auto simp: deferred_inv_def)
  have fi: "firingIndex (lists w ! k) = -1"
    using deferred_inv_list [OF inv kk(1)] f by (auto simp: list_ok_def idle_def)
  have "fire_loop acts n0 k (at_list k (begun d) w) = Some w2" using run f n0 by simp
  then obtain m where m: "m < n0" "fire_loop acts m k (settled k (at_list k (begun d) w)) = Some w2"
    using settling [of acts n0 k "at_list k (begun d) w" w2 cs d] f cs fi kk by (auto simp: begun_def)
  let ?v = "settled k (at_list k (begun d) w)"
  have "ran_ok (outcome k) k" using f by (auto simp: ran_ok_def outcome_def)
  then have "active k ?v" using settled_inv [OF inv, of k d] f kk by (auto simp: active_def)
  then have "keeps ?v w2" using loops [of m] m n0 by (auto dest: loops_okD)
  then show ?thesis using f by (simp add: keeps_def stays_def)
qed

lemma runs_ok_Suc:
  assumes "runs_ok acts n" "queues_ok acts n" "\<And>m. m < n \<Longrightarrow> loops_ok acts m"
  shows "runs_ok acts (Suc n)"
  unfolding runs_ok_def
proof (intro allI impI)
  fix ops and w w' :: "'a world"
  assume run: "run_ops acts (Suc n) ops w = Some w'" and inv: "deferred_inv w" and ok: "\<forall>p \<in> set ops. op_ok (state w) p"
  show "keeps w w'"
  proof (cases ops)
    case Nil
    with run inv show ?thesis by (simp add: keeps_def stays_def)
  next
    case (Cons p ps)
    obtain w1 r where op: "do_op p w = (w1, r)" by (cases "do_op p w")
    have p: "op_ok (state w) p" using ok Cons by simp
    have rest: "keeps w w'" if v: "run_ops acts n ps v = Some w'" "keeps w v" for v
    proof -
      have "keeps v w'"
        by (rule runs_okD [OF assms(1) v(1)]) (use v ok Cons in \<open>auto simp: keeps_def intro: op_ok_stays\<close>)
      with v(2) show ?thesis by (rule keeps_trans)
    qed
    show ?thesis
    proof (cases r)
      case None
      have "keeps w w1"
        using p op None add_inv [OF inv, of _ _ w1 r] fireWith_inv [OF inv, of _ _ w1 r]
        by (cases p) (auto simp: keeps_def stays_def op_ok_def)
      moreover have "run_ops acts n ps w1 = Some w'" using run Cons op None by simp
      ultimately show ?thesis using rest by blast
    next
      case (Some j)
      then obtain w2 where w2: "fire_queue acts n j (at_list j fire_begin w1) = Some w2" "run_ops acts n ps w2 = Some w'"
        using run Cons op by (auto split: option.splits)
      have "keeps w w2"
      proof (cases "\<exists>k d. p = FireWith k d \<and> \<not> ran_ok (state w) k")
        case True
        then show ?thesis using first_fire_keeps [OF assms(3) inv] p op Some w2(1) by blast
      next
        case False
        with p op Some have "state w1 = state w \<and> ready j (at_list j fire_begin w1)"
          using add_inv [OF inv, of _ _ w1 r] fireWith_inv [OF inv, of _ _ w1 r]
          by (cases p) (auto simp: op_ok_def)
        with queues_okD [OF assms(2) w2(1)] show ?thesis by (auto simp: keeps_def)
      qed
      with rest w2(2) show ?thesis by blast
    qed
  qed
qed

lemma queues_ok_Suc:
  assumes "loops_ok acts n"
  shows "queues_ok acts (Suc n)"
  unfolding queues_ok_def
proof (intro allI impI)
  fix k and w w' :: "'a world"
  assume run: "fire_queue acts (Suc n) k w = Some w'" and r: "ready k w"
  show "keeps w w'"
  proof (cases "queue (lists w ! k)")
    case Nil
    with run r show ?thesis by (auto simp: ready_def keeps_def stays_def)
  next
    case (Cons d q)
    let ?w = "at_list k (\<lambda>s. s\<lparr>memory := Some d, queue := q\<rparr>) w"
    have "active k ?w" using r Cons by (auto simp: ready_def active_def)
    with run Cons loops_okD [OF assms, of k ?w w'] show ?thesis by (simp add: keeps_def)
  qed
qed

lemma ran_ok_handlers: "k \<in> {0, 2, 4} \<Longrightarrow> ran_ok st k \<Longrightarrow> ran_ok st (Suc k)"
  by (cases st) (auto simp: ran_ok_def)

lemma loops_ok_Suc:
  assumes "runs_ok acts n" "queues_ok acts n" "loops_ok acts n" "\<And>u d p. p \<in> set (fst (acts u d)) \<Longrightarrow> api p"
  shows "loops_ok acts (Suc n)"
  unfolding loops_ok_def
proof (intro allI impI)
  fix k and w w' :: "'a world"
  let ?s = "lists w ! k" and ?i = "firingIndex (lists w ! k) + 1"
  let ?w1 = "at_list k (\<lambda>s. s\<lparr>firingIndex := ?i\<rparr>) w"
  assume run: "fire_loop acts (Suc n) k w = Some w'" and a: "active k w"
  then have k: "deferred_inv w" "k < 6" "firing ?s" "ran_ok (state w) k" "length (lists w) = 6"
    by (auto simp: active_def deferred_inv_def)
  have ok: "list_ok (state w) k ?s" by (rule deferred_inv_list [OF k(1,2)])
  note lr = list_ok_run [OF ok k(4)]
  have inv1: "deferred_inv ?w1" by (rule deferred_inv_at_list [OF k(1)]) (rule lr(1) [OF k(3)])
  show "keeps w w'"
  proof (cases "?i < int (list_length ?s)")
    case False
    let ?w2 = "at_list k (\<lambda>s. s\<lparr>firingIndex := -1\<rparr>) ?w1"
    have w2: "?w2 = at_list k (\<lambda>s. s\<lparr>firingIndex := -1\<rparr>) w" by (simp add: at_list_at_list)
    have "ready k ?w2"
      unfolding w2 using k lr(2,3)
      by (auto simp: ready_def at_list_at_list intro!: deferred_inv_at_list [OF k(1)] split: list.splits)
    moreover have "fire_queue acts n k ?w2 = Some w'" using run False by (simp add: Let_def)
    ultimately show ?thesis using queues_okD [OF assms(2)] by (force simp: keeps_def)
  next
    case True
    with run obtain cs d where cs: "cb_list ?s = Some cs" "memory ?s = Some d"
      by (auto simp: Let_def split: option.splits)
    obtain ops b where act: "cb_acts acts (cs ! nat ?i) d = (ops, b)" by (cases "cb_acts acts (cs ! nat ?i) d")
    let ?c = "cs ! nat ?i"
    from run True cs act obtain w3 where w3: "run_ops acts n ops (note_call k ?c d ?w1) = Some w3"
      "fire_loop acts n k (at_list k (fire_break b) w3) = Some w'"
      by (auto simp: Let_def split: option.splits)
    have ge: "0 \<le> ?i" using ok by (simp add: list_ok_def)
    have safe: "safe k ?c" by (rule lr(4) [OF cs(1) k(3)]) (use True cs ge in \<open>simp_all add: list_length_def\<close>)
    have "deferred_inv (note_call k ?c d ?w1)"
      using inv1 k(4) safe by (cases ?c) (auto simp: deferred_inv_def)
    moreover have "op_ok (state w) p" if "p \<in> set ops" for p
    proof (cases ?c)
      case (User u)
      with act that assms(4) [of p u d] show ?thesis by (simp add: op_ok_def)
    next
      case (FireCb j)
      with safe act that k(2,4) ran_ok_handlers [of k "state w"] show ?thesis by (auto simp: safe_def op_ok_def)
    qed (use safe in \<open>simp_all add: safe_def\<close>)
    ultimately have k3: "keeps w w3"
      using runs_okD [OF assms(1) w3(1)] by (auto simp: keeps_def)
    then have inv3: "deferred_inv w3" "length (lists w3) = 6" by (auto simp: keeps_def deferred_inv_def)
    have "flags w3 = flags w"
      using run_flags(1) [OF w3(1)] flags_same [of k w "\<lambda>s. s\<lparr>firingIndex := ?i\<rparr>"] by simp
    then have "firing (lists w3 ! k)" using k inv3(2) by (metis flags_sel(2))
    moreover have "ran_ok (state w3) k" using k3 k(4) by (auto simp: keeps_def intro: ran_ok_stays)
    moreover have "at_list k (fire_break b) w3 = w3"
      using deferred_inv_list [OF inv3(1) k(2)] by (simp add: at_list_def fire_break_def list_ok_def)
    ultimately have "keeps w3 w'"
      using loops_okD [OF assms(3), of k w3 w'] w3(2) inv3(1) k(2) by (simp add: active_def)
    with k3 show ?thesis by (rule keeps_trans)
  qed
qed

lemma deferred_keeps:
  assumes "\<And>u d p. p \<in> set (fst (acts u d)) \<Longrightarrow> api p"
  shows "runs_ok acts n \<and> queues_ok acts n \<and> loops_ok acts n"
proof (induction n rule: less_induct)
  case (less n)
  show ?case
  proof (cases n)
    case 0
    then show ?thesis by (simp add: runs_ok_def queues_ok_def loops_ok_def)
  next
    case (Suc m)
    then have "runs_ok acts j \<and> queues_ok acts j \<and> loops_ok acts j" if "j \<le> m" for j
      using less [of j] that by simp
    then show ?thesis
      unfolding Suc using runs_ok_Suc [of acts m] queues_ok_Suc [of acts m] loops_ok_Suc [of acts m] assms
      by auto
  qed
qed

lemma deferred_run:
  assumes "\<And>u d p. p \<in> set (fst (acts u d)) \<Longrightarrow> api p" "run_ops acts n ops w = Some w'"
    and "deferred_inv w" "\<And>p. p \<in> set ops \<Longrightarrow> api p"
  shows "deferred_inv w' \<and> stays (state w) (state w')"
proof -
  have "runs_ok acts n" using deferred_keeps [of acts n] assms(1) by blast
  then have "keeps w w'" by (rule runs_okD [OF _ assms(2,3)]) (simp add: op_ok_def assms(4))
  then show ?thesis by (simp add: keeps_def)
qed

section \<open>Properties\<close>

text \<open>
  C6. A Deferred settles at most once. Whatever user code does with its methods, also from inside
  callbacks: callbacks of \<open>done\<close> (and fulfilment handlers) run only when it is resolved, callbacks of
  \<open>fail\<close> (and rejection handlers) only when it is rejected, and once it is settled its state is
  final.
\<close>

theorem deferred_settles_once:
  assumes "\<And>u d p. p \<in> set (fst (acts u d)) \<Longrightarrow> api p" "\<And>p. p \<in> set (ops @ later) \<Longrightarrow> api p"
    and "run_ops acts n ops Deferred = Some w" "run_ops acts m later w = Some w'"
  shows "(\<forall>(k, u, d) \<in> set (log w').
      (k \<in> {2, 3} \<longrightarrow> state w' = Resolved) \<and> (k \<in> {4, 5} \<longrightarrow> state w' = Rejected)) \<and>
    (state w \<noteq> Pending \<longrightarrow> state w' = state w)"
proof -
  have w: "deferred_inv w"
    using deferred_run [OF assms(1,3) deferred_inv_Deferred] assms(2) by auto
  have "deferred_inv w' \<and> stays (state w) (state w')"
    by (rule deferred_run [OF assms(1,4) w]) (use assms(2) in auto)
  then have w': "\<forall>(k, u, d) \<in> set (log w'). ran_ok (state w') k" "stays (state w) (state w')"
    by (auto simp: deferred_inv_def)
  have "ran_ok st k \<Longrightarrow> (k \<in> {2, 3} \<longrightarrow> st = Resolved) \<and> (k \<in> {4, 5} \<longrightarrow> st = Rejected)" for st k
    by (cases st) (auto simp: ran_ok_def)
  with w' show ?thesis by (fastforce simp: stays_def)
qed

text \<open>A done callback that tries to reject, and a late done callback.\<close>

definition contrary :: "nat \<Rightarrow> nat \<Rightarrow> nat op list \<times> bool" where
  "contrary u d = (if u = 0 then deferred_rejectWith 9 else [], False)"

theorem deferred_settles_once_witness:
  "(let w = the (run_ops contrary 40 (deferred_done [Fn (User 0)] @ deferred_fail [Fn (User 1)] @ deferred_resolveWith 7) Deferred);
        w' = the (run_ops contrary 40 (deferred_done [Fn (User 2)] @ deferred_rejectWith 8) w)
    in state w' = Resolved \<and> log w' = [(2, 0, 7), (2, 2, 7)])"
proof -
  let ?o1 = "deferred_done [Fn (User 0)] @ deferred_fail [Fn (User 1)] @ deferred_resolveWith 7"
  let ?o2 = "deferred_done [Fn (User 2)] @ deferred_rejectWith 8"
  let ?w = "the (run_ops contrary 40 ?o1 Deferred)"
  let ?w' = "the (run_ops contrary 40 ?o2 ?w)"
  have 1: "run_ops contrary 40 ?o1 Deferred \<noteq> None \<and> run_ops contrary 40 ?o2 ?w \<noteq> None \<and>
      state ?w = Resolved \<and> log ?w' = [(2, 0, 7), (2, 2, 7)]"
    by code_simp
  then have r: "run_ops contrary 40 ?o1 Deferred = Some ?w" "run_ops contrary 40 ?o2 ?w = Some ?w'" by auto
  have "state ?w' = state ?w"
  proof -
    have "(\<forall>(k, u, d) \<in> set (log ?w').
        (k \<in> {2, 3} \<longrightarrow> state ?w' = Resolved) \<and> (k \<in> {4, 5} \<longrightarrow> state ?w' = Rejected)) \<and>
      (state ?w \<noteq> Pending \<longrightarrow> state ?w' = state ?w)"
    proof (rule deferred_settles_once [OF _ _ r])
      show "api p" if "p \<in> set (fst (contrary u d))" for u d p
        using that by (auto simp: contrary_def deferred_rejectWith_def split: if_splits)
      show "api p" if "p \<in> set (?o1 @ ?o2)" for p
        using that by (auto simp: deferred_done_def deferred_fail_def deferred_resolveWith_def deferred_rejectWith_def)
    qed
    with 1 show ?thesis by simp
  qed
  with 1 show ?thesis by (simp add: Let_def)
qed

end
