(* ===== verification/JQ_Data.thy ===== *)
theory JQ_Data
  imports JQ_Callbacks
begin

text \<open>
  \<open>jquery-3.5.1.js\<close>: \<open>camelCase\<close>, the \<open>Data\<close> caches, the \<open>data-*\<close> attributes and the methods
  \<open>jQuery.data\<close>, \<open>removeData\<close>, \<open>jQuery.fn.data\<close>.

  \<open>owner[ this.expando ]\<close> is an optional property store: \<open>None\<close> when the property is absent or
  \<open>undefined\<close>. A cache is an ordinary object, so reading a name of \<open>Object.prototype\<close> that it does
  not have itself finds the inherited value (\<open>Inherited\<close>). Assigning to \<open>__proto__\<close> is outside
  the model. \<open>json\<close> is \<open>JSON.parse\<close>, \<open>None\<close> when it throws; \<open>lower\<close> is \<open>toLowerCase\<close>. An element
  is a record of what the code reads and writes of it.
\<close>

section \<open>Names\<close>

fun dash_alpha :: "jstr \<Rightarrow> jstr" where
  "dash_alpha (c # d # cs) =
     (if c = 45 \<and> 97 \<le> d \<and> d \<le> 122 then (d - 32) # dash_alpha cs else c # dash_alpha (d # cs))"
| "dash_alpha cs = cs"

definition camelCase :: "jstr \<Rightarrow> jstr" where
  "camelCase s =
     dash_alpha (if prefix (lit ''-ms-'') s then lit ''ms-'' @ drop 4 s else s)"

definition acceptData :: "int option \<Rightarrow> bool" where
  "acceptData nodeType = (nodeType = Some 1 \<or> nodeType = Some 9 \<or> nodeType = None \<or> nodeType = Some 0)"

section \<open>Data\<close>

type_synonym 'v cache = "(jstr \<times> 'v) list"

datatype 'v lookup = Own 'v | Inherited | Undefined

definition cache_get :: "'v cache \<Rightarrow> jstr \<Rightarrow> 'v lookup" where
  "cache_get c k =
     (case obj_get c k of Some v \<Rightarrow> Own v
      | None \<Rightarrow> if k \<in> set object_proto then Inherited else Undefined)"

definition data_cache :: "int option \<Rightarrow> 'v cache option \<Rightarrow> 'v cache \<times> 'v cache option" where
  "data_cache nodeType st =
     (case st of
        Some c \<Rightarrow> (c, Some c)
      | None \<Rightarrow> ([], if acceptData nodeType then Some [] else None))"

datatype 'v data_key = KUndef | KStr jstr | KProps "(jstr \<times> 'v) list"

definition cache_put :: "'v cache \<Rightarrow> jstr \<times> 'v \<Rightarrow> 'v cache" where
  "cache_put c p = obj_put (camelCase (fst p)) (snd p) c"

text \<open>The writes go to the cache object; they are kept when the owner holds that object.\<close>

definition data_set :: "int option \<Rightarrow> 'v data_key \<Rightarrow> 'v \<Rightarrow> 'v cache option \<Rightarrow> 'v cache option" where
  "data_set nodeType data v st =
     (case data_cache nodeType st of
        (c, st1) \<Rightarrow>
          let c' = (case data of
              KStr k \<Rightarrow> cache_put c (k, v)
            | KProps ps \<Rightarrow> foldl cache_put c ps
            | KUndef \<Rightarrow> c)
          in if st1 = None then None else Some c')"

definition data_get :: "'v cache option \<Rightarrow> jstr \<Rightarrow> 'v lookup" where
  "data_get st k = (case st of None \<Rightarrow> Undefined | Some c \<Rightarrow> cache_get c (camelCase k))"

text \<open>
  The result of \<open>access\<close>: a cache, the looked up value, or the value or key it was given. The
  parameter \<open>undef\<close> is the value \<open>undefined\<close>.
\<close>

datatype 'v accessed = TheCache "'v cache" | Found "'v lookup" | Given 'v | GivenKey "'v data_key"

definition data_access ::
  "'v \<Rightarrow> int option \<Rightarrow> 'v data_key \<Rightarrow> 'v \<Rightarrow> 'v cache option \<Rightarrow> 'v accessed \<times> 'v cache option"
where
  "data_access undef nodeType k v st =
     (case k of
        KUndef \<Rightarrow> (case data_cache nodeType st of (c, st1) \<Rightarrow> (TheCache c, st1))
      | _ \<Rightarrow>
          if (case k of KStr s \<Rightarrow> s \<noteq> [] | _ \<Rightarrow> False) \<and> v = undef
          then (Found (case k of KStr s \<Rightarrow> data_get st s | _ \<Rightarrow> Undefined), st)
          else (if v \<noteq> undef then Given v else GivenKey k, data_set nodeType k v st))"

datatype remove_key = RUndef | RStr jstr | RArr "jstr list"

definition obj_delete :: "jstr \<Rightarrow> 'v cache \<Rightarrow> 'v cache" where
  "obj_delete k c = filter (\<lambda>p. fst p \<noteq> k) c"

definition remove_keys :: "remove_key \<Rightarrow> 'v cache \<Rightarrow> jstr list" where
  "remove_keys key c =
     (case key of
        RUndef \<Rightarrow> []
      | RArr ks \<Rightarrow> map camelCase ks
      | RStr s \<Rightarrow>
          let k = camelCase s in
          if obj_get c k \<noteq> None \<or> k \<in> set object_proto then [k] else nothtmlwhite k)"

definition data_remove :: "remove_key \<Rightarrow> 'v cache option \<Rightarrow> 'v cache option" where
  "data_remove key st =
     (case st of
        None \<Rightarrow> None
      | Some c \<Rightarrow>
          let c' = foldr obj_delete (remove_keys key c) c
          in if key = RUndef \<or> c' = [] then None else Some c')"

definition data_hasData :: "'v cache option \<Rightarrow> bool" where
  "data_hasData st = (case st of None \<Rightarrow> False | Some c \<Rightarrow> c \<noteq> [])"

section \<open>Attributes\<close>

definition rbrace :: "jstr \<Rightarrow> bool" where
  "rbrace s =
     (2 \<le> length s \<and> (hd s = 123 \<and> last s = 125 \<or> hd s = 91 \<and> last s = 93))"

definition getData :: "(jstr \<Rightarrow> jsval option) \<Rightarrow> jstr \<Rightarrow> jsval option" where
  "getData json data =
     (if data = lit ''true'' then Some (VBool True)
      else if data = lit ''false'' then Some (VBool False)
      else if data = lit ''null'' then Some VNull
      else if data = num_str (to_num (VStr data)) then Some (VNum (to_num (VStr data)))
      else if rbrace data then json data
      else Some (VStr data))"

record delem =
  nodeType :: "int option"
  attributes :: "(jstr \<times> jstr) list"
  dataUser :: "jsval cache option"
  dataPriv :: "jsval cache option"

fun multi_dash :: "jstr \<Rightarrow> jstr" where
  "multi_dash [] = []"
| "multi_dash (c # cs) = (if 65 \<le> c \<and> c \<le> 90 then 45 # c # multi_dash cs else c # multi_dash cs)"

definition attr_name :: "(jstr \<Rightarrow> jstr) \<Rightarrow> jstr \<Rightarrow> jstr" where
  "attr_name lower key = lit ''data-'' @ lower (multi_dash key)"

definition found_val :: "jsval lookup \<Rightarrow> jsval lookup" where
  "found_val l = (case l of Own v \<Rightarrow> if v = VUndef then Undefined else Own v | _ \<Rightarrow> l)"

definition dataAttr ::
  "(jstr \<Rightarrow> jstr) \<Rightarrow> (jstr \<Rightarrow> jsval option) \<Rightarrow> delem \<Rightarrow> jstr \<Rightarrow> jsval lookup \<Rightarrow> jsval lookup \<times> delem"
where
  "dataAttr lower json e key data =
     (if found_val data = Undefined \<and> nodeType e = Some 1 then
        (case map_of (attributes e) (attr_name lower key) of
           Some s \<Rightarrow>
             let v = (case getData json s of Some v \<Rightarrow> v | None \<Rightarrow> VStr s)
             in (Own v, e\<lparr>dataUser := data_set (nodeType e) (KStr key) v (dataUser e)\<rparr>)
         | None \<Rightarrow> (Undefined, e))
      else (data, e))"

definition jq_hasData :: "delem \<Rightarrow> bool" where
  "jq_hasData e = (data_hasData (dataUser e) \<or> data_hasData (dataPriv e))"

definition jq_data :: "jsval data_key \<Rightarrow> jsval \<Rightarrow> delem \<Rightarrow> jsval accessed \<times> delem" where
  "jq_data k v e =
     (case data_access VUndef (nodeType e) k v (dataUser e) of (r, st) \<Rightarrow> (r, e\<lparr>dataUser := st\<rparr>))"

definition jq_removeData :: "remove_key \<Rightarrow> delem \<Rightarrow> delem" where
  "jq_removeData k e = e\<lparr>dataUser := data_remove k (dataUser e)\<rparr>"

section \<open>jQuery.fn.data\<close>

text \<open>
  \<open>.data()\<close> reads every \<open>data-*\<close> attribute of the first element once, from the last attribute to
  the first, and returns the cache, which is the object that these reads fill.
\<close>

definition read_attr :: "(jstr \<Rightarrow> jstr) \<Rightarrow> (jstr \<Rightarrow> jsval option) \<Rightarrow> jstr \<times> jstr \<Rightarrow> delem \<Rightarrow> delem" where
  "read_attr lower json a e =
     (if indexOf (fst a) (lit ''data-'') = 0 then
        let name = camelCase (drop 5 (fst a));
            data = (case dataUser e of Some c \<Rightarrow> cache_get c name | None \<Rightarrow> Undefined)
        in snd (dataAttr lower json e name data)
      else e)"

definition fn_data_all :: "(jstr \<Rightarrow> jstr) \<Rightarrow> (jstr \<Rightarrow> jsval option) \<Rightarrow> delem list \<Rightarrow> jsval cache option \<times> delem list" where
  "fn_data_all lower json es =
     (case es of
        [] \<Rightarrow> (None, [])
      | e # rest \<Rightarrow>
          let e1 = e\<lparr>dataUser := snd (data_cache (nodeType e) (dataUser e))\<rparr>;
              flag = (case data_get (dataPriv e1) (lit ''hasDataAttrs'') of Own v \<Rightarrow> truthy v | _ \<Rightarrow> False);
              e2 = (if nodeType e1 = Some 1 \<and> \<not> flag then
                      let e' = foldr (read_attr lower json) (attributes e1) e1
                      in e'\<lparr>dataPriv := data_set (nodeType e') (KStr (lit ''hasDataAttrs'')) (VBool True) (dataPriv e')\<rparr>
                    else e1)
          in (Some (case dataUser e2 of Some c \<Rightarrow> c | None \<Rightarrow> []), e2 # rest))"

definition fn_data_props :: "(jstr \<times> jsval) list \<Rightarrow> delem list \<Rightarrow> delem list" where
  "fn_data_props ps es =
     map (\<lambda>e. e\<lparr>dataUser := data_set (nodeType e) (KProps ps) VUndef (dataUser e)\<rparr>) es"

text \<open>\<open>.data( key )\<close> and \<open>.data( key, value )\<close>, the two ways \<open>access\<close> calls its function.\<close>

definition fn_data_get ::
  "(jstr \<Rightarrow> jstr) \<Rightarrow> (jstr \<Rightarrow> jsval option) \<Rightarrow> jstr \<Rightarrow> delem list \<Rightarrow> jsval lookup \<times> delem list"
where
  "fn_data_get lower json key es =
     (case es of
        [] \<Rightarrow> (Undefined, [])
      | e # rest \<Rightarrow>
          let l = found_val (data_get (dataUser e) key) in
          if l \<noteq> Undefined then (l, es)
          else (case dataAttr lower json e key Undefined of (r, e') \<Rightarrow> (found_val r, e' # rest)))"

definition fn_data_set :: "jstr \<Rightarrow> jsval \<Rightarrow> delem list \<Rightarrow> delem list" where
  "fn_data_set key v es =
     (if v = VUndef then es
      else map (\<lambda>e. e\<lparr>dataUser := data_set (nodeType e) (KStr key) v (dataUser e)\<rparr>) es)"

definition fn_removeData :: "remove_key \<Rightarrow> delem list \<Rightarrow> delem list" where
  "fn_removeData k es = map (jq_removeData k) es"

section \<open>Names that are written in two ways\<close>

lemma dash_alpha_Cons: "dash_alpha (d # cs) = [] \<longleftrightarrow> False"
  by (cases cs) auto

text \<open>A name in camel case has no dash before a small letter.\<close>

definition dashed :: "int \<Rightarrow> int \<Rightarrow> bool" where
  "dashed c d = (c = 45 \<and> 97 \<le> d \<and> d \<le> 122)"

fun camel :: "jstr \<Rightarrow> bool" where
  "camel (c # d # cs) = (\<not> dashed c d \<and> camel (d # cs))"
| "camel cs = True"

lemma camel_Cons: "camel cs \<Longrightarrow> (cs \<noteq> [] \<Longrightarrow> \<not> dashed c (hd cs)) \<Longrightarrow> camel (c # cs)"
  by (cases cs) auto

lemma hd_dash_alpha: "hd (dash_alpha (d # cs)) = d \<or> d = 45 \<and> \<not> dashed 45 (hd (dash_alpha (d # cs)))"
  by (cases cs) (auto simp: dashed_def)

lemma camel_dash_alpha: "camel (dash_alpha s)"
proof (induction s rule: dash_alpha.induct)
  case (1 c d cs)
  show ?case
  proof (cases "dashed c d")
    case True
    then have "\<not> dashed (d - 32) e" for e by (auto simp: dashed_def)
    with 1 True show ?thesis by (auto simp: dashed_def intro!: camel_Cons)
  next
    case False
    then have "\<not> dashed c (hd (dash_alpha (d # cs)))"
      using hd_dash_alpha [of d cs] by (auto simp: dashed_def)
    with 1 False show ?thesis by (auto simp: dashed_def intro!: camel_Cons)
  qed
qed auto

lemma dash_alpha_id: "camel s \<Longrightarrow> dash_alpha s = s"
  by (induction s rule: dash_alpha.induct) (auto simp: dashed_def)

lemma camelCase_idem: "camelCase (camelCase s) = camelCase s"
proof -
  have c: "camel (camelCase s)" by (simp add: camelCase_def camel_dash_alpha)
  have "\<not> camel (lit ''-ms-'' @ t)" for t by (simp add: lit_def dashed_def)
  with c have "\<not> prefix (lit ''-ms-'') (camelCase s)" by (auto simp: prefix_def)
  with c show ?thesis by (simp add: camelCase_def [of "camelCase s"] dash_alpha_id)
qed

section \<open>The abstract store\<close>

text \<open>What a cache promises: a map on names in camel case.\<close>

datatype 'v data_op = DSet jstr 'v | DProps "(jstr \<times> 'v) list" | DRemove remove_key

definition map_put :: "(jstr \<rightharpoonup> 'v) \<Rightarrow> jstr \<times> 'v \<Rightarrow> (jstr \<rightharpoonup> 'v)" where
  "map_put m p = m(camelCase (fst p) \<mapsto> snd p)"

fun data_spec :: "'v data_op \<Rightarrow> (jstr \<rightharpoonup> 'v) \<Rightarrow> (jstr \<rightharpoonup> 'v)" where
  "data_spec (DSet k v) m = map_put m (k, v)"
| "data_spec (DProps ps) m = foldl map_put m ps"
| "data_spec (DRemove RUndef) m = Map.empty"
| "data_spec (DRemove (RArr ks)) m = m |` (- set (map camelCase ks))"
| "data_spec (DRemove (RStr s)) m =
     m |` (- (if camelCase s \<in> dom m then {camelCase s} else set (nothtmlwhite (camelCase s))))"

fun data_step :: "'v \<Rightarrow> int option \<Rightarrow> 'v data_op \<Rightarrow> 'v cache option \<Rightarrow> 'v cache option" where
  "data_step undef nt (DSet k v) st = data_set nt (KStr k) v st"
| "data_step undef nt (DProps ps) st = data_set nt (KProps ps) undef st"
| "data_step undef nt (DRemove k) st = data_remove k st"

definition data_abs :: "'v cache option \<Rightarrow> (jstr \<rightharpoonup> 'v)" where
  "data_abs st = (case st of None \<Rightarrow> Map.empty | Some c \<Rightarrow> obj_get c)"

definition data_ok :: "'v cache option \<Rightarrow> bool" where
  "data_ok st = (case st of None \<Rightarrow> True | Some c \<Rightarrow> obj_ok c)"

lemma obj_get_delete: "obj_get (obj_delete k c) = (obj_get c)(k := None)"
proof -
  have "map_of (filter (\<lambda>p. fst p \<noteq> k) c) j = (if j = k then None else map_of c j)" for j
    by (induction c) auto
  then show ?thesis by (auto simp: obj_get_def obj_delete_def fun_eq_iff)
qed

lemma obj_ok_delete: "obj_ok c \<Longrightarrow> obj_ok (obj_delete k c)"
  by (simp add: obj_ok_def obj_delete_def distinct_map_filter)

lemma foldr_delete:
  "obj_get (foldr obj_delete ks c) = obj_get c |` (- set ks)" "obj_ok c \<Longrightarrow> obj_ok (foldr obj_delete ks c)"
  by (induction ks) (auto simp: obj_get_delete obj_ok_delete restrict_map_def fun_eq_iff)

lemma foldl_put:
  "obj_get (foldl cache_put c ps) = foldl map_put (obj_get c) ps" "obj_ok c \<Longrightarrow> obj_ok (foldl cache_put c ps)"
proof (induction ps arbitrary: c)
  case (Cons p ps)
  {
    case 1
    have "obj_get (cache_put c p) = map_put (obj_get c) p"
      by (auto simp: cache_put_def map_put_def obj_get_put fun_eq_iff)
    with Cons show ?case by simp
  next
    case 2
    with Cons show ?case by (simp add: cache_put_def obj_ok_put)
  }
qed auto

lemma obj_get_Nil: "obj_get [] = Map.empty"
  by (simp add: obj_get_def fun_eq_iff)

lemma obj_get_empty_iff: "obj_get c = Map.empty \<longleftrightarrow> c = []"
proof (cases c)
  case (Cons p ps)
  then have "obj_get c (fst p) \<noteq> None" by (cases p) (simp add: obj_get_def)
  then have "obj_get c \<noteq> Map.empty" by metis
  with Cons show ?thesis by simp
qed (simp add: obj_get_Nil)

lemma html_word: "\<forall>c \<in> set s. \<not> html_white c \<Longrightarrow> s \<noteq> [] \<Longrightarrow> nothtmlwhite s = [s]"
proof (cases s)
  case (Cons c cs)
  moreover assume "\<forall>c \<in> set s. \<not> html_white c"
  ultimately show ?thesis
    by (simp add: nothtmlwhite_def words_of_word takeWhile_eq_all_conv [THEN iffD2] dropWhile_eq_Nil_conv [THEN iffD2])
qed simp

lemma proto_words: "k \<in> set object_proto \<Longrightarrow> nothtmlwhite k = [k]"
  by (rule html_word) (auto simp: object_proto_def lit_def html_white_def)

lemma data_step_refines:
  assumes "acceptData nt" "data_ok st"
  shows "data_ok (data_step undef nt p st)" "data_abs (data_step undef nt p st) = data_spec p (data_abs st)"
proof -
  have set: "data_ok (data_set nt k v st)" "data_abs (data_set nt k v st) =
      (case k of KStr s \<Rightarrow> map_put (data_abs st) (s, v) | KProps ps \<Rightarrow> foldl map_put (data_abs st) ps | KUndef \<Rightarrow> data_abs st)"
    for k and v :: 'a
    using assms foldl_put [of "case st of Some c \<Rightarrow> c | None \<Rightarrow> []" "[(s, v)]" for s]
      foldl_put [of "case st of Some c \<Rightarrow> c | None \<Rightarrow> []" "case k of KProps ps \<Rightarrow> ps | _ \<Rightarrow> []"]
    by (auto simp: data_set_def data_cache_def data_abs_def data_ok_def Let_def obj_get_Nil obj_ok_def
        split: option.splits data_key.splits)
  have rem: "data_ok (data_remove k st)" for k
    using assms(2) foldr_delete(2) by (auto simp: data_remove_def data_ok_def Let_def split: option.splits)
  have rem': "data_abs (data_remove k st) = data_spec (DRemove k) (data_abs st)" for k
  proof (cases st)
    case None
    then show ?thesis by (cases k) (simp_all add: data_remove_def data_abs_def)
  next
    case (Some c)
    have "data_abs (data_remove k st) = (if k = RUndef then Map.empty else obj_get c |` (- set (remove_keys k c)))"
      using Some foldr_delete(1) [of "remove_keys k c" c] obj_get_empty_iff [of "foldr obj_delete (remove_keys k c) c"]
      by (auto simp: data_remove_def data_abs_def Let_def)
    also have "\<dots> = data_spec (DRemove k) (obj_get c)"
      using proto_words by (cases k) (auto simp: remove_keys_def Let_def dom_def)
    finally show ?thesis using Some by (simp add: data_abs_def)
  qed
  show "data_ok (data_step undef nt p st)" using set(1) rem by (cases p) auto
  show "data_abs (data_step undef nt p st) = data_spec p (data_abs st)" using set(2) rem' by (cases p) auto
qed

lemma data_simulation:
  "acceptData nt \<Longrightarrow> simulation (data_step undef nt) data_spec data_abs data_ok"
  by unfold_locales (simp_all add: data_step_refines)

text \<open>The stores of elements, and of objects that are not nodes.\<close>

interpretation element_data: simulation "data_step undef (Some 1)" data_spec data_abs data_ok
  by (rule data_simulation) (simp add: acceptData_def)

interpretation object_data: simulation "data_step undef None" data_spec data_abs data_ok
  by (rule data_simulation) (simp add: acceptData_def)

text \<open>Nodes that are neither elements nor documents never get data.\<close>

lemma data_refused: "\<not> acceptData nt \<Longrightarrow> fold (data_step undef nt) ps None = None"
proof (induction ps)
  case (Cons p ps)
  then show ?case by (cases p) (simp_all add: data_set_def data_cache_def data_remove_def)
qed simp

lemma data_get_abs:
  "camelCase k \<notin> set object_proto \<Longrightarrow>
     data_get st k = (case data_abs st (camelCase k) of Some v \<Rightarrow> Own v | None \<Rightarrow> Undefined)"
  by (simp add: data_get_def cache_get_def data_abs_def split: option.splits)

text \<open>
  The name of an attribute and the key it is stored under: \<open>camelCase\<close> undoes the dashes that
  \<open>dataAttr\<close> puts before capital letters.
\<close>

definition ascii_lower :: "jstr \<Rightarrow> jstr" where
  "ascii_lower s = map (\<lambda>c. if 65 \<le> c \<and> c \<le> 90 then c + 32 else c) s"

lemma ascii_lower_simps [simp]:
  "ascii_lower [] = []" "ascii_lower (c # cs) = (if 65 \<le> c \<and> c \<le> 90 then c + 32 else c) # ascii_lower cs"
  by (simp_all add: ascii_lower_def)

lemma dash_alpha_plain: "c \<noteq> 45 \<Longrightarrow> dash_alpha (c # cs) = c # dash_alpha cs"
  by (cases cs) simp_all

lemma dash_alpha_multi_dash: "camel s \<Longrightarrow> dash_alpha (ascii_lower (multi_dash s)) = s"
proof (induction s rule: camel.induct)
  case (1 c d cs)
  then have ih: "dash_alpha (ascii_lower (multi_dash (d # cs))) = d # cs" and nd: "\<not> dashed c d" by auto
  show ?case
  proof (cases "65 \<le> c \<and> c \<le> 90")
    case True
    with ih show ?thesis by simp
  next
    case False
    show ?thesis
    proof (cases "c = 45")
      case True
      with nd ih False show ?thesis by (auto simp: dashed_def)
    next
      case False
      with ih \<open>\<not> (65 \<le> c \<and> c \<le> 90)\<close> show ?thesis
        by (simp add: dash_alpha_plain del: dash_alpha.simps(1) multi_dash.simps(2)) (simp add: dash_alpha_plain)
    qed
  qed
qed auto

section \<open>Properties\<close>

text \<open>
  C8. The data of an element implement a map from names in camel case to values: after any sequence
  of \<open>set\<close> (of one or several values) and \<open>remove\<close> (of one name, of a list of names in a string or
  an array, or of all), \<open>get\<close> answers what the abstract map holds for the name in either spelling,
  and \<open>hasData\<close> tells whether the map is not empty.
\<close>

theorem data_refines_map:
  fixes ps :: "'v data_op list"
  assumes "camelCase k \<notin> set object_proto"
  shows "data_get (fold (data_step undef (Some 1)) ps None) k =
      (case fold data_spec ps Map.empty (camelCase k) of Some v \<Rightarrow> Own v | None \<Rightarrow> Undefined) \<and>
    data_hasData (fold (data_step undef (Some 1)) ps None) = (fold data_spec ps Map.empty \<noteq> Map.empty)"
proof -
  let ?st = "fold (data_step undef (Some 1)) ps None"
  have abs: "data_abs ?st = fold data_spec ps Map.empty"
    using element_data.abs_run [of None undef ps] by (simp add: data_ok_def data_abs_def)
  have "data_hasData ?st = (data_abs ?st \<noteq> Map.empty)"
    by (auto simp: data_hasData_def data_abs_def obj_get_empty_iff split: option.splits)
  with abs show ?thesis by (simp add: data_get_abs [OF assms])
qed

theorem data_refines_map_witness:
  "data_get (fold (data_step 0 (Some 1)) [DSet (lit ''foo-bar'') 5, DSet (lit ''x'') 6, DRemove (RStr (lit ''x y''))] None) (lit ''fooBar'') = Own (5 :: int)"
proof -
  have k: "camelCase (lit ''fooBar'') \<notin> set object_proto" by code_simp
  have "fold data_spec [DSet (lit ''foo-bar'') 5, DSet (lit ''x'') 6, DRemove (RStr (lit ''x y''))] Map.empty (camelCase (lit ''fooBar'')) = Some (5 :: int)"
    by code_simp
  with data_refines_map [OF k, of 0 "[DSet (lit ''foo-bar'') (5 :: int), DSet (lit ''x'') 6, DRemove (RStr (lit ''x y''))]"]
  show ?thesis by (simp del: fold_simps)
qed

text \<open>
  A value stored under a key in camel case is found again through the name of its \<open>data-*\<close>
  attribute: \<open>camelCase\<close> of the attribute name that \<open>dataAttr\<close> computes for the key is the key,
  unless that name starts with \<open>data--ms-\<close>.
\<close>

theorem data_attr_round_trip:
  assumes "camel key" "\<not> prefix (lit ''-ms-'') (ascii_lower (multi_dash key))"
  shows "camelCase (drop 5 (attr_name ascii_lower key)) = key"
proof -
  have "drop 5 (attr_name ascii_lower key) = ascii_lower (multi_dash key)"
    by (simp add: attr_name_def lit_def)
  with assms show ?thesis by (simp add: camelCase_def dash_alpha_multi_dash)
qed

theorem data_attr_round_trip_witness:
  "camelCase (drop 5 (attr_name ascii_lower (lit ''lastValue''))) = lit ''lastValue'' \<and>
   attr_name ascii_lower (lit ''lastValue'') = lit ''data-last-value''"
proof
  show "camelCase (drop 5 (attr_name ascii_lower (lit ''lastValue''))) = lit ''lastValue''"
    by (rule data_attr_round_trip) (simp_all add: lit_def dashed_def)
qed (simp add: attr_name_def lit_def)

end
