(* ===== verification/JQ_Queue.thy ===== *)
theory JQ_Queue
  imports JQ_Data
begin

text \<open>
  \<open>jquery-3.5.1.js\<close>: the function queues of an element (\<open>queue\<close>, \<open>dequeue\<close>, \<open>clearQueue\<close>), kept in
  its private data under \<open>type + "queue"\<close> and \<open>type + "queueHooks"\<close>.

  The array of a queue is changed in place; the model writes it back to the cache when the cache
  holds it. The items are functions, or the sentinel \<open>"inprogress"\<close> that \<open>dequeue\<close> puts at the
  front of the \<open>fx\<close> queue while one of its functions runs. The \<open>empty\<close> callback list of the hooks
  first removes both entries from the cache; the model keeps the callbacks added after that one.

  A queued function is given by the queue operations it performs (its call of \<open>next\<close> is a
  \<open>Dequeue\<close>); it may also perform none and leave \<open>next\<close> to a later event. Nothing follows the call
  of the function in \<open>dequeue\<close>, so running its operations before the remaining ones is the order of
  the program.
\<close>

section \<open>The operations\<close>

datatype 'f qitem = InProgress | Run 'f

datatype 'f pval =
    PQueue "'f qitem list"
  | PHooks bool "nat list"   \<comment> \<open>whether \<open>stop\<close> is set, the callbacks of \<open>empty\<close>\<close>

datatype 'f qdata = NoData | QItem 'f | QArr "'f list"

definition fx :: jstr where "fx = lit ''fx''"

definition type_or_fx :: "jstr \<Rightarrow> jstr" where
  "type_or_fx t = (if t = [] then fx else t)"

definition queue_key :: "jstr \<Rightarrow> jstr" where "queue_key t = t @ lit ''queue''"
definition hooks_key :: "jstr \<Rightarrow> jstr" where "hooks_key t = t @ lit ''queueHooks''"

definition stored_queue :: "jstr \<Rightarrow> 'f pval cache option \<Rightarrow> 'f qitem list option" where
  "stored_queue t st = (case data_get st (queue_key t) of Own (PQueue q) \<Rightarrow> Some q | _ \<Rightarrow> None)"

definition write_queue ::
  "int option \<Rightarrow> jstr \<Rightarrow> 'f qitem list \<Rightarrow> 'f pval cache option \<Rightarrow> 'f pval cache option" where
  "write_queue nt t q st = data_set nt (KStr (queue_key t)) (PQueue q) st"

definition jq_queue ::
  "int option \<Rightarrow> jstr \<Rightarrow> 'f qdata \<Rightarrow> 'f pval cache option \<Rightarrow> 'f qitem list \<times> 'f pval cache option" where
  "jq_queue nt type data st =
     (let t = type_or_fx type; q = stored_queue t st in
      case data of
        NoData \<Rightarrow> (case q of Some xs \<Rightarrow> xs | None \<Rightarrow> [], st)
      | QArr fs \<Rightarrow> (map Run fs, write_queue nt t (map Run fs) st)
      | QItem f \<Rightarrow>
          let xs = (case q of Some xs \<Rightarrow> xs @ [Run f] | None \<Rightarrow> [Run f])
          in (xs, write_queue nt t xs st))"

definition queueHooks ::
  "int option \<Rightarrow> jstr \<Rightarrow> 'f pval cache option \<Rightarrow> (bool \<times> nat list) \<times> 'f pval cache option" where
  "queueHooks nt t st =
     (case data_get st (hooks_key t) of
        Own (PHooks stop cs) \<Rightarrow> ((stop, cs), st)
      | _ \<Rightarrow> ((False, []), data_set nt (KStr (hooks_key t)) (PHooks False []) st))"

text \<open>\<open>shift\<close>, once more after the sentinel: the function, the rest of the queue, \<open>startLength\<close>.\<close>

fun take_fn :: "'f qitem list \<Rightarrow> 'f option \<times> 'f qitem list \<times> nat" where
  "take_fn [] = (None, [], 0)"
| "take_fn (Run f # q) = (Some f, q, Suc (length q))"
| "take_fn (InProgress # Run f # q) = (Some f, q, Suc (length q))"
| "take_fn (InProgress # q) = (None, tl q, length q)"

text \<open>The function to call next, the callbacks of \<open>empty\<close> that ran, and the new store.\<close>

definition jq_dequeue ::
  "int option \<Rightarrow> jstr \<Rightarrow> 'f pval cache option \<Rightarrow> 'f option \<times> nat list \<times> 'f pval cache option" where
  "jq_dequeue nt type st =
     (let t = type_or_fx type;
          stored = (stored_queue t st \<noteq> None);
          (q, _) = jq_queue nt t NoData st;
          (f, q1, startLength) = take_fn q;
          ((stop, cs), st1) = queueHooks nt t st;
          q2 = (if f \<noteq> None \<and> t = fx then InProgress # q1 else q1);
          st2 = (if stored then write_queue nt t q2 st1 else st1);
          st3 = (if f \<noteq> None then data_set nt (KStr (hooks_key t)) (PHooks False cs) st2 else st2)
      in if startLength = 0 then (f, cs, data_remove (RArr [queue_key t, hooks_key t]) st3)
         else (f, [], st3))"

definition fn_queue ::
  "int option \<Rightarrow> jstr \<Rightarrow> 'f qdata \<Rightarrow> 'f pval cache option \<Rightarrow> 'f option \<times> nat list \<times> 'f pval cache option" where
  "fn_queue nt t data st =
     (let (q, st1) = jq_queue nt t data st;
          (h, st2) = queueHooks nt t st1
      in if t = fx \<and> (q = [] \<or> hd q \<noteq> InProgress) then jq_dequeue nt t st2 else (None, [], st2))"

definition clearQueue :: "int option \<Rightarrow> jstr \<Rightarrow> 'f pval cache option \<Rightarrow> 'f option \<times> nat list \<times> 'f pval cache option" where
  "clearQueue nt t st = fn_queue nt (type_or_fx t) (QArr []) st"

section \<open>Runs\<close>

datatype 'f qop = Queue jstr "'f qdata" | Dequeue jstr | Clear jstr

fun do_q :: "int option \<Rightarrow> 'f qop \<Rightarrow> 'f pval cache option \<Rightarrow> 'f option \<times> nat list \<times> 'f pval cache option" where
  "do_q nt (Queue t d) st = fn_queue nt t d st"
| "do_q nt (Dequeue t) st = jq_dequeue nt t st"
| "do_q nt (Clear t) st = clearQueue nt t st"

text \<open>The store, the functions that were called and the callbacks of \<open>empty\<close> that ran.\<close>

record 'f qworld =
  priv :: "'f pval cache option"
  called :: "'f list"
  emptied :: "nat list"

definition q_step :: "int option \<Rightarrow> 'f qop \<Rightarrow> 'f qworld \<Rightarrow> 'f option \<times> 'f qworld" where
  "q_step nt p w =
     (case do_q nt p (priv w) of
        (f, cs, st) \<Rightarrow>
          (f, w\<lparr>priv := st, called := called w @ (case f of Some g \<Rightarrow> [g] | None \<Rightarrow> []),
               emptied := emptied w @ cs\<rparr>))"

fun run_q :: "('f \<Rightarrow> 'f qop list) \<Rightarrow> int option \<Rightarrow> nat \<Rightarrow> 'f qop list \<Rightarrow> 'f qworld \<Rightarrow> 'f qworld option" where
  "run_q acts nt 0 ps w = None"
| "run_q acts nt (Suc n) [] w = Some w"
| "run_q acts nt (Suc n) (p # ps) w =
     (case q_step nt p w of
        (None, w1) \<Rightarrow> run_q acts nt n ps w1
      | (Some f, w1) \<Rightarrow> run_q acts nt n (acts f @ ps) w1)"

section \<open>The fx queue as a first-in-first-out queue\<close>

datatype 'f fx_op = Enq 'f | Next | ClearFx

fun fx_qop :: "'f fx_op \<Rightarrow> 'f qop" where
  "fx_qop (Enq f) = Queue fx (QItem f)"
| "fx_qop Next = Dequeue fx"
| "fx_qop ClearFx = Clear fx"

text \<open>
  The specification: at most one function is in progress; a function that arrives while none is in
  progress starts at once, otherwise it waits; the end of a function starts the one that waits
  longest.
\<close>

record 'f fifo =
  busy :: bool
  waiting :: "'f list"
  started :: "'f list"

fun fifo_spec :: "'f fx_op \<Rightarrow> 'f fifo \<Rightarrow> 'f fifo" where
  "fifo_spec (Enq f) s =
     (if busy s then s\<lparr>waiting := waiting s @ [f]\<rparr> else s\<lparr>busy := True, started := started s @ [f]\<rparr>)"
| "fifo_spec Next s =
     (case waiting s of
        [] \<Rightarrow> s\<lparr>busy := False\<rparr>
      | f # fs \<Rightarrow> s\<lparr>busy := True, waiting := fs, started := started s @ [f]\<rparr>)"
| "fifo_spec ClearFx s = s\<lparr>busy := False, waiting := []\<rparr>"

text \<open>The stores that hold a given \<open>fx\<close> queue, and hooks or none.\<close>

definition holds :: "'f pval cache option \<Rightarrow> 'f qitem list option \<Rightarrow> bool" where
  "holds st q =
     (data_ok st \<and>
      data_get st (queue_key fx) = (case q of Some xs \<Rightarrow> Own (PQueue xs) | None \<Rightarrow> Undefined) \<and>
      (data_get st (hooks_key fx) = Undefined \<or> (\<exists>s cs. data_get st (hooks_key fx) = Own (PHooks s cs))))"

definition fx_ok :: "'f qworld \<Rightarrow> bool" where
  "fx_ok w = (holds (priv w) None \<or> (\<exists>fs. holds (priv w) (Some (InProgress # map Run fs))))"

fun run_fns :: "'f qitem list \<Rightarrow> 'f list" where
  "run_fns [] = []"
| "run_fns (Run f # q) = f # run_fns q"
| "run_fns (InProgress # q) = run_fns q"

definition fx_abs :: "'f qworld \<Rightarrow> 'f fifo" where
  "fx_abs w =
     (case stored_queue fx (priv w) of
        Some (InProgress # q) \<Rightarrow> \<lparr>busy = True, waiting = run_fns q, started = called w\<rparr>
      | _ \<Rightarrow> \<lparr>busy = False, waiting = [], started = called w\<rparr>)"

lemma fx_keys [simp]:
  "camelCase (queue_key fx) = queue_key fx" "camelCase (hooks_key fx) = hooks_key fx"
  "queue_key fx \<noteq> hooks_key fx" "hooks_key fx \<noteq> queue_key fx" "queue_key fx \<notin> set object_proto" "hooks_key fx \<notin> set object_proto"
  by code_simp+

lemma type_or_fx_fx [simp]: "type_or_fx fx = fx"
  by (simp add: type_or_fx_def)

lemma data_get_set:
  assumes "acceptData nt" "data_ok st" "camelCase j \<notin> set object_proto"
  shows "data_get (data_set nt (KStr k) v st) j = (if camelCase j = camelCase k then Own v else data_get st j)"
  using data_step_refines(2) [OF assms(1,2), of v "DSet k v"]
  by (simp add: data_get_abs [OF assms(3)] map_put_def)

lemma data_ok_set: "acceptData nt \<Longrightarrow> data_ok st \<Longrightarrow> data_ok (data_set nt (KStr k) v st)"
  using data_step_refines(1) [of nt st v "DSet k v"] by simp

lemma data_get_remove:
  assumes "data_ok st" "camelCase j \<notin> set object_proto"
  shows "data_get (data_remove (RArr ks) st) j = (if camelCase j \<in> set (map camelCase ks) then Undefined else data_get st j)"
  using data_step_refines(2) [of None st undefined "DRemove (RArr ks)"] assms
  by (simp add: data_get_abs [OF assms(2)] acceptData_def restrict_map_def)

lemma data_ok_remove: "data_ok st \<Longrightarrow> data_ok (data_remove k st)"
  using data_step_refines(1) [of None st undefined "DRemove k"] by (simp add: acceptData_def)

lemmas data_laws = data_get_set data_ok_set data_get_remove data_ok_remove

lemma holds_write:
  "acceptData nt \<Longrightarrow> holds st q \<Longrightarrow> holds (write_queue nt fx xs st) (Some xs)"
  by (auto simp: holds_def write_queue_def data_laws)

lemma holds_hooks:
  "acceptData nt \<Longrightarrow> holds st q \<Longrightarrow> holds (snd (queueHooks nt fx st)) q"
  by (auto simp: holds_def queueHooks_def data_laws split: option.splits)

lemma holds_set_hooks:
  "acceptData nt \<Longrightarrow> holds st q \<Longrightarrow> holds (data_set nt (KStr (hooks_key fx)) (PHooks b cs) st) q"
  by (auto simp: holds_def data_laws)

lemma holds_removed: "holds st q \<Longrightarrow> holds (data_remove (RArr [queue_key fx, hooks_key fx]) st) None"
  by (auto simp: holds_def data_laws)

lemma stored_holds: "holds st q \<Longrightarrow> stored_queue fx st = q"
  by (auto simp: holds_def stored_queue_def split: option.splits)

text \<open>What \<open>dequeue\<close> does with a stored queue: take the next function, or remove the queue.\<close>

lemma dequeue_holds:
  assumes "acceptData nt" "holds st oq" "take_fn (case oq of Some q \<Rightarrow> q | None \<Rightarrow> []) = (f, q1, n)"
    and "n = 0 \<longleftrightarrow> f = None"
  shows "\<exists>cs st'. jq_dequeue nt fx st = (f, cs, st') \<and> holds st' (if f = None then None else Some (InProgress # q1))"
proof -
  obtain h st1 where h: "queueHooks nt fx st = (h, st1)" by (cases "queueHooks nt fx st")
  obtain b cs where hb: "h = (b, cs)" by (cases h)
  have h1: "holds st1 oq" using holds_hooks [OF assms(1,2)] h by simp
  let ?q2 = "if f \<noteq> None then InProgress # q1 else q1"
  let ?st2 = "if oq \<noteq> None then write_queue nt fx ?q2 st1 else st1"
  let ?st3 = "if f \<noteq> None then data_set nt (KStr (hooks_key fx)) (PHooks False cs) ?st2 else ?st2"
  have q: "jq_queue nt fx NoData st = (case oq of Some q \<Rightarrow> q | None \<Rightarrow> [], st)"
    using stored_holds [OF assms(2)] by (simp add: jq_queue_def)
  have eq: "jq_dequeue nt fx st =
      (if n = 0 then (f, cs, data_remove (RArr [queue_key fx, hooks_key fx]) ?st3) else (f, [], ?st3))"
    using q assms(3) h hb stored_holds [OF assms(2)] by (simp add: jq_dequeue_def Let_def)
  have h2: "holds ?st2 (if oq \<noteq> None then Some ?q2 else None)" using h1 holds_write [OF assms(1) h1] by auto
  have h3: "holds ?st3 (if oq \<noteq> None then Some ?q2 else None)" using h2 holds_set_hooks [OF assms(1) h2] by auto
  show ?thesis
  proof (cases f)
    case None
    with assms(4) have "n = 0" by simp
    with eq holds_removed [OF h3] None show ?thesis by auto
  next
    case (Some g)
    with assms(3) have "oq \<noteq> None" by (auto split: option.splits)
    with assms(4) eq h3 Some show ?thesis by auto
  qed
qed

lemma run_fns_map [simp]: "run_fns (map Run fs) = fs"
  by (induction fs) auto

lemma fx_abs_holds:
  "holds (priv w) None \<Longrightarrow> fx_abs w = \<lparr>busy = False, waiting = [], started = called w\<rparr>"
  "holds (priv w) (Some (InProgress # map Run fs)) \<Longrightarrow> fx_abs w = \<lparr>busy = True, waiting = fs, started = called w\<rparr>"
  by (simp_all add: fx_abs_def stored_holds)

text \<open>The waiting functions when one is in progress, before and after an operation.\<close>

fun fx_next :: "'f fx_op \<Rightarrow> 'f list option \<Rightarrow> 'f option \<times> 'f list option" where
  "fx_next (Enq f) None = (Some f, Some [])"
| "fx_next (Enq f) (Some fs) = (None, Some (fs @ [f]))"
| "fx_next Next (Some (f # fs)) = (Some f, Some fs)"
| "fx_next Next _ = (None, None)"
| "fx_next ClearFx _ = (None, None)"

abbreviation with_sentinel :: "'f list option \<Rightarrow> 'f qitem list option" where
  "with_sentinel wait \<equiv> map_option (\<lambda>fs. InProgress # map Run fs) wait"

lemma fx_abs_wait:
  "holds (priv w) (with_sentinel wait) \<Longrightarrow>
     fx_abs w = \<lparr>busy = (wait \<noteq> None), waiting = (case wait of Some fs \<Rightarrow> fs | None \<Rightarrow> []), started = called w\<rparr>"
  by (cases wait) (simp_all add: fx_abs_holds)

lemma do_fx:
  assumes "acceptData nt" "holds st (with_sentinel wait)"
  shows "\<exists>cs st'. do_q nt (fx_qop p) st = (fst (fx_next p wait), cs, st') \<and>
    holds st' (with_sentinel (snd (fx_next p wait)))"
proof (cases p)
  case (Enq f)
  let ?q = "case wait of Some fs \<Rightarrow> InProgress # map Run (fs @ [f]) | None \<Rightarrow> [Run f]"
  have q: "jq_queue nt fx (QItem f) st = (?q, write_queue nt fx ?q st)"
    using stored_holds [OF assms(2)] by (simp add: jq_queue_def Let_def split: option.splits)
  let ?st1 = "snd (queueHooks nt fx (write_queue nt fx ?q st))"
  have st1: "holds ?st1 (Some ?q)" by (rule holds_hooks [OF assms(1) holds_write [OF assms]])
  have eq: "do_q nt (fx_qop p) st = (if ?q = [] \<or> hd ?q \<noteq> InProgress then jq_dequeue nt fx ?st1 else (None, [], ?st1))"
    using Enq q by (simp add: fn_queue_def Let_def split: prod.splits)
  show ?thesis
  proof (cases wait)
    case None
    then show ?thesis using Enq eq dequeue_holds [OF assms(1) st1, of "Some f" "[]" 1] by auto
  next
    case (Some fs)
    with eq st1 Enq show ?thesis by auto
  qed
next
  case Next
  show ?thesis
  proof (cases "case wait of Some fs \<Rightarrow> fs | None \<Rightarrow> []")
    case Nil
    then have "take_fn (case with_sentinel wait of Some q \<Rightarrow> q | None \<Rightarrow> []) = (None, [], 0)"
      by (auto split: option.splits)
    from dequeue_holds [OF assms this] Next Nil show ?thesis by (auto split: option.splits)
  next
    case (Cons f fs)
    then have "take_fn (case with_sentinel wait of Some q \<Rightarrow> q | None \<Rightarrow> []) = (Some f, map Run fs, Suc (length fs))"
      by (auto split: option.splits)
    from dequeue_holds [OF assms this] Next Cons show ?thesis by (auto split: option.splits)
  qed
next
  case ClearFx
  have "jq_queue nt fx (QArr []) st = ([], write_queue nt fx [] st)"
    by (simp add: jq_queue_def)
  then have eq: "do_q nt (fx_qop p) st = jq_dequeue nt fx (snd (queueHooks nt fx (write_queue nt fx [] st)))"
    using ClearFx by (simp add: clearQueue_def fn_queue_def Let_def split: prod.splits)
  have "holds (snd (queueHooks nt fx (write_queue nt fx [] st))) (Some [])"
    by (rule holds_hooks [OF assms(1) holds_write [OF assms]])
  from dequeue_holds [OF assms(1) this] eq ClearFx show ?thesis by auto
qed

lemma fx_ok_wait: "fx_ok w \<longleftrightarrow> (\<exists>wait. holds (priv w) (with_sentinel wait))"
  unfolding fx_ok_def by (metis not_None_eq option.map(1) option.map(2))

lemma fx_simulation:
  assumes "acceptData nt"
  shows "simulation (\<lambda>p w. snd (q_step nt (fx_qop p) w)) fifo_spec fx_abs fx_ok"
proof
  fix p and w :: "'f qworld"
  assume "fx_ok w"
  then obtain wait where h: "holds (priv w) (with_sentinel wait)" unfolding fx_ok_wait by blast
  from do_fx [OF assms h, of p] obtain cs st' where
    st: "do_q nt (fx_qop p) (priv w) = (fst (fx_next p wait), cs, st')" "holds st' (with_sentinel (snd (fx_next p wait)))"
    by blast
  let ?w = "snd (q_step nt (fx_qop p) w)"
  have w: "priv ?w = st'" "called ?w = called w @ (case fst (fx_next p wait) of Some g \<Rightarrow> [g] | None \<Rightarrow> [])"
    using st(1) by (simp_all add: q_step_def)
  show "fx_ok ?w" unfolding fx_ok_wait using st(2) w(1) by blast
  show "fx_abs ?w = fifo_spec p (fx_abs w)"
    unfolding fx_abs_wait [OF h] fx_abs_wait [of ?w, unfolded w(1), OF st(2)] w(2)
    by (cases p; cases wait; cases "case wait of Some fs \<Rightarrow> fs | None \<Rightarrow> []") auto
qed

interpretation fx_queue: simulation "\<lambda>p w. snd (q_step (Some 1) (fx_qop p) w)" fifo_spec fx_abs fx_ok
  by (rule fx_simulation) (simp add: acceptData_def)

text \<open>In the specification functions start in the order in which they arrive.\<close>

fun arrivals :: "'f fx_op list \<Rightarrow> 'f list" where
  "arrivals [] = []"
| "arrivals (Enq f # ps) = f # arrivals ps"
| "arrivals (p # ps) = arrivals ps"

lemma fifo_order:
  "ClearFx \<notin> set ps \<Longrightarrow> waiting s \<noteq> [] \<longrightarrow> busy s \<Longrightarrow>
     (let s' = fold fifo_spec ps s in
      started s' @ waiting s' = started s @ waiting s @ arrivals ps \<and> (waiting s' \<noteq> [] \<longrightarrow> busy s'))"
proof (induction ps arbitrary: s)
  case (Cons p ps)
  show ?case
  proof (cases p)
    case (Enq f)
    with Cons.IH [of "fifo_spec p s"] Cons.prems show ?thesis by (auto simp: Let_def)
  next
    case Next
    with Cons.IH [of "fifo_spec p s"] Cons.prems show ?thesis by (auto simp: Let_def split: list.splits)
  qed (use Cons.prems in auto)
qed simp

text \<open>The machine that runs the functions makes exactly the steps of their operations.\<close>

definition fx_run :: "'f fx_op list \<Rightarrow> 'f qworld \<Rightarrow> 'f qworld" where
  "fx_run ps w = fold (\<lambda>p w. snd (q_step (Some 1) (fx_qop p) w)) ps w"

lemma run_q_steps:
  assumes "\<And>f. acts f = map fx_qop (body f)" "run_q acts (Some 1) n (map fx_qop ps) w = Some w'"
  shows "\<exists>qs. w' = fx_run qs w"
  using assms(2)
proof (induction n arbitrary: ps w)
  case (Suc n)
  show ?case
  proof (cases ps)
    case Nil
    with Suc.prems show ?thesis by (intro exI [of _ "[]"]) (simp add: fx_run_def)
  next
    case (Cons p rest)
    obtain f w1 where st: "q_step (Some 1) (fx_qop p) w = (f, w1)" by (cases "q_step (Some 1) (fx_qop p) w")
    have "run_q acts (Some 1) n (map fx_qop ((case f of Some g \<Rightarrow> body g | None \<Rightarrow> []) @ rest)) w1 = Some w'"
    proof (cases f)
      case (Some g)
      with Suc.prems Cons st show ?thesis by (simp add: assms(1) [of g])
    qed (use Suc.prems Cons st in simp)
    from Suc.IH [OF this] obtain qs where "w' = fx_run qs w1" by blast
    then have "w' = fx_run (p # qs) w" using st by (simp add: fx_run_def)
    then show ?thesis by blast
  qed
qed simp

text \<open>
  Without \<open>clearQueue\<close> the functions of the \<open>fx\<close> queue are called in the order in which they were
  queued, each at most once, and those not called yet are waiting behind one in progress.
\<close>

lemma fx_queue_order:
  assumes "ClearFx \<notin> set ps" "w = fx_run ps \<lparr>priv = None, called = [], emptied = []\<rparr>"
  shows "called w @ waiting (fx_abs w) = arrivals ps \<and> (waiting (fx_abs w) \<noteq> [] \<longrightarrow> busy (fx_abs w))"
proof -
  let ?w = "\<lparr>priv = None, called = [], emptied = []\<rparr> :: 'a qworld"
  have h: "holds (priv ?w) None" by (simp add: holds_def data_ok_def data_get_def)
  have abs: "fx_abs w = fold fifo_spec ps \<lparr>busy = False, waiting = [], started = []\<rparr>"
    using fx_queue.abs_run [of ?w ps] h fx_abs_holds(1) [OF h] assms(2) by (simp add: fx_ok_def fx_run_def)
  have "started (fx_abs w) = called w" by (simp add: fx_abs_def split: option.splits list.splits qitem.splits)
  with fifo_order [OF assms(1), of "\<lparr>busy = False, waiting = [], started = []\<rparr>"] show ?thesis
    by (simp add: abs Let_def)
qed

section \<open>Properties\<close>

text \<open>
  C7. The \<open>fx\<close> queue of an element is a first-in-first-out queue with at most one function in
  progress: whatever sequence of \<open>.queue( fn )\<close>, \<open>dequeue\<close> (\<open>next\<close>) and \<open>clearQueue\<close> calls is made,
  the sentinel, the stored array and the functions called are those of the specification.
\<close>

theorem fx_queue_refines_fifo:
  "fx_abs (fx_run ps \<lparr>priv = None, called = [], emptied = []\<rparr>) =
   fold fifo_spec ps \<lparr>busy = False, waiting = [], started = []\<rparr>"
proof -
  let ?w = "\<lparr>priv = None, called = [], emptied = []\<rparr> :: 'a qworld"
  have h: "holds (priv ?w) None" by (simp add: holds_def data_ok_def data_get_def)
  then have "fx_ok ?w" by (simp add: fx_ok_def)
  from fx_queue.abs_run [OF this, of ps] show ?thesis
    using fx_abs_holds(1) [OF h] by (simp add: fx_run_def)
qed

end
