(* ===== verification/JQ_Attributes.thy ===== *)
theory JQ_Attributes
  imports JQ_Data
begin

text \<open>
  \<open>jquery-3.5.1.js\<close>: the class names of elements (\<open>stripAndCollapse\<close>, \<open>getClass\<close>, \<open>addClass\<close>,
  \<open>removeClass\<close>, \<open>toggleClass\<close>, \<open>hasClass\<close>). The elements are those of \<open>JQ_Data\<close>: \<open>toggleClass\<close>
  keeps a whole class attribute in the private data. A function argument returns a string, an
  array, a boolean or nothing.
\<close>

section \<open>The operations\<close>

definition stripAndCollapse :: "jstr \<Rightarrow> jstr" where
  "stripAndCollapse s = join [32] (nothtmlwhite s)"

definition getClass :: "delem \<Rightarrow> jstr" where
  "getClass e = (case map_of (attributes e) (lit ''class'') of Some s \<Rightarrow> s | None \<Rightarrow> [])"

definition setAttribute :: "jstr \<Rightarrow> jstr \<Rightarrow> delem \<Rightarrow> delem" where
  "setAttribute k v e =
     e\<lparr>attributes :=
        (if k \<in> fst ` set (attributes e)
         then map (\<lambda>(k', v'). if k' = k then (k, v) else (k', v')) (attributes e)
         else attributes e @ [(k, v)])\<rparr>"

datatype cls_val = CStr jstr | CArr "jstr list" | CBool bool | CUndef

datatype cls_arg = Val cls_val | Fun "nat \<Rightarrow> jstr \<Rightarrow> cls_val"

definition classesToArray :: "cls_val \<Rightarrow> jstr list" where
  "classesToArray v = (case v of CArr xs \<Rightarrow> xs | CStr s \<Rightarrow> nothtmlwhite s | _ \<Rightarrow> [])"

definition padded :: "jstr \<Rightarrow> jstr" where
  "padded s = [32] @ s @ [32]"

text \<open>\<open>while ( ( clazz = classes[ j++ ] ) )\<close> ends at an empty name.\<close>

fun add_loop :: "jstr list \<Rightarrow> jstr \<Rightarrow> jstr" where
  "add_loop [] cur = cur"
| "add_loop (c # cs) cur =
     (if c = [] then cur
      else add_loop cs (if indexOf cur (padded c) < 0 then cur @ c @ [32] else cur))"

definition add_to :: "jstr list \<Rightarrow> delem \<Rightarrow> delem" where
  "add_to classes e =
     (if nodeType e = Some 1 then
        let curValue = getClass e;
            finalValue = stripAndCollapse (add_loop classes (padded (stripAndCollapse curValue)))
        in if curValue \<noteq> finalValue then setAttribute (lit ''class'') finalValue e else e
      else e)"

text \<open>\<open>cur.replace( " " + clazz + " ", " " )\<close> replaces the first occurrence.\<close>

definition replace_once :: "jstr \<Rightarrow> jstr \<Rightarrow> jstr \<Rightarrow> jstr" where
  "replace_once p r s =
     (case str_find p s of None \<Rightarrow> s | Some i \<Rightarrow> take i s @ r @ drop (i + length p) s)"

function remove_all :: "jstr \<Rightarrow> jstr \<Rightarrow> jstr" where
  "remove_all c cur =
     (if c \<noteq> [] \<and> indexOf cur (padded c) > -1
      then remove_all c (replace_once (padded c) [32] cur) else cur)"
  by pat_completeness auto
termination
proof (relation "measure (\<lambda>(c, cur). length cur)", simp, goal_cases)
  case (1 c cur)
  then obtain i where i: "str_find (padded c) cur = Some i"
    by (auto simp: indexOf_def split: option.splits)
  from str_find_SomeD [OF this] have "i + length (padded c) \<le> length cur" by blast
  with 1 i show ?case by (cases c) (auto simp: replace_once_def padded_def)
qed

declare remove_all.simps [simp del]

fun rem_loop :: "jstr list \<Rightarrow> jstr \<Rightarrow> jstr" where
  "rem_loop [] cur = cur"
| "rem_loop (c # cs) cur = (if c = [] then cur else rem_loop cs (remove_all c cur))"

definition remove_from :: "jstr list \<Rightarrow> delem \<Rightarrow> delem" where
  "remove_from classes e =
     (if nodeType e = Some 1 then
        let curValue = getClass e;
            finalValue = stripAndCollapse (rem_loop classes (padded (stripAndCollapse curValue)))
        in if curValue \<noteq> finalValue then setAttribute (lit ''class'') finalValue e else e
      else e)"

fun map_index :: "(nat \<Rightarrow> 'a \<Rightarrow> 'b) \<Rightarrow> nat \<Rightarrow> 'a list \<Rightarrow> 'b list" where
  "map_index f i [] = []"
| "map_index f i (x # xs) = f i x # map_index f (Suc i) xs"

definition addClass_val :: "cls_val \<Rightarrow> delem list \<Rightarrow> delem list" where
  "addClass_val v es = (let classes = classesToArray v in if classes \<noteq> [] then map (add_to classes) es else es)"

definition addClass :: "cls_arg \<Rightarrow> delem list \<Rightarrow> delem list" where
  "addClass a es =
     (case a of
        Val v \<Rightarrow> addClass_val v es
      | Fun f \<Rightarrow> concat (map_index (\<lambda>j e. addClass_val (f j (getClass e)) [e]) 0 es))"

definition removeClass_val :: "cls_val \<Rightarrow> delem list \<Rightarrow> delem list" where
  "removeClass_val v es =
     (let classes = classesToArray v in if classes \<noteq> [] then map (remove_from classes) es else es)"

text \<open>\<open>None\<close> is a call without an argument, which sets the attribute to the empty string.\<close>

definition removeClass :: "cls_arg option \<Rightarrow> delem list \<Rightarrow> delem list" where
  "removeClass a es =
     (case a of
        None \<Rightarrow> map (\<lambda>e. if nodeType e = Some 1 then setAttribute (lit ''class'') [] e else e) es
      | Some (Val v) \<Rightarrow> removeClass_val v es
      | Some (Fun f) \<Rightarrow> concat (map_index (\<lambda>j e. removeClass_val (f j (getClass e)) [e]) 0 es))"

definition hasClass :: "jstr \<Rightarrow> delem list \<Rightarrow> bool" where
  "hasClass sel es =
     list_ex (\<lambda>e. nodeType e = Some 1 \<and> indexOf (padded (stripAndCollapse (getClass e))) (padded sel) > -1) es"

fun toggle_names :: "jstr list \<Rightarrow> delem \<Rightarrow> delem" where
  "toggle_names [] e = e"
| "toggle_names (c # cs) e =
     (if c = [] then e
      else toggle_names cs
        (hd (if hasClass c [e] then removeClass_val (CStr c) [e] else addClass_val (CStr c) [e])))"

definition toggle_whole :: "cls_val \<Rightarrow> delem \<Rightarrow> delem" where
  "toggle_whole v e =
     (let className = getClass e;
          e1 = (if className \<noteq> []
                then e\<lparr>dataPriv := data_set (nodeType e) (KStr (lit ''__className__'')) (VStr className) (dataPriv e)\<rparr>
                else e);
          saved = (case data_get (dataPriv e1) (lit ''__className__'') of Own (VStr s) \<Rightarrow> s | _ \<Rightarrow> [])
      in if nodeType e = Some 1
         then setAttribute (lit ''class'') (if className \<noteq> [] \<or> v = CBool False then [] else saved) e1
         else e1)"

definition toggle_val :: "cls_val \<Rightarrow> bool option \<Rightarrow> delem list \<Rightarrow> delem list" where
  "toggle_val v stateVal es =
     (let isValidValue = (case v of CStr _ \<Rightarrow> True | CArr _ \<Rightarrow> True | _ \<Rightarrow> False) in
      if stateVal \<noteq> None \<and> isValidValue
      then (if stateVal = Some True then addClass_val v es else removeClass_val v es)
      else map (\<lambda>e. if isValidValue then toggle_names (classesToArray v) e else toggle_whole v e) es)"

definition toggleClass :: "cls_arg \<Rightarrow> bool option \<Rightarrow> delem list \<Rightarrow> delem list" where
  "toggleClass a stateVal es =
     (case a of
        Val v \<Rightarrow> toggle_val v stateVal es
      | Fun f \<Rightarrow> concat (map_index (\<lambda>i e. toggle_val (f i (getClass e)) stateVal [e]) 0 es))"

section \<open>Class lists as lists of names\<close>

lemma words_of_append_sep: "sep c \<Longrightarrow> words_of sep (u @ c # v) = words_of sep u @ words_of sep v"
proof (induction sep u rule: words_of.induct)
  case (1 sep u)
  show ?case
  proof (cases "dropWhile sep u")
    case Nil
    then have "words_of sep u = []" by (simp add: words_of.simps [of sep u] del: dropWhile_eq_Nil_conv)
    moreover have "dropWhile sep (u @ c # v) = dropWhile sep v"
      using Nil 1(2) by (auto simp: dropWhile_append)
    ultimately show ?thesis by (simp add: words_of.simps [of sep "u @ c # v"] words_of.simps [of sep v])
  next
    case (Cons d ds)
    then obtain x where "x \<in> set u" "\<not> sep x" by (metis dropWhile_eq_Nil_conv list.distinct(1))
    with Cons have d: "dropWhile sep (u @ c # v) = d # ds @ c # v" by (simp add: dropWhile_append1)
    have tw: "takeWhile (\<lambda>x. \<not> sep x) (ds @ c # v) = takeWhile (\<lambda>x. \<not> sep x) ds"
      using 1(2) by (induction ds) auto
    have dw: "dropWhile (\<lambda>x. \<not> sep x) (ds @ c # v) = dropWhile (\<lambda>x. \<not> sep x) ds @ c # v"
      using 1(2) by (induction ds) auto
    show ?thesis
      using 1(1) [OF Cons 1(2)] Cons d tw dw by (simp add: words_of.simps [of sep "u @ c # v"] words_of.simps [of sep u])
  qed
qed

definition class_word :: "jstr \<Rightarrow> bool" where
  "class_word c = (c \<noteq> [] \<and> list_all (\<lambda>x. \<not> html_white x) c)"

lemma words_word: "class_word c \<Longrightarrow> nothtmlwhite c = [c]"
  by (rule html_word) (auto simp: class_word_def list_all_iff)

lemma white_32 [simp]: "html_white 32"
  by (simp add: html_white_def)

abbreviation names :: "jstr \<Rightarrow> jstr list" where
  "names s \<equiv> nothtmlwhite s"

lemma names_append: "names (u @ 32 # v) = names u @ names v"
  by (simp add: nothtmlwhite_def words_of_append_sep)

lemma names_Nil [simp]: "names [] = []"
  by (simp add: nothtmlwhite_def)

lemma names_word: "n \<in> set (names s) \<Longrightarrow> class_word n"
  by (auto simp: nothtmlwhite_def class_word_def list_all_iff dest: words_of_not_empty words_of_no_sep)

lemma names_join: "\<forall>n \<in> set ns. class_word n \<Longrightarrow> names (join [32] ns) = ns"
proof (induction ns)
  case (Cons x xs)
  then show ?case
    using names_append [of x "join [32] xs"] by (cases "xs = []") (simp_all add: join_Cons words_word)
qed simp

lemma names_strip [simp]: "names (stripAndCollapse s) = names s"
  by (simp add: stripAndCollapse_def names_join names_word)

text \<open>
  The strings the loops work on: they start and end with a space, and spaces are their only white
  space. Then a padded name occurs exactly when it is one of the names.
\<close>

definition spaced_out :: "jstr \<Rightarrow> bool" where
  "spaced_out s = ((\<exists>t. s = t @ [32]) \<and> (\<exists>t. s = 32 # t) \<and> (\<forall>c \<in> set s. html_white c \<longrightarrow> c = 32))"

lemma names_padded [simp]: "names (padded s) = names s"
  using names_append [of "[]" "s @ [32]"] names_append [of s "[]"] by (simp add: padded_def)

lemma words_of_in:
  "c \<in> set (words_of sep s) \<Longrightarrow> \<exists>u v. s = u @ c @ v \<and> (u = [] \<or> sep (last u)) \<and> (v = [] \<or> sep (hd v))"
proof (induction sep s rule: words_of.induct)
  case (1 sep s)
  show ?case
  proof (cases "dropWhile sep s")
    case Nil
    with 1(2) show ?thesis by (simp add: words_of.simps [of sep s] del: dropWhile_eq_Nil_conv)
  next
    case (Cons d ds)
    let ?w = "d # takeWhile (\<lambda>x. \<not> sep x) ds" and ?r = "dropWhile (\<lambda>x. \<not> sep x) ds"
    have s: "s = takeWhile sep s @ ?w @ ?r" using Cons takeWhile_dropWhile_id [of sep s] by simp
    have sp: "takeWhile sep s = [] \<or> sep (last (takeWhile sep s))"
      by (metis last_in_set set_takeWhileD)
    have r: "?r = [] \<or> sep (hd ?r)" using hd_dropWhile by blast
    from 1(2) Cons consider "c = ?w" | "c \<in> set (words_of sep ?r)"
      by (auto simp: words_of.simps [of sep s])
    then show ?thesis
    proof cases
      case 1
      with s sp r show ?thesis by blast
    next
      case 2
      from "1.IH" [OF Cons 2] obtain u v where
        uv: "?r = u @ c @ v" "u = [] \<or> sep (last u)" "v = [] \<or> sep (hd v)" by blast
      have "c \<noteq> []" "\<not> sep (hd c)" using 2 words_of_not_empty words_of_no_sep by (blast, metis 2 list.set_sel(1) words_of_no_sep words_of_not_empty)
      with uv r have "u \<noteq> []" by (cases u) auto
      with uv s show ?thesis
        by (intro exI [of _ "takeWhile sep s @ ?w @ u"] exI [of _ v]) simp
    qed
  qed
qed

lemma occurs_iff:
  assumes "class_word c" "spaced_out s"
  shows "sublist (padded c) s \<longleftrightarrow> c \<in> set (names s)"
proof
  assume "sublist (padded c) s"
  then obtain u v where "s = u @ padded c @ v" by (auto simp: sublist_def)
  then have "names s = names u @ names c @ names v"
    using names_append [of u "c @ 32 # v"] names_append [of c v] by (simp add: padded_def)
  with words_word [OF assms(1)] show "c \<in> set (names s)" by simp
next
  assume "c \<in> set (names s)"
  then obtain u v where uv: "s = u @ c @ v" "u = [] \<or> html_white (last u)" "v = [] \<or> html_white (hd v)"
    using words_of_in [of c html_white s] by (auto simp: nothtmlwhite_def)
  have c: "c \<noteq> []" "\<not> html_white (hd c)" "\<not> html_white (last c)"
    using assms(1) by (auto simp: class_word_def list_all_iff)
  obtain t t' where t: "s = 32 # t" "s = t' @ [32]" using assms(2) unfolding spaced_out_def by blast
  have ends: "hd s = 32" "last s = 32" using t(1) list.sel(1) [of 32 t] t(2) last_snoc [of t' 32] by argo+
  have "u \<noteq> []"
  proof
    assume "u = []"
    then have "hd s = hd c" using uv(1) c(1) by simp
    with ends(1) c(2) show False by simp
  qed
  moreover have "v \<noteq> []"
  proof
    assume "v = []"
    then have "last s = last c" using uv(1) c(1) by simp
    with ends(2) c(3) show False by simp
  qed
  ultimately have "last u \<in> set s" "hd v \<in> set s" "html_white (last u)" "html_white (hd v)" using uv by auto
  then have "last u = 32" "hd v = 32" using assms(2) unfolding spaced_out_def by blast+
  with \<open>u \<noteq> []\<close> \<open>v \<noteq> []\<close> have "u = butlast u @ [32]" "v = 32 # tl v" by (metis append_butlast_last_id, metis list.collapse)
  then obtain a b where "u = a @ [32]" "v = 32 # b" by blast
  then have "s = a @ padded c @ b" using uv(1) by (simp add: padded_def)
  then show "sublist (padded c) s" by (auto simp: sublist_def)
qed

lemma spaced_out_padded: "\<forall>n \<in> set ns. class_word n \<Longrightarrow> spaced_out (padded (join [32] ns))"
proof -
  assume "\<forall>n \<in> set ns. class_word n"
  then have "\<forall>c \<in> set (join [32] ns). html_white c \<longrightarrow> c = 32"
  proof (induction ns)
    case (Cons n ns)
    then show ?case by (cases "ns = []") (auto simp: join_Cons class_word_def list_all_iff)
  qed simp
  then show ?thesis by (auto simp: spaced_out_def padded_def)
qed

lemma spaced_out_strip: "spaced_out (padded (stripAndCollapse s))"
  unfolding stripAndCollapse_def by (rule spaced_out_padded) (simp add: names_word)

lemma add_loop_names:
  assumes "\<forall>c \<in> set cs. class_word c" "spaced_out cur"
  shows "names (add_loop cs cur) = foldl (\<lambda>ns c. if c \<in> set ns then ns else ns @ [c]) (names cur) cs"
  using assms
proof (induction cs arbitrary: cur)
  case (Cons c cs)
  have c: "class_word c" "c \<noteq> []" using Cons.prems(1) by (auto simp: class_word_def)
  have occ: "indexOf cur (padded c) < 0 \<longleftrightarrow> c \<notin> set (names cur)"
    using indexOf_nonneg_iff [of cur "padded c"] occurs_iff [OF c(1) Cons.prems(2)] by auto
  obtain t where t: "cur = t @ [32]" using Cons.prems(2) by (auto simp: spaced_out_def)
  have "names (cur @ c @ [32]) = names cur @ [c]"
    using names_append [of t "c @ [32]"] names_append [of c "[]"] names_append [of t "[]"] words_word [OF c(1)] t by simp
  moreover have "spaced_out (cur @ c @ [32])"
    using Cons.prems c by (auto simp: spaced_out_def class_word_def list_all_iff)
  ultimately show ?case using Cons c occ by auto
qed simp

lemma remove_all_names:
  assumes "class_word c" "spaced_out cur"
  shows "names (remove_all c cur) = filter (\<lambda>n. n \<noteq> c) (names cur) \<and> spaced_out (remove_all c cur)"
  using assms
proof (induction c cur rule: remove_all.induct)
  case (1 c cur)
  show ?case
  proof (cases "indexOf cur (padded c) > -1")
    case False
    then have "c \<notin> set (names cur)" using occurs_iff [OF 1(2,3)] by (simp add: indexOf_gt_minus_one_iff)
    then have "filter (\<lambda>n. n \<noteq> c) (names cur) = names cur" by (auto simp: filter_id_conv)
    with False 1(3) show ?thesis by (simp add: remove_all.simps [of c cur])
  next
    case True
    then obtain i where i: "str_find (padded c) cur = Some i" by (auto simp: indexOf_def split: option.splits)
    let ?u = "take i cur" and ?v = "drop (i + length (padded c)) cur"
    obtain w where "drop i cur = padded c @ w" using str_find_SomeD [OF i] by (auto simp: prefix_def)
    then have "?v = w" by (metis add.commute append_eq_conv_conj drop_drop)
    with \<open>drop i cur = padded c @ w\<close> have cur: "cur = ?u @ padded c @ ?v"
      using append_take_drop_id [of i cur] by simp
    let ?n = "replace_once (padded c) [32] cur"
    have n: "?n = ?u @ 32 # ?v" using i by (simp add: replace_once_def)
    have "names cur = names ?u @ [c] @ names ?v"
      using names_append [of ?u "c @ 32 # ?v"] names_append [of c ?v] words_word [OF 1(2)]
      by (subst cur) (simp add: padded_def)
    then have f: "filter (\<lambda>m. m \<noteq> c) (names cur) = filter (\<lambda>m. m \<noteq> c) (names ?n)"
      using names_append [of ?u ?v] n by simp
    have "spaced_out ?n"
    proof -
      obtain t t' where t: "cur = 32 # t" "cur = t' @ [32]" using 1(3) unfolding spaced_out_def by blast
      have "\<exists>r. take i (32 # t) @ 32 # x = 32 # r" for x by (cases i) auto
      then have first: "\<exists>r. ?u @ 32 # ?v = 32 # r" unfolding t(1) by blast
      have lc: "last cur = 32" using t(2) last_snoc [of t' 32] by argo
      have "last (?u @ 32 # ?v) = 32"
      proof (cases "?v = []")
        case False
        then have "last (?u @ padded c @ ?v) = last ?v" by simp
        then have "last cur = last ?v" using cur by argo
        moreover have "last (?u @ 32 # ?v) = last ?v" using False by simp
        ultimately show ?thesis using lc by argo
      qed simp
      then have "\<exists>t. ?u @ 32 # ?v = t @ [32]" by (metis append_butlast_last_id append_is_Nil_conv list.distinct(1))
      moreover have "set (?u @ 32 # ?v) \<subseteq> insert 32 (set cur)" by (auto dest: in_set_takeD in_set_dropD)
      ultimately show ?thesis using first 1(3) unfolding n spaced_out_def by blast
    qed
    moreover have ne: "c \<noteq> [] \<and> indexOf cur (padded c) > -1" using 1(2) True by (simp add: class_word_def)
    ultimately have "names (remove_all c ?n) = filter (\<lambda>m. m \<noteq> c) (names ?n) \<and> spaced_out (remove_all c ?n)"
      using 1(1) [OF ne 1(2)] by blast
    with f ne show ?thesis by (simp add: remove_all.simps [of c cur])
  qed
qed

lemma rem_loop_names:
  "\<forall>c \<in> set cs. class_word c \<Longrightarrow> spaced_out cur \<Longrightarrow> names (rem_loop cs cur) = filter (\<lambda>n. n \<notin> set cs) (names cur)"
proof (induction cs arbitrary: cur)
  case (Cons c cs)
  have c: "class_word c" "c \<noteq> []" using Cons.prems(1) by (auto simp: class_word_def)
  from remove_all_names [OF c(1) Cons.prems(2)] Cons c show ?case by (auto intro: filter_cong)
qed simp

lemma getClass_set: "getClass (setAttribute (lit ''class'') v e) = v"
proof -
  have "map_of (map (\<lambda>(k', v'). if k' = k then (k, v) else (k', v')) ps) k = (if k \<in> fst ` set ps then Some v else None)"
    for k :: jstr and ps by (induction ps) auto
  moreover have "map_of ps k = None" if "k \<notin> fst ` set ps" for k :: jstr and ps :: "(jstr \<times> jstr) list"
    using that by (simp add: map_of_eq_None_iff)
  ultimately show ?thesis by (auto simp: getClass_def setAttribute_def map_add_def)
qed

section \<open>Properties\<close>

text \<open>
  The class attribute of an element is a list of names: \<open>addClass\<close> appends the names that are
  missing, once each and in order, \<open>removeClass\<close> removes every occurrence of the given names and
  keeps the order of the others, and \<open>hasClass\<close> tests for a name.
\<close>

theorem class_operations:
  assumes "nodeType e = Some 1" "list_all class_word cs" "class_word c"
  shows "names (getClass (add_to cs e)) =
      foldl (\<lambda>ns c. if c \<in> set ns then ns else ns @ [c]) (names (getClass e)) cs \<and>
    names (getClass (remove_from cs e)) = filter (\<lambda>n. n \<notin> set cs) (names (getClass e)) \<and>
    hasClass c [e] = (c \<in> set (names (getClass e)))"
proof -
  let ?cur = "padded (stripAndCollapse (getClass e))"
  have sp: "spaced_out ?cur" by (rule spaced_out_strip)
  have cs: "\<forall>c \<in> set cs. class_word c" using assms(2) by (simp add: list_all_iff)
  have "getClass (add_to cs e) = stripAndCollapse (add_loop cs ?cur)"
    "getClass (remove_from cs e) = stripAndCollapse (rem_loop cs ?cur)"
    using assms(1) by (simp_all add: add_to_def remove_from_def Let_def getClass_set)
  moreover have "hasClass c [e] = (c \<in> set (names ?cur))"
    using assms(1) occurs_iff [OF assms(3) sp] by (simp add: hasClass_def indexOf_gt_minus_one_iff)
  ultimately show ?thesis using add_loop_names [OF cs sp] rem_loop_names [OF cs sp] by simp
qed

theorem class_operations_witness:
  "names (getClass (remove_from [lit ''b''] \<lparr>nodeType = Some 1, attributes = [(lit ''class'', lit '' a b  c b'')], dataUser = None, dataPriv = None\<rparr>))
   = [lit ''a'', lit ''c'']"
proof -
  let ?e = "\<lparr>nodeType = Some 1, attributes = [(lit ''class'', lit '' a b  c b'')], dataUser = None, dataPriv = None\<rparr>"
  have 1: "nodeType ?e = Some 1" by simp
  have 2: "list_all class_word [lit ''b'']" "class_word (lit ''b'')" by code_simp+
  have "names (getClass ?e) = map lit [''a'', ''b'', ''c'', ''b'']" by code_simp
  moreover have "filter (\<lambda>n. n \<notin> set [lit ''b'']) (map lit [''a'', ''b'', ''c'', ''b'']) = [lit ''a'', lit ''c'']"
    by code_simp
  ultimately show ?thesis using class_operations [OF 1 2] by simp
qed

end
