(* ===== verification/JQ_Ajax.thy ===== *)
theory JQ_Ajax
  imports JQ_Data JS_URI
begin

text \<open>
  \<open>jquery-3.5.1.js\<close>: the query strings of \<open>jQuery.param\<close>, and the data side of \<open>jQuery.ajax\<close>: the
  registration and inspection of prefilters and transports, \<open>ajaxExtend\<close>, the choice of a response
  (\<open>ajaxHandleResponses\<close>) and its conversion (\<open>ajaxConvert\<close>). Requests themselves are not modelled.

  Functions that the code is given (values to serialise, prefilters, converters, tests of content
  types) are HOL functions; \<open>lower\<close> is \<open>toLowerCase\<close>. Objects used as tables are property
  stores, and names of \<open>Object.prototype\<close> are found in them as the code finds them.
\<close>

section \<open>param\<close>

definition rbracket :: "jstr \<Rightarrow> bool" where
  "rbracket pre = (drop (length pre - 2) pre = lit ''[]'')"

lemma size_enumerate: "(i, x) \<in> set (enumerate 0 xs) \<Longrightarrow> size x < size (VArr k xs)"
  using size_elem [of x xs] by (auto simp: in_set_enumerate_eq)

text \<open>The calls of \<open>add\<close> that \<open>buildParams\<close> makes, in order.\<close>

function buildParams :: "bool \<Rightarrow> jstr \<Rightarrow> jsval \<Rightarrow> (jstr \<times> jsval) list" where
  "buildParams traditional pre v =
     (case v of
        VArr _ xs \<Rightarrow>
          concat (map (\<lambda>(i, x).
            if traditional \<or> rbracket pre then [(pre, x)]
            else buildParams traditional
              (pre @ lit ''['' @ (if typeof x = lit ''object'' \<and> \<not> nullish x then dec i else []) @ lit '']'') x)
            (enumerate 0 xs))
      | VObj _ ps \<Rightarrow>
          if traditional then [(pre, v)]
          else concat (map (\<lambda>(name, x). buildParams traditional (pre @ lit ''['' @ name @ lit '']'') x) ps)
      | _ \<Rightarrow> [(pre, v)])"
  by pat_completeness auto
termination
  by (relation "measure (\<lambda>(t, p, v). size v)")
    (auto dest!: size_prop size_enumerate)

declare buildParams.simps [simp del]

text \<open>\<open>call\<close> is the call of a function value without arguments.\<close>

definition param_add :: "(jsval \<Rightarrow> js_error + jsval) \<Rightarrow> jsval \<Rightarrow> jsval \<Rightarrow> js_error + jstr" where
  "param_add call key valueOrFunction =
     (case (if jq_isFunction valueOrFunction then call valueOrFunction else Inr valueOrFunction) of
        Inl e \<Rightarrow> Inl e
      | Inr v \<Rightarrow>
          (case encodeURIComponent (to_str key) of
             Inl e \<Rightarrow> Inl e
           | Inr k \<Rightarrow>
               (case encodeURIComponent (if nullish v then [] else to_str v) of
                  Inl e \<Rightarrow> Inl e
                | Inr w \<Rightarrow> Inr (k @ lit ''='' @ w))))"

fun add_all :: "(jsval \<Rightarrow> js_error + jsval) \<Rightarrow> (jstr \<times> jsval) list \<Rightarrow> jstr list \<Rightarrow> js_error + jstr list" where
  "add_all call [] s = Inr s"
| "add_all call ((k, v) # kvs) s =
     (case param_add call (VStr k) v of Inl e \<Rightarrow> Inl e | Inr p \<Rightarrow> add_all call kvs (s @ [p]))"

text \<open>The form elements; reading \<open>this.name\<close> of \<open>null\<close> or \<open>undefined\<close> is a \<open>TypeError\<close>.\<close>

fun add_form :: "(jsval \<Rightarrow> js_error + jsval) \<Rightarrow> jsval list \<Rightarrow> jstr list \<Rightarrow> js_error + jstr list" where
  "add_form call [] s = Inr s"
| "add_form call (x # xs) s =
     (if nullish x then Inl TypeError
      else
        case param_add call (get_prop x (lit ''name'')) (get_prop x (lit ''value'')) of
          Inl e \<Rightarrow> Inl e
        | Inr p \<Rightarrow> add_form call xs (s @ [p]))"

definition jq_param :: "(jsval \<Rightarrow> js_error + jsval) \<Rightarrow> jsval \<Rightarrow> bool \<Rightarrow> js_error + jstr" where
  "jq_param call a traditional =
     (if nullish a then Inr []
      else
        map_sum id (join (lit ''&''))
          (if isArray a \<or> truthy (get_prop a (lit ''jquery'')) \<and> \<not> isPlainObject a then
             (case jq_entries a of
                Inl e \<Rightarrow> Inl e
              | Inr es \<Rightarrow> add_form call (map snd es) [])
           else
             add_all call (concat (map (\<lambda>(pre, v). buildParams traditional pre v) (for_in a))) []))"

section \<open>Prefilters and transports\<close>

type_synonym 'f handlers = "(jstr \<times> 'f list) list"

definition register_one :: "'f \<Rightarrow> jstr \<Rightarrow> 'f handlers \<Rightarrow> js_error + 'f handlers" where
  "register_one func dataType str =
     (let prepend = (hd dataType = 43);
          t = (if prepend then (if tl dataType = [] then lit ''*'' else tl dataType) else dataType)
      in case obj_get str t of
           Some fs \<Rightarrow> Inr (obj_put t (if prepend then func # fs else fs @ [func]) str)
         | None \<Rightarrow> if t \<in> set object_proto then Inl TypeError else Inr (obj_put t [func] str))"

fun register_all :: "'f \<Rightarrow> jstr list \<Rightarrow> 'f handlers \<Rightarrow> js_error + 'f handlers" where
  "register_all func [] str = Inr str"
| "register_all func (t # ts) str =
     (case register_one func t str of Inl e \<Rightarrow> Inl e | Inr str' \<Rightarrow> register_all func ts str')"

text \<open>The first argument is \<open>None\<close> when the expression is left out, the function \<open>None\<close> when it is none.\<close>

definition addToPrefiltersOrTransports ::
  "(jstr \<Rightarrow> jstr) \<Rightarrow> jstr option \<Rightarrow> 'f option \<Rightarrow> 'f handlers \<Rightarrow> js_error + 'f handlers" where
  "addToPrefiltersOrTransports lower expr func str =
     (let dataTypes = nothtmlwhite (lower (case expr of Some s \<Rightarrow> s | None \<Rightarrow> lit ''*'')) in
      case func of Some f \<Rightarrow> register_all f dataTypes str | None \<Rightarrow> Inr str)"

datatype 't filter_result = Redirect jstr | Transport 't | Nothing

definition truthy_result :: "'t filter_result \<Rightarrow> bool" where
  "truthy_result r = (case r of Redirect s \<Rightarrow> s \<noteq> [] | Transport _ \<Rightarrow> True | Nothing \<Rightarrow> False)"

definition entries_of :: "'f handlers \<Rightarrow> jstr \<Rightarrow> 'f list" where
  "entries_of str t = (case obj_get str t of Some fs \<Rightarrow> fs | None \<Rightarrow> [])"

definition was_inspected :: "jstr list \<Rightarrow> jstr \<Rightarrow> bool" where
  "was_inspected inspected t = (t \<in> set inspected \<or> t \<in> set object_proto)"

text \<open>
  The \<open>each\<close> loop of \<open>inspect\<close>. A redirection inspects the other type and leaves the loop, so the
  rest of the inner inspection is the rest of the outer one. A function gets and may change the
  \<open>dataTypes\<close> of the options.
\<close>

function inspect_loop ::
  "('f \<Rightarrow> jstr list \<Rightarrow> jstr list \<times> 't filter_result) \<Rightarrow> 'f handlers \<Rightarrow> bool \<Rightarrow> 'f list \<Rightarrow>
   jstr list \<Rightarrow> jstr list \<Rightarrow> 't filter_result \<Rightarrow> 't filter_result \<times> jstr list \<times> jstr list"
where
  "inspect_loop call str seeking fs inspected dataTypes selected =
     (case fs of
        [] \<Rightarrow> (selected, inspected, dataTypes)
      | f # fs' \<Rightarrow>
          (case call f dataTypes of
             (dts, r) \<Rightarrow>
               if \<not> seeking \<and> (case r of Redirect t \<Rightarrow> \<not> was_inspected inspected t | _ \<Rightarrow> False) then
                 (case r of Redirect t \<Rightarrow>
                    (case inspect_loop call str seeking (entries_of str t) (t # inspected) (t # dts) Nothing of
                       (_, ins, dts') \<Rightarrow> (selected, ins, dts'))
                  | _ \<Rightarrow> (selected, inspected, dts))
               else if seeking then
                 (if truthy_result r then (r, inspected, dts)
                  else inspect_loop call str seeking fs' inspected dts r)
               else inspect_loop call str seeking fs' inspected dts selected))"
  by pat_completeness auto
termination
proof (relation "measures [\<lambda>(call, str, seeking, fs, inspected, dts, sel). card (fst ` set str - set inspected),
      \<lambda>(call, str, seeking, fs, inspected, dts, sel). length fs]", goal_cases)
  case (2 call str seeking fs inspected dataTypes selected f fs' dts r t)
  then have t: "t \<notin> set inspected" and fs: "fs \<noteq> []" by (auto simp: was_inspected_def)
  show ?case
  proof (cases "t \<in> fst ` set str")
    case True
    with t have "fst ` set str - set (t # inspected) \<subset> fst ` set str - set inspected" by auto
    then have "card (fst ` set str - set (t # inspected)) < card (fst ` set str - set inspected)"
      by (simp add: psubset_card_mono)
    then show ?thesis by simp
  next
    case False
    then have "entries_of str t = []"
      by (auto simp: entries_of_def obj_get_def split: option.splits dest: map_of_SomeD intro: rev_image_eqI)
    moreover from False have "fst ` set str - set (t # inspected) = fst ` set str - set inspected" by auto
    ultimately show ?thesis using fs by simp
  qed
qed auto

declare inspect_loop.simps [simp del]

definition inspect ::
  "('f \<Rightarrow> jstr list \<Rightarrow> jstr list \<times> 't filter_result) \<Rightarrow> 'f handlers \<Rightarrow> bool \<Rightarrow> jstr \<Rightarrow> jstr list \<Rightarrow> jstr list \<Rightarrow>
   't filter_result \<times> jstr list \<times> jstr list" where
  "inspect call str seeking t inspected dataTypes =
     inspect_loop call str seeking (entries_of str t) (t # inspected) dataTypes Nothing"

definition inspectPrefiltersOrTransports ::
  "('f \<Rightarrow> jstr list \<Rightarrow> jstr list \<times> 't filter_result) \<Rightarrow> 'f handlers \<Rightarrow> bool \<Rightarrow> jstr list \<Rightarrow>
   't filter_result \<times> jstr list" where
  "inspectPrefiltersOrTransports call str seeking dataTypes =
     (case inspect call str seeking (case dataTypes of t # _ \<Rightarrow> t | [] \<Rightarrow> lit ''undefined'') [] dataTypes of
        (r, inspected, dts) \<Rightarrow>
          if truthy_result r then (r, dts)
          else if lit ''*'' \<notin> set inspected
          then (case inspect call str seeking (lit ''*'') inspected dts of (r', _, dts') \<Rightarrow> (r', dts'))
          else (Nothing, dts))"

section \<open>Settings\<close>

text \<open>
  \<open>flatOptions[ key ]\<close> as a condition; \<open>opts\<close> is the value of \<open>jQuery.ajaxSettings.flatOptions\<close>.
  \<open>n\<close> is the next unused identity.
\<close>

definition flat_option :: "jsval \<Rightarrow> jstr \<Rightarrow> bool" where
  "flat_option opts k =
     (if truthy opts \<and> has_own opts k then truthy (get_prop opts k) else k \<in> set object_proto)"

fun extend_split :: "jsval \<Rightarrow> (jstr \<times> jsval) list \<Rightarrow> jsval \<Rightarrow> (jstr \<times> jsval) list \<Rightarrow> jsval \<times> (jstr \<times> jsval) list" where
  "extend_split opts [] target deep = (target, deep)"
| "extend_split opts ((k, v) # es) target deep =
     (if v = VUndef then extend_split opts es target deep
      else if flat_option opts k then extend_split opts es (put_prop k v target) deep
      else extend_split opts es target (obj_put k v deep))"

definition ajaxExtend :: "jsval \<Rightarrow> jsval \<Rightarrow> jsval \<Rightarrow> nat \<Rightarrow> jsval \<times> nat" where
  "ajaxExtend ajaxSettings target src n =
     (case extend_split (get_prop ajaxSettings (lit ''flatOptions'')) (for_in src) target [] of
        (t, deep) \<Rightarrow>
          if deep \<noteq> [] then jq_extend VUndef [VBool True, t, VObj n deep] (Suc n) else (t, n))"

definition ajaxSetup :: "jsval \<Rightarrow> jsval \<Rightarrow> jsval \<Rightarrow> nat \<Rightarrow> jsval \<times> nat" where
  "ajaxSetup ajaxSettings target settings n =
     (if truthy settings then
        (case ajaxExtend ajaxSettings target ajaxSettings n of
           (t, m) \<Rightarrow> ajaxExtend ajaxSettings t settings m)
      else ajaxExtend ajaxSettings ajaxSettings target n)"

section \<open>Responses\<close>

datatype 'v conv = CTrue | CFun "'v \<Rightarrow> js_error + 'v"

type_synonym 'v converters = "(jstr \<times> 'v conv) list"

definition conv_key :: "jstr \<Rightarrow> jstr \<Rightarrow> jstr" where
  "conv_key a b = a @ lit '' '' @ b"

definition matching_type :: "(jstr \<times> (jstr \<Rightarrow> bool)) list \<Rightarrow> jstr \<Rightarrow> jstr option" where
  "matching_type contents ct = map_option fst (find (\<lambda>(t, test). test ct) contents)"

fun convertible :: "'v converters \<Rightarrow> jstr option \<Rightarrow> jstr list \<Rightarrow> jstr option \<Rightarrow> jstr option" where
  "convertible cv first [] firstDataType = firstDataType"
| "convertible cv first (t # ts) firstDataType =
     (if (case first of None \<Rightarrow> True | Some d \<Rightarrow> d = [] \<or> obj_get cv (conv_key t d) \<noteq> None)
      then (if t = [] then firstDataType else Some t)
      else convertible cv first ts
        (if firstDataType = None \<or> firstDataType = Some [] then Some t else firstDataType))"

definition ajaxHandleResponses ::
  "(jstr \<times> (jstr \<Rightarrow> bool)) list \<Rightarrow> 'v converters \<Rightarrow> jstr option \<Rightarrow> jstr option \<Rightarrow> (jstr \<times> 'v) list \<Rightarrow>
   jstr list \<Rightarrow> 'v lookup \<times> jstr list" where
  "ajaxHandleResponses contents cv mimeType header responses dataTypes =
     (let auto = (\<exists>ts. dataTypes = lit ''*'' # ts);
          dts1 = dropWhile (\<lambda>t. t = lit ''*'') dataTypes;
          ct = (if auto then (if mimeType = None \<or> mimeType = Some [] then header else mimeType) else None);
          dts2 = (case ct of
              Some c \<Rightarrow> if c = [] then dts1
                else (case matching_type contents c of Some t \<Rightarrow> t # dts1 | None \<Rightarrow> dts1)
            | None \<Rightarrow> dts1);
          first = (case dts2 of [] \<Rightarrow> None | t # _ \<Rightarrow> Some t);
          final =
            (if cache_get responses (case first of Some t \<Rightarrow> t | None \<Rightarrow> lit ''undefined'') \<noteq> Undefined then first
             else convertible cv first (map fst responses) None)
      in case final of
           None \<Rightarrow> (Undefined, dts2)
         | Some t \<Rightarrow>
             if t = [] then (Undefined, dts2)
             else (cache_get responses t, if first = Some t then dts2 else t # dts2))"

section \<open>Conversion\<close>

datatype 'v conv_result = ConvSuccess 'v | ParserError js_error | NoConversion jstr jstr

record 'v conv_env =
  ce_converters :: "'v converters"
  ce_fields :: "jstr \<Rightarrow> jstr option"
  ce_dataFilter :: "('v \<Rightarrow> js_error + 'v) option"
  ce_throws :: bool
  ce_success :: bool

definition direct_conv :: "'v converters \<Rightarrow> jstr \<Rightarrow> jstr \<Rightarrow> 'v conv option" where
  "direct_conv cv a b =
     (case obj_get cv (conv_key a b) of Some c \<Rightarrow> Some c | None \<Rightarrow> obj_get cv (conv_key (lit ''*'') b))"

text \<open>The search for a pair: the converter to the input of \<open>conv2\<close>, \<open>conv2\<close> itself and its types.\<close>

fun find_pair :: "'v converters \<Rightarrow> jstr \<Rightarrow> jstr \<Rightarrow> 'v converters \<Rightarrow> ('v conv \<times> 'v conv \<times> jstr \<times> jstr) option" where
  "find_pair cv prev current [] = None"
| "find_pair cv prev current ((conv2, c2) # rest) =
     (case split_char 32 conv2 of
        t0 # t1 # _ \<Rightarrow>
          if t1 = current then
            (case direct_conv cv prev t0 of
               Some c \<Rightarrow> Some (c, c2, t0, t1)
             | None \<Rightarrow> find_pair cv prev current rest)
          else find_pair cv prev current rest
      | _ \<Rightarrow> find_pair cv prev current rest)"

fun is_equivalence :: "'v conv \<Rightarrow> bool" where
  "is_equivalence CTrue = True"
| "is_equivalence (CFun _) = False"

text \<open>The converter to apply, the type it leads to and the types that remain.\<close>

definition choose_conv :: "'v converters \<Rightarrow> jstr \<Rightarrow> jstr \<Rightarrow> jstr list \<Rightarrow> 'v conv option \<times> jstr \<times> jstr list" where
  "choose_conv cv prev current dts =
     (case direct_conv cv prev current of
        Some c \<Rightarrow> (Some c, current, dts)
      | None \<Rightarrow>
          (case find_pair cv prev current cv of
             None \<Rightarrow> (None, current, dts)
           | Some (c, c2, t0, t1) \<Rightarrow>
               if is_equivalence c then (Some c2, current, dts)
               else if \<not> is_equivalence c2 then (Some c, t0, t1 # dts)
               else (Some c, current, dts)))"

definition filtered :: "'v conv_env \<Rightarrow> bool \<Rightarrow> 'v \<Rightarrow> js_error + 'v" where
  "filtered s seen response =
     (if seen \<or> \<not> ce_success s then Inr response
      else case ce_dataFilter s of Some f \<Rightarrow> f response | None \<Rightarrow> Inr response)"

definition put_field :: "'v conv_env \<Rightarrow> jstr \<Rightarrow> 'v \<Rightarrow> (jstr \<times> 'v) list \<Rightarrow> (jstr \<times> 'v) list" where
  "put_field s current response xhr =
     (case ce_fields s current of Some f \<Rightarrow> obj_put f response xhr | None \<Rightarrow> xhr)"

text \<open>
  The loop; \<open>seen\<close> tells that \<open>prev\<close> is set. The result is \<open>Inl\<close> for an exception that leaves the
  function; \<open>None\<close> only means that the fuel was too small.
\<close>

fun convert_loop ::
  "'v conv_env \<Rightarrow> nat \<Rightarrow> bool \<Rightarrow> jstr \<Rightarrow> jstr list \<Rightarrow> 'v \<Rightarrow> (jstr \<times> 'v) list \<Rightarrow>
   (js_error + 'v conv_result \<times> (jstr \<times> 'v) list) option" where
  "convert_loop s 0 seen current dts response xhr = None"
| "convert_loop s (Suc n) seen current dts response xhr =
     (if current = [] then Some (Inr (ConvSuccess response, xhr))
      else
        let xhr1 = put_field s current response xhr; prev = current in
        case filtered s seen response of
          Inl e \<Rightarrow> Some (Inl e)
        | Inr response1 \<Rightarrow>
            (case dts of
               [] \<Rightarrow> Some (Inr (ConvSuccess response1, xhr1))
             | c # ds \<Rightarrow>
                 if c = [] then Some (Inr (ConvSuccess response1, xhr1))
                 else if c = lit ''*'' then convert_loop s n True prev ds response1 xhr1
                 else if prev \<noteq> lit ''*'' \<and> prev \<noteq> c then
                   (case choose_conv (ce_converters s) prev c ds of
                      (conv, c', ds') \<Rightarrow>
                        (case conv of
                           None \<Rightarrow> Some (Inr (NoConversion prev c', xhr1))
                         | Some CTrue \<Rightarrow> convert_loop s n True c' ds' response1 xhr1
                         | Some (CFun f) \<Rightarrow>
                             (case f response1 of
                                Inr r \<Rightarrow> convert_loop s n True c' ds' r xhr1
                              | Inl e \<Rightarrow>
                                  Some (if ce_throws s then Inl e else Inr (ParserError e, xhr1)))))
                 else convert_loop s n True c ds response1 xhr1))"

lemmas convert_step = convert_loop.simps(2)
declare convert_step [simp del]

definition lower_keys :: "(jstr \<Rightarrow> jstr) \<Rightarrow> 'v converters \<Rightarrow> 'v converters" where
  "lower_keys lower cv = foldl (\<lambda>d (k, c). obj_put (lower k) c d) [] cv"

definition ajaxConvert ::
  "(jstr \<Rightarrow> jstr) \<Rightarrow> 'v conv_env \<Rightarrow> nat \<Rightarrow> jstr list \<Rightarrow> 'v \<Rightarrow>
   (js_error + 'v conv_result \<times> (jstr \<times> 'v) list) option" where
  "ajaxConvert lower s fuel dataTypes response =
     (let cv = (case dataTypes of _ # t # _ \<Rightarrow> if t \<noteq> [] then lower_keys lower (ce_converters s) else [] | _ \<Rightarrow> []) in
      case dataTypes of
        [] \<Rightarrow> Some (Inr (ConvSuccess response, []))
      | t # ts \<Rightarrow> convert_loop (s\<lparr>ce_converters := cv\<rparr>) fuel False t ts response [])"

section \<open>The conversion ends\<close>

text \<open>
  A key of the table names two types. An inserted intermediate type then has a direct converter to
  the type that was put back, so a step of the loop that does not use up a data type is followed by
  one that does.
\<close>

definition two_types :: "'v converters \<Rightarrow> bool" where
  "two_types cv = list_all (\<lambda>(k, _). length (split_char 32 k) = 2) cv"

lemma find_pair_direct:
  assumes "two_types cv" "set rest \<subseteq> set cv" "find_pair cv prev current rest = Some (c, c2, t0, t1)"
  shows "t1 = current \<and> direct_conv cv prev t0 = Some c \<and> direct_conv cv t0 t1 \<noteq> None"
  using assms(2,3)
proof (induction rest)
  case (Cons e rest)
  obtain k d where e: "e = (k, d)" by (cases e)
  with Cons.prems(1) assms(1) have kd: "(k, d) \<in> set cv" and "length (split_char 32 k) = 2"
    by (auto simp: two_types_def list_all_iff)
  then obtain a b where ab: "split_char 32 k = [a, b]" by (auto simp: length_Suc_conv numeral_2_eq_2)
  then have "k = conv_key a b" using join_split_char [of 32 k] by (simp add: conv_key_def lit_def)
  with kd have "direct_conv cv a b \<noteq> None"
    by (auto simp: direct_conv_def obj_get_def map_of_eq_None_iff rev_image_eqI split: option.splits)
  with Cons e ab show ?case by (auto split: if_splits option.splits)
qed simp

text \<open>The bound: two steps per data type that is left, one more before an insertion.\<close>

definition steps_left :: "'v converters \<Rightarrow> jstr \<Rightarrow> jstr list \<Rightarrow> nat" where
  "steps_left cv current dts =
     2 * length dts +
     (case dts of c # _ \<Rightarrow> if direct_conv cv current c = None then 1 else 0 | [] \<Rightarrow> 0)"

lemma steps_left_le: "steps_left cv current dts \<le> 2 * length dts + 1"
  by (simp add: steps_left_def split: list.splits)

lemma choose_conv_steps:
  assumes "two_types cv" "choose_conv cv prev c ds = (Some conv, c', ds')"
  shows "steps_left cv c' ds' < steps_left cv prev (c # ds)"
proof (cases "direct_conv cv prev c")
  case (Some x)
  with assms(2) steps_left_le [of cv c' ds'] show ?thesis
    by (simp add: choose_conv_def steps_left_def)
next
  case None
  with assms(2) obtain x c2 t0 t1 where f: "find_pair cv prev c cv = Some (x, c2, t0, t1)"
    by (auto simp: choose_conv_def split: option.splits)
  from find_pair_direct [OF assms(1) subset_refl f] have "direct_conv cv t0 t1 \<noteq> None" by auto
  moreover have "steps_left cv c ds < steps_left cv prev (c # ds)"
    using steps_left_le [of cv c ds] by (simp add: steps_left_def)
  moreover from assms(2) None f have "(c' = c \<and> ds' = ds) \<or> (c' = t0 \<and> ds' = t1 # ds)"
    by (auto simp: choose_conv_def split: if_splits)
  ultimately show ?thesis using None by (auto simp: steps_left_def)
qed

lemma steps_left_skip: "steps_left cv x ds < steps_left cv prev (c # ds)"
  using steps_left_le [of cv x ds] by (simp add: steps_left_def)

lemma convert_loop_fuel:
  assumes "two_types (ce_converters s)" "steps_left (ce_converters s) current dts < n"
  shows "\<exists>res. convert_loop s n seen current dts response xhr = Some res"
  using assms(2)
proof (induction n arbitrary: seen current dts response xhr)
  case (Suc n)
  show ?case
  proof (cases dts)
    case (Cons c ds)
    have skip: "steps_left (ce_converters s) x ds < n" for x
      using steps_left_skip [of "ce_converters s" x ds current c] Suc.prems Cons by simp
    have pick: "steps_left (ce_converters s) c' ds' < n"
      if "choose_conv (ce_converters s) current c ds = (Some conv, c', ds')" for conv c' ds'
      using choose_conv_steps [OF assms(1) that] Suc.prems Cons by simp
    note [simp] = Suc.IH [OF skip] Suc.IH [OF pick]
    from Cons show ?thesis
      by (auto simp: Let_def convert_step split: sum.splits prod.splits option.splits conv.splits)
  qed (simp add: Let_def convert_step split: sum.splits)
qed simp

lemma convert_loop_more:
  "convert_loop s n seen current dts response xhr = Some res \<Longrightarrow> n \<le> m \<Longrightarrow>
   convert_loop s m seen current dts response xhr = Some res"
proof (induction n arbitrary: m seen current dts response xhr)
  case (Suc n)
  from Suc.prems(2) obtain m' where m: "m = Suc m'" "n \<le> m'" by (cases m) auto
  note [intro] = Suc.IH [OF _ m(2)]
  from Suc.prems(1) m(1) show ?case
    by (auto simp: Let_def convert_step split: if_splits sum.splits list.splits prod.splits option.splits conv.splits)
qed simp

lemma ajaxConvert_fuel:
  assumes "two_types (lower_keys lower (ce_converters s))"
  shows "\<exists>res. \<forall>fuel. 2 * length dataTypes \<le> fuel \<longrightarrow>
    ajaxConvert lower s fuel dataTypes response = Some res"
proof (cases dataTypes)
  case (Cons t ts)
  define cv where "cv = (case ts of u # _ \<Rightarrow> if u \<noteq> [] then lower_keys lower (ce_converters s) else [] | [] \<Rightarrow> [])"
  have loop: "ajaxConvert lower s fuel dataTypes response =
      convert_loop (s\<lparr>ce_converters := cv\<rparr>) fuel False t ts response []" for fuel
    by (simp add: ajaxConvert_def Cons cv_def split: list.splits)
  have "two_types cv" using assms by (simp add: cv_def two_types_def split: list.splits)
  moreover have "steps_left cv t ts < 2 * length dataTypes"
    using steps_left_le [of cv t ts] Cons by simp
  ultimately obtain res where
    "convert_loop (s\<lparr>ce_converters := cv\<rparr>) (2 * length dataTypes) False t ts response [] = Some res"
    using convert_loop_fuel [of "s\<lparr>ce_converters := cv\<rparr>" t ts "2 * length dataTypes"] by fastforce
  then show ?thesis using loop convert_loop_more by metis
qed (simp add: ajaxConvert_def)

section \<open>The table of converters that \<open>ajaxSettings\<close> has\<close>

text \<open>\<open>String\<close>, \<open>JSON.parse\<close> and \<open>jQuery.parseXML\<close> are parameters.\<close>

definition default_converters ::
  "('v \<Rightarrow> js_error + 'v) \<Rightarrow> ('v \<Rightarrow> js_error + 'v) \<Rightarrow> ('v \<Rightarrow> js_error + 'v) \<Rightarrow> 'v converters" where
  "default_converters string_of json_parse parseXML =
     [(lit ''* text'', CFun string_of), (lit ''text html'', CTrue),
      (lit ''text json'', CFun json_parse), (lit ''text xml'', CFun parseXML)]"

lemma direct_default:
  "direct_conv (default_converters f g h) t (lit ''json'') = (if t = lit ''text'' then Some (CFun g) else None)"
  "direct_conv (default_converters f g h) t (lit ''text'') = Some (CFun f)"
  by (auto simp: direct_conv_def default_converters_def obj_get_def conv_key_def lit_def)

lemma choose_default:
  assumes "t \<noteq> lit ''text''"
  shows "choose_conv (default_converters f g h) t (lit ''json'') ds =
    (Some (CFun f), lit ''text'', lit ''json'' # ds)"
proof -
  have "find_pair (default_converters f g h) t (lit ''json'') (default_converters f g h) =
      Some (CFun f, CFun g, lit ''text'', lit ''json'')"
    by (subst (2) default_converters_def) (simp add: direct_default(2) [unfolded lit_def, simplified] lit_def)
  then show ?thesis using assms by (simp add: choose_conv_def direct_default)
qed

text \<open>What the loop gives for a response \<open>r\<close> of type \<open>t\<close> asked for as \<open>json\<close>.\<close>

definition default_json :: "bool \<Rightarrow> ('v \<Rightarrow> js_error + 'v) \<Rightarrow> ('v \<Rightarrow> js_error + 'v) \<Rightarrow> jstr \<Rightarrow> 'v \<Rightarrow> js_error + 'v conv_result" where
  "default_json throws f g t r =
     (if t = lit ''json'' then Inr (ConvSuccess r)
      else
        case (case (if t = lit ''text'' then Inr r else f r) of Inl e \<Rightarrow> Inl e | Inr r1 \<Rightarrow> g r1) of
          Inr r2 \<Rightarrow> Inr (ConvSuccess r2)
        | Inl e \<Rightarrow> if throws then Inl e else Inr (ParserError e))"

lemma lit_types [simp]: "lit ''json'' \<noteq> []" "lit ''json'' \<noteq> lit ''*''" "lit ''text'' \<noteq> []" "lit ''text'' \<noteq> lit ''*''"
    "lit ''text'' \<noteq> lit ''json''" "lit ''json'' \<noteq> lit ''text''"
  by (simp_all add: lit_def)

lemma loop_last:
  "current \<noteq> [] \<Longrightarrow> filtered s seen r = Inr r1 \<Longrightarrow>
   convert_loop s (Suc n) seen current [] r xhr = Some (Inr (ConvSuccess r1, put_field s current r xhr))"
  by (simp add: Let_def convert_step)

lemma filtered_True [simp]: "filtered s True r = Inr r"
  by (simp add: filtered_def)

lemma filtered_update: "filtered (s\<lparr>ce_converters := cv\<rparr>) seen r = filtered s seen r"
  by (simp add: filtered_def)

lemma default_text:
  assumes "ce_converters s = default_converters f g h" "filtered s seen r = Inr r1"
  shows "map_option (map_sum id fst) (convert_loop s (Suc (Suc n)) seen (lit ''text'') [lit ''json''] r xhr) =
    Some (default_json (ce_throws s) f g (lit ''text'') r1)"
proof -
  have "choose_conv (ce_converters s) (lit ''text'') (lit ''json'') [] = (Some (CFun g), lit ''json'', [])"
    by (simp add: choose_conv_def direct_default assms(1))
  then show ?thesis
    using assms(2) by (simp add: loop_last default_json_def Let_def convert_step [of s "Suc n"] split: sum.splits)
qed

lemma default_start:
  assumes "ce_converters s = default_converters f g h" "t \<noteq> []" "t \<noteq> lit ''*''" "filtered s False r = Inr r1"
  shows "map_option (map_sum id fst) (convert_loop s (Suc (Suc (Suc n))) False t [lit ''json''] r xhr) =
    Some (default_json (ce_throws s) f g t r1)"
proof (cases "t = lit ''json'' \<or> t = lit ''text''")
  case True
  then show ?thesis
  proof
    assume "t = lit ''json''"
    with assms show ?thesis
      by (simp add: loop_last default_json_def Let_def convert_step [of s "Suc (Suc n)" False])
  qed (use default_text [OF assms(1,4), of "Suc n"] in simp)
next
  case False
  with assms choose_default [of t f g h "[]"]
  have "convert_loop s (Suc (Suc (Suc n))) False t [lit ''json''] r xhr =
      (case f r1 of
         Inr r2 \<Rightarrow> convert_loop s (Suc (Suc n)) True (lit ''text'') [lit ''json''] r2 (put_field s t r xhr)
       | Inl e \<Rightarrow> Some (if ce_throws s then Inl e else Inr (ParserError e, put_field s t r xhr)))"
    by (simp add: Let_def convert_step [of s "Suc (Suc n)" False t])
  with False show ?thesis
    using default_text [OF assms(1) filtered_True, of n]
    by (cases "f r1") (simp_all add: default_json_def)
qed

lemma lower_keys_default:
  assumes "map lower (map fst (default_converters f g h)) = map fst (default_converters f g h)"
  shows "lower_keys lower (default_converters f g h) = default_converters f g h"
proof -
  have "\<not> index_key (lit ''* text'')" "\<not> index_key (lit ''text html'')" "\<not> index_key (lit ''text json'')"
    "\<not> index_key (lit ''text xml'')"
    by code_simp+
  then show ?thesis
    using assms by (simp add: lower_keys_def default_converters_def obj_put_fresh_plain lit_def)
qed

section \<open>Settings stay well formed\<close>

lemma extend_split_wf:
  "list_all (\<lambda>e. wf_val (snd e)) es \<Longrightarrow> wf_val target \<Longrightarrow> wf_val (VObj i deep) \<Longrightarrow>
   extend_split opts es target deep = (t, d) \<Longrightarrow> wf_val t \<and> wf_val (VObj i d)"
proof (induction opts es target deep rule: extend_split.induct)
  case (2 opts k v es target deep)
  have "wf_val (VObj i (obj_put k v deep))"
    using wf_put_prop [of v "VObj i deep" k] 2(4-6) by simp
  with 2 show ?case by (auto simp: wf_put_prop simp del: wf_val.simps split: if_splits)
qed simp

lemma ajaxExtend_wf:
  assumes "wf_val target" "wf_val src"
  shows "wf_val (fst (ajaxExtend ajaxSettings target src n))"
proof -
  obtain t d where td: "extend_split (get_prop ajaxSettings (lit ''flatOptions'')) (for_in src) target [] = (t, d)"
    by (cases "extend_split (get_prop ajaxSettings (lit ''flatOptions'')) (for_in src) target []")
  have "wf_val (VObj n [])" by (simp add: obj_ok_def)
  from extend_split_wf [OF wf_for_in [OF assms(2)] assms(1) this td] td show ?thesis
    by (auto simp: ajaxExtend_def simp del: wf_val.simps intro!: jq_extend_wf) (simp_all)
qed

section \<open>Properties\<close>

text \<open>
  C32. The conversion of a response ends when every key of the converter table names two types separated
  by one space, as the settings ask for: some result is the result of every run with a budget of
  \<open>2 * length dataTypes\<close> steps or more.
\<close>

theorem ajaxConvert_terminates:
  assumes "two_types (lower_keys lower (ce_converters s))"
  shows "\<exists>res. \<forall>fuel. 2 * length dataTypes \<le> fuel \<longrightarrow>
    ajaxConvert lower s fuel dataTypes response = Some res"
  using assms by (rule ajaxConvert_fuel)

theorem ajaxConvert_terminates_witness:
  "\<exists>res. ajaxConvert id
     \<lparr>ce_converters = default_converters Inr (\<lambda>_. Inl TypeError) Inr, ce_fields = Map.empty,
      ce_dataFilter = None, ce_throws = False, ce_success = True\<rparr> 4 [lit ''xml'', lit ''json''] (0 :: int) = Some res"
proof -
  let ?s = "\<lparr>ce_converters = default_converters Inr (\<lambda>_. Inl TypeError) Inr, ce_fields = Map.empty,
      ce_dataFilter = None, ce_throws = False, ce_success = True\<rparr> :: int conv_env"
  have "two_types (lower_keys id (ce_converters ?s))" by code_simp
  from ajaxConvert_terminates [OF this, of "[lit ''xml'', lit ''json'']" 0] show ?thesis by force
qed





end
