(* ===== verification/JQ_Request.thy ===== *)
theory JQ_Request
  imports JQ_Ajax
begin

text \<open>
  \<open>jquery-3.5.1.js\<close>: the life of a request of \<open>jQuery.ajax\<close>. A record holds the \<open>jqXHR\<close> object and the
  variables of the closure that its methods and \<open>done\<close> share; what they call (the Deferred, the
  completion callbacks, global events) is logged. The transport, the timer and \<open>abort\<close> all end in
  \<open>done\<close>, which composes \<open>ajaxHandleResponses\<close> and \<open>ajaxConvert\<close> of theory \<open>JQ_Ajax\<close>.

  \<open>lower\<close> is \<open>toLowerCase\<close>, \<open>undef\<close> the value \<open>undefined\<close>. Header names and data types are not names of
  \<open>Object.prototype\<close>; headers have no line separators other than \<open>\r\<close> and \<open>\n\<close>. A value thrown by the
  transport is represented by its text.
\<close>

section \<open>State\<close>

record 'v settings =
  se_type :: jstr
  se_dataTypes :: "jstr list"
  se_contents :: "(jstr \<times> (jstr \<Rightarrow> bool)) list"
  se_conv :: "'v conv_env"
  se_mimeType :: "jstr option"
  se_ifModified :: bool

record 'v request =
  rq_settings :: "'v settings"
  rq_completed :: "bool option"       \<comment> \<open>\<open>None\<close> before the request is sent\<close>
  rq_fireGlobals :: bool
  rq_readyState :: int
  rq_status :: "int option"
  rq_statusText :: "jstr option"
  rq_responseHeadersString :: jstr
  rq_requestHeadersNames :: "(jstr \<times> jstr) list"
  rq_requestHeaders :: "(jstr \<times> jstr) list"
  rq_transport :: bool
  rq_timeoutTimer :: bool
  rq_strAbort :: jstr
  rq_cacheURL :: jstr
  rq_fields :: "(jstr \<times> 'v) list"

datatype rq_error = ErrText jstr | ErrExn js_error | ErrNoConversion jstr jstr

datatype 'v rq_event =
    Resolve "'v option" jstr
  | Reject jstr "rq_error option"
  | TransportAbort jstr
  | StatusCode int
  | GlobalEvent jstr
  | Complete jstr

text \<open>The variables of \<open>jQuery\<close> itself, and the log of all requests.\<close>

record 'v globals =
  g_active :: int
  g_lastModified :: "(jstr \<times> jstr) list"
  g_etag :: "(jstr \<times> jstr) list"
  g_log :: "(nat \<times> 'v rq_event) list"

section \<open>Headers\<close>

definition header_line :: "jstr \<Rightarrow> (jstr \<times> jstr) option" where
  "header_line line =
     (if 58 \<in> set line then
        Some (takeWhile (\<lambda>c. c \<noteq> 58) line,
              dropWhile (\<lambda>c. c = 32 \<or> c = 9) (tl (dropWhile (\<lambda>c. c \<noteq> 58) line)))
      else None)"

definition parse_headers :: "(jstr \<Rightarrow> jstr) \<Rightarrow> jstr \<Rightarrow> (jstr \<times> jstr list) list" where
  "parse_headers lower s =
     foldl (\<lambda>h (name, v).
         let key = lower name @ lit '' '' in
         obj_put key ((case obj_get h key of Some vs \<Rightarrow> vs | None \<Rightarrow> []) @ [v]) h)
       [] (List.map_filter header_line (words_of (\<lambda>c. c = 10 \<or> c = 13) s))"

definition getResponseHeader :: "(jstr \<Rightarrow> jstr) \<Rightarrow> jstr \<Rightarrow> 'v request \<Rightarrow> jstr option" where
  "getResponseHeader lower key r =
     (if rq_completed r = Some True then
        map_option (join (lit '', ''))
          (obj_get (parse_headers lower (rq_responseHeadersString r)) (lower key @ lit '' ''))
      else None)"

definition getAllResponseHeaders :: "'v request \<Rightarrow> jstr option" where
  "getAllResponseHeaders r = (if rq_completed r = Some True then Some (rq_responseHeadersString r) else None)"

definition setRequestHeader :: "(jstr \<Rightarrow> jstr) \<Rightarrow> jstr \<Rightarrow> jstr \<Rightarrow> 'v request \<Rightarrow> 'v request" where
  "setRequestHeader lower name v r =
     (if rq_completed r = None then
        let name' = (case obj_get (rq_requestHeadersNames r) (lower name) of
              Some n \<Rightarrow> if n = [] then name else n
            | None \<Rightarrow> name)
        in r\<lparr>rq_requestHeadersNames := obj_put (lower name) name' (rq_requestHeadersNames r),
             rq_requestHeaders := obj_put name' v (rq_requestHeaders r)\<rparr>
      else r)"

definition overrideMimeType :: "jstr \<Rightarrow> 'v request \<Rightarrow> 'v request" where
  "overrideMimeType type r =
     (if rq_completed r = None then r\<lparr>rq_settings := (rq_settings r)\<lparr>se_mimeType := Some type\<rparr>\<rparr> else r)"

section \<open>URLs\<close>

text \<open>\<open>s.url.replace( rhash, "" )\<close>: the pattern \<open>/#.*$/\<close> matches at the first \<open>#\<close> after which there is no
  line end.\<close>

definition strip_hash :: "jstr \<Rightarrow> jstr" where
  "strip_hash url =
     (case find (\<lambda>i. url ! i = 35 \<and> \<not> list_ex (\<lambda>c. c = 10 \<or> c = 13 \<or> c = 8232 \<or> c = 8233) (drop i url)) [0..<length url] of
        Some i \<Rightarrow> take i url
      | None \<Rightarrow> url)"

definition with_data :: "jstr \<Rightarrow> jstr \<Rightarrow> jstr" where
  "with_data url data = url @ (if 63 \<in> set url then lit ''&'' else lit ''?'') @ data"

text \<open>\<open>url.replace( /([?&])_=[^&]*/, "$1" )\<close>\<close>

fun strip_antiCache :: "jstr \<Rightarrow> jstr" where
  "strip_antiCache (c # d # e # cs) =
     (if (c = 63 \<or> c = 38) \<and> d = 95 \<and> e = 61 then c # dropWhile (\<lambda>x. x \<noteq> 38) cs
      else c # strip_antiCache (d # e # cs))"
| "strip_antiCache cs = cs"

text \<open>
  The address of a request without content: \<open>data\<close> is the text to append, if any, \<open>cache\<close> the option
  and \<open>nonce\<close> the next number. The result is \<open>cacheURL\<close> and the address that is requested.
\<close>

definition request_url :: "jstr option \<Rightarrow> bool \<Rightarrow> nat \<Rightarrow> jstr \<Rightarrow> jstr \<times> jstr" where
  "request_url data cache nonce url =
     (let cacheURL0 = strip_hash url;
          uncached0 = drop (length cacheURL0) url;
          cacheURL1 = (case data of Some d \<Rightarrow> if d \<noteq> [] then with_data cacheURL0 d else cacheURL0 | None \<Rightarrow> cacheURL0);
          (cacheURL2, uncached) =
            (if cache then (cacheURL1, uncached0)
             else
               let u = strip_antiCache cacheURL1 in
               (u, (if 63 \<in> set u then lit ''&'' else lit ''?'') @ lit ''_='' @ dec nonce @ uncached0))
      in (cacheURL2, cacheURL2 @ uncached))"

section \<open>done\<close>

definition is_success :: "int \<Rightarrow> bool" where
  "is_success status = (200 \<le> status \<and> status < 300 \<or> status = 304)"

text \<open>Whether the request succeeded, the data, the status text, the error and the status.\<close>

definition outcome ::
  "int \<Rightarrow> jstr \<Rightarrow> jstr \<Rightarrow> 'v conv_result \<Rightarrow> bool \<times> 'v option \<times> jstr \<times> rq_error option \<times> int" where
  "outcome status nativeStatusText type response =
     (if is_success status then
        if status = 204 \<or> type = lit ''HEAD'' then (True, None, lit ''nocontent'', None, status)
        else if status = 304 then (True, None, lit ''notmodified'', None, status)
        else
          (case response of
             ConvSuccess v \<Rightarrow> (True, Some v, lit ''success'', None, status)
           | ParserError e \<Rightarrow> (False, None, lit ''parsererror'', Some (ErrExn e), status)
           | NoConversion a b \<Rightarrow> (False, None, lit ''parsererror'', Some (ErrNoConversion a b), status))
      else
        (False, None, if status \<noteq> 0 \<or> nativeStatusText = [] then lit ''error'' else nativeStatusText,
         Some (ErrText nativeStatusText), if status < 0 then 0 else status))"

definition note_modified ::
  "(jstr \<Rightarrow> jstr) \<Rightarrow> 'v request \<Rightarrow> 'v globals \<Rightarrow> 'v globals" where
  "note_modified lower r g =
     (let put = (\<lambda>h t. case getResponseHeader lower h r of
            Some v \<Rightarrow> if v \<noteq> [] then obj_put (rq_cacheURL r) v t else t | None \<Rightarrow> t)
      in g\<lparr>g_lastModified := put (lit ''Last-Modified'') (g_lastModified g),
           g_etag := put (lit ''etag'') (g_etag g)\<rparr>)"

definition emit :: "nat \<Rightarrow> 'v rq_event list \<Rightarrow> 'v globals \<Rightarrow> 'v globals" where
  "emit i es g = g\<lparr>g_log := g_log g @ map (Pair i) es\<rparr>"

text \<open>The end of \<open>done\<close>: the Deferred, the callbacks and the global events.\<close>

definition finish ::
  "nat \<Rightarrow> bool \<Rightarrow> bool \<times> 'v option \<times> jstr \<times> rq_error option \<times> int \<Rightarrow> 'v globals \<Rightarrow> 'v globals" where
  "finish i fireGlobals res g =
     (case res of
        (isSuccess, success, statusText, err, status) \<Rightarrow>
          let g1 = emit i
                ([if isSuccess then Resolve success statusText else Reject statusText err, StatusCode status] @
                 (if fireGlobals then [GlobalEvent (if isSuccess then lit ''ajaxSuccess'' else lit ''ajaxError'')] else []) @
                 [Complete statusText]) g
          in if fireGlobals then
               let g2 = (emit i [GlobalEvent (lit ''ajaxComplete'')] g1)\<lparr>g_active := g_active g - 1\<rparr> in
               if g_active g2 = 0 then emit i [GlobalEvent (lit ''ajaxStop'')] g2 else g2
             else g1)"

definition done_start :: "int \<Rightarrow> jstr \<Rightarrow> 'v request \<Rightarrow> 'v request" where
  "done_start status headers r =
     r\<lparr>rq_completed := Some True, rq_timeoutTimer := False, rq_transport := False,
       rq_responseHeadersString := headers, rq_readyState := (if 0 < status then 4 else 0)\<rparr>"

definition done_response ::
  "(jstr \<Rightarrow> jstr) \<Rightarrow> 'v \<Rightarrow> (jstr \<times> 'v) list option \<Rightarrow> 'v request \<Rightarrow> 'v \<times> jstr list" where
  "done_response lower undef responses r =
     (let s = rq_settings r in
      case responses of
        None \<Rightarrow> (undef, se_dataTypes s)
      | Some rs \<Rightarrow>
          (case ajaxHandleResponses (se_contents s) (ce_converters (se_conv s)) (se_mimeType s)
              (getResponseHeader lower (lit ''Content-Type'') r) rs (se_dataTypes s) of
             (l, dts) \<Rightarrow> (case l of Own v \<Rightarrow> v | _ \<Rightarrow> undef, dts)))"

text \<open>A missing script is converted to nothing.\<close>

definition done_conv :: "'v \<Rightarrow> int \<Rightarrow> jstr list \<Rightarrow> 'v conv_env \<Rightarrow> 'v conv_env" where
  "done_conv undef status dts c =
     c\<lparr>ce_success := is_success status,
       ce_converters :=
         (if \<not> is_success status \<and> lit ''script'' \<in> set dts
          then obj_put (lit ''text script'') (CFun (\<lambda>_. Inr undef)) (ce_converters c)
          else ce_converters c)\<rparr>"

definition done_end ::
  "(jstr \<Rightarrow> jstr) \<Rightarrow> nat \<Rightarrow> int \<Rightarrow> jstr \<Rightarrow> 'v conv_result \<Rightarrow> 'v request \<Rightarrow> 'v globals \<Rightarrow> 'v request \<times> 'v globals" where
  "done_end lower i status nativeStatusText res r g =
     (let s = rq_settings r;
          g1 = (if is_success status \<and> se_ifModified s then note_modified lower r g else g);
          out = outcome status nativeStatusText (se_type s) res;
          (ok, v, statusText, err, status') = out
      in (r\<lparr>rq_status := Some status',
            rq_statusText := Some (if nativeStatusText \<noteq> [] then nativeStatusText else statusText)\<rparr>,
          finish i (rq_fireGlobals r) out g1))"

text \<open>
  \<open>None\<close> only when the conversion does not end within the fuel; an exception that leaves \<open>done\<close> is the
  first component.
\<close>

definition request_done ::
  "(jstr \<Rightarrow> jstr) \<Rightarrow> 'v \<Rightarrow> nat \<Rightarrow> nat \<Rightarrow> int \<Rightarrow> jstr \<Rightarrow> (jstr \<times> 'v) list option \<Rightarrow> jstr \<Rightarrow>
   'v request \<Rightarrow> 'v globals \<Rightarrow> (js_error option \<times> 'v request \<times> 'v globals) option" where
  "request_done lower undef fuel i status nativeStatusText responses headers r g =
     (if rq_completed r = Some True then Some (None, r, g)
      else
        case done_response lower undef responses (done_start status headers r) of
          (response, dts) \<Rightarrow>
            let conv = done_conv undef status dts (se_conv (rq_settings r));
                r1 = (done_start status headers r)\<lparr>rq_settings := (rq_settings r)\<lparr>se_dataTypes := dts, se_conv := conv\<rparr>\<rparr>
            in case ajaxConvert lower conv fuel dts response of
                 None \<Rightarrow> None
               | Some (Inl e) \<Rightarrow> Some (Some e, r1, g)
               | Some (Inr (res, flds)) \<Rightarrow>
                   Some (None, done_end lower i status nativeStatusText res (r1\<lparr>rq_fields := flds\<rparr>) g))"

definition request_abort ::
  "(jstr \<Rightarrow> jstr) \<Rightarrow> 'v \<Rightarrow> nat \<Rightarrow> nat \<Rightarrow> jstr \<Rightarrow> 'v request \<Rightarrow> 'v globals \<Rightarrow>
   (js_error option \<times> 'v request \<times> 'v globals) option" where
  "request_abort lower undef fuel i statusText r g =
     (let finalText = (if statusText \<noteq> [] then statusText else rq_strAbort r)
      in request_done lower undef fuel i 0 finalText None [] r
           (if rq_transport r then emit i [TransportAbort finalText] g else g))"

text \<open>The point where \<open>jQuery.ajax\<close> decides whether global events are fired.\<close>

definition request_begin :: "nat \<Rightarrow> bool \<Rightarrow> 'v request \<Rightarrow> 'v globals \<Rightarrow> 'v request \<times> 'v globals" where
  "request_begin i global r g =
     (r\<lparr>rq_fireGlobals := global\<rparr>,
      if global then
        (if g_active g = 0 then emit i [GlobalEvent (lit ''ajaxStart'')] g else g)\<lparr>g_active := g_active g + 1\<rparr>
      else g)"

text \<open>
  The headers of a request. \<open>has_data\<close> says that there are data and the type of the request has content,
  \<open>contentType\<close> is \<open>None\<close> for \<open>false\<close>, \<open>own_type\<close> says that the caller gave a content type.
\<close>

definition accept_header :: "(jstr \<times> jstr) list \<Rightarrow> jstr list \<Rightarrow> jstr" where
  "accept_header accepts dts =
     (case (if dts = [] \<or> dts ! 0 = [] then None else obj_get accepts (dts ! 0)) of
        Some a \<Rightarrow>
          if a = [] then (case obj_get accepts (lit ''*'') of Some b \<Rightarrow> b | None \<Rightarrow> lit ''undefined'')
          else a @ (if dts ! 0 \<noteq> lit ''*'' then lit '', */*; q=0.01'' else [])
      | None \<Rightarrow> (case obj_get accepts (lit ''*'') of Some b \<Rightarrow> b | None \<Rightarrow> lit ''undefined''))"

definition request_headers ::
  "(jstr \<Rightarrow> jstr) \<Rightarrow> bool \<Rightarrow> jstr option \<Rightarrow> bool \<Rightarrow> (jstr \<times> jstr) list \<Rightarrow> (jstr \<times> jstr) list \<Rightarrow>
   'v globals \<Rightarrow> 'v request \<Rightarrow> 'v request" where
  "request_headers lower has_data contentType own_type accepts headers g r =
     (let known = (\<lambda>name t r'. case obj_get t (rq_cacheURL r) of
            Some v \<Rightarrow> if v \<noteq> [] then setRequestHeader lower name v r' else r' | None \<Rightarrow> r');
          r1 = (if se_ifModified (rq_settings r)
                then known (lit ''If-None-Match'') (g_etag g) (known (lit ''If-Modified-Since'') (g_lastModified g) r)
                else r);
          r2 = (if has_data \<and> contentType \<noteq> None \<or> own_type
                then setRequestHeader lower (lit ''Content-Type'') (case contentType of Some c \<Rightarrow> c | None \<Rightarrow> lit ''false'') r1
                else r1);
          r3 = setRequestHeader lower (lit ''Accept'') (accept_header accepts (se_dataTypes (rq_settings r))) r2
      in foldl (\<lambda>r' (name, v). setRequestHeader lower name v r') r3 headers)"

text \<open>
  The request is given to the transport, if there is one; \<open>onSend\<close> is the text with which a handler of
  \<open>ajaxSend\<close> aborts the request, \<open>timed\<close> says that a timeout is set.
\<close>

definition request_send ::
  "(jstr \<Rightarrow> jstr) \<Rightarrow> 'v \<Rightarrow> nat \<Rightarrow> nat \<Rightarrow> bool \<Rightarrow> jstr option \<Rightarrow> bool \<Rightarrow> 'v request \<Rightarrow> 'v globals \<Rightarrow>
   (js_error option \<times> 'v request \<times> 'v globals) option" where
  "request_send lower undef fuel i transport onSend timed r g =
     (let r1 = r\<lparr>rq_strAbort := lit ''abort''\<rparr> in
      if \<not> transport then request_done lower undef fuel i (- 1) (lit ''No Transport'') None [] r1 g
      else
        let r2 = r1\<lparr>rq_transport := True, rq_readyState := 1\<rparr>;
            g2 = (if rq_fireGlobals r then emit i [GlobalEvent (lit ''ajaxSend'')] g else g)
        in case (if rq_fireGlobals r then onSend else None) of
             Some statusText \<Rightarrow> request_abort lower undef fuel i statusText r2 g2
           | None \<Rightarrow> Some (None, r2\<lparr>rq_timeoutTimer := timed, rq_completed := Some False\<rparr>, g2))"

definition new_request :: "'v settings \<Rightarrow> 'v request" where
  "new_request s =
     \<lparr>rq_settings = s, rq_completed = None, rq_fireGlobals = False, rq_readyState = 0, rq_status = None,
      rq_statusText = None, rq_responseHeadersString = [], rq_requestHeadersNames = [], rq_requestHeaders = [],
      rq_transport = False, rq_timeoutTimer = False, rq_strAbort = lit ''canceled'', rq_cacheURL = [],
      rq_fields = []\<rparr>"

section \<open>Completion\<close>

lemma request_done_completed:
  "rq_completed r = Some True \<Longrightarrow> request_done lower undef fuel i st tx resp hdr r g = Some (None, r, g)"
  by (simp add: request_done_def)

lemma done_end_keeps:
  "rq_completed (fst (done_end lower i st tx res r g)) = rq_completed r"
  "rq_fireGlobals (fst (done_end lower i st tx res r g)) = rq_fireGlobals r"
  "rq_transport (fst (done_end lower i st tx res r g)) = rq_transport r"
  by (simp_all add: done_end_def Let_def split: prod.splits)

lemma done_start_keeps [simp]:
  "rq_completed (done_start st hdr r) = Some True" "rq_fireGlobals (done_start st hdr r) = rq_fireGlobals r"
  "rq_settings (done_start st hdr r) = rq_settings r" "\<not> rq_transport (done_start st hdr r)"
  by (simp_all add: done_start_def)

text \<open>The converters of a request keep their form.\<close>

lemma lower_keys_two:
  assumes "\<And>k c. (k, c) \<in> set cv \<Longrightarrow> length (split_char 32 (lower k)) = 2"
  shows "two_types (lower_keys lower cv)"
proof -
  have "(k, c) \<in> set (foldl (\<lambda>d (k, c). obj_put (lower k) c d) acc cv) \<Longrightarrow>
      (k, c) \<in> set acc \<or> (\<exists>j d. (j, d) \<in> set cv \<and> k = lower j)" for k c acc
  proof (induction cv arbitrary: acc)
    case (Cons p cv)
    obtain j d where p: "p = (j, d)" by (cases p)
    from Cons.IH [of "obj_put (lower j) d acc"] Cons.prems p show ?case
      using obj_put_set [of "lower j" d acc] by auto
  qed simp
  from this [of _ _ "[]"] assms show ?thesis
    unfolding two_types_def lower_keys_def list_all_iff by fastforce
qed

lemma handle_responses_length:
  "ajaxHandleResponses contents cv mime hdr rs dts = (l, dts') \<Longrightarrow> length dts' \<le> length dts + 2"
proof -
  assume a: "ajaxHandleResponses contents cv mime hdr rs dts = (l, dts')"
  have "length (dropWhile (\<lambda>t. t = lit ''*'') dts) \<le> length dts" by (rule length_dropWhile_le)
  with a show ?thesis
    by (auto simp: ajaxHandleResponses_def Let_def split: option.splits if_splits)
qed

text \<open>Without \<open>throws\<close> and with a filter that raises nothing, the conversion raises nothing.\<close>

lemma convert_loop_no_exception:
  assumes "\<not> ce_throws s" "\<And>v f. ce_dataFilter s = Some f \<Longrightarrow> \<exists>w. f v = Inr w"
  shows "convert_loop s n seen current dts v xhr \<noteq> Some (Inl e)"
proof (induction n arbitrary: seen current dts v xhr)
  case (Suc n)
  have "\<exists>w. filtered s seen v = Inr w" using assms(2) by (auto simp: filtered_def split: option.splits)
  then obtain w where "filtered s seen v = Inr w" ..
  with Suc assms(1) show ?case
    by (auto simp: convert_step Let_def split: list.splits prod.splits option.splits conv.splits sum.splits)
qed simp

definition good_converters :: "(jstr \<Rightarrow> jstr) \<Rightarrow> 'v conv_env \<Rightarrow> bool" where
  "good_converters lower c =
     (list_all (\<lambda>(k, _). length (split_char 32 (lower k)) = 2) (ce_converters c) \<and>
      length (split_char 32 (lower (lit ''text script''))) = 2 \<and> \<not> ce_throws c \<and>
      (\<forall>f v. ce_dataFilter c = Some f \<longrightarrow> (\<exists>w. f v = Inr w)))"

lemma ajaxConvert_returns:
  assumes "good_converters lower c" "2 * length dts \<le> fuel"
    and "conv = c\<lparr>ce_success := b, ce_converters := (if p then obj_put (lit ''text script'') d (ce_converters c) else ce_converters c)\<rparr>"
  shows "\<exists>res flds. ajaxConvert lower conv fuel dts v = Some (Inr (res, flds))"
proof -
  have "two_types (lower_keys lower (ce_converters conv))"
    using assms(1) obj_put_set [of "lit ''text script''" d "ce_converters c"] unfolding assms(3)
    by (intro lower_keys_two) (auto simp: good_converters_def list_all_iff split: if_splits)
  from ajaxConvert_fuel [OF this, of dts v] assms(2) obtain res where r: "ajaxConvert lower conv fuel dts v = Some res"
    by blast
  have "ajaxConvert lower conv fuel dts v \<noteq> Some (Inl e)" for e
    using assms(1) convert_loop_no_exception [of "conv\<lparr>ce_converters := _\<rparr>"] unfolding assms(3)
    by (auto simp: ajaxConvert_def good_converters_def Let_def split: list.splits)
  with r show ?thesis by (cases res) auto
qed

fun settles :: "'v rq_event \<Rightarrow> bool" where
  "settles (Resolve _ _) = True"
| "settles (Reject _ _) = True"
| "settles _ = False"

definition finish_events :: "bool \<Rightarrow> bool \<Rightarrow> bool \<times> 'v option \<times> jstr \<times> rq_error option \<times> int \<Rightarrow> 'v rq_event list" where
  "finish_events fg last_one res =
     (case res of
        (isSuccess, success, statusText, err, status) \<Rightarrow>
          [if isSuccess then Resolve success statusText else Reject statusText err, StatusCode status] @
          (if fg then [GlobalEvent (if isSuccess then lit ''ajaxSuccess'' else lit ''ajaxError'')] else []) @
          [Complete statusText] @
          (if fg then GlobalEvent (lit ''ajaxComplete'') # (if last_one then [GlobalEvent (lit ''ajaxStop'')] else []) else []))"

lemma finish_log:
  "g_log (finish i fg res g) = g_log g @ map (Pair i) (finish_events fg (g_active g = 1) res)"
  "g_active (finish i fg res g) = (if fg then g_active g - 1 else g_active g)"
  "length (filter settles (finish_events fg b res)) = 1"
  by (cases res; simp add: finish_def finish_events_def emit_def Let_def split: option.splits)+

lemma note_modified_keeps:
  "g_log (note_modified lower r g) = g_log g" "g_active (note_modified lower r g) = g_active g"
  by (simp_all add: note_modified_def Let_def)

lemma done_end_globals:
  "\<exists>out. g_log (snd (done_end lower i st tx res r g)) =
      g_log g @ map (Pair i) (finish_events (rq_fireGlobals r) (g_active g = 1) out) \<and>
    g_active (snd (done_end lower i st tx res r g)) = (if rq_fireGlobals r then g_active g - 1 else g_active g)"
  by (rule exI [of _ "outcome st tx (se_type (rq_settings r)) res"])
    (simp add: done_end_def Let_def finish_log note_modified_keeps split: prod.splits)

lemma request_done_form:
  assumes "rq_completed r \<noteq> Some True" "request_done lower undef fuel i st tx resp hdr r g = Some (None, r', g')"
  shows "(\<exists>out. g_log g' = g_log g @ map (Pair i) (finish_events (rq_fireGlobals r) (g_active g = 1) out)) \<and>
    g_active g' = (if rq_fireGlobals r then g_active g - 1 else g_active g) \<and>
    rq_completed r' = Some True \<and> rq_fireGlobals r' = rq_fireGlobals r \<and> \<not> rq_transport r'"
proof -
  obtain s flds res where
    e: "done_end lower i st tx res (done_start st hdr r\<lparr>rq_settings := s, rq_fields := flds\<rparr>) g = (r', g')"
    using assms by (auto simp: request_done_def Let_def split: option.splits sum.splits prod.splits)
  let ?q = "done_start st hdr r\<lparr>rq_settings := s, rq_fields := flds\<rparr>"
  have "rq_fireGlobals ?q = rq_fireGlobals r" "rq_completed ?q = Some True" "\<not> rq_transport ?q" by simp_all
  with e show ?thesis
    using done_end_globals [of lower i st tx res ?q g] done_end_keeps [of lower i st tx res ?q g] by auto
qed

lemma request_done_returns:
  assumes "rq_completed r \<noteq> Some True" "good_converters lower (se_conv (rq_settings r))"
    and "2 * length (se_dataTypes (rq_settings r)) + 4 \<le> fuel"
  shows "\<exists>r' g'. request_done lower undef fuel i st tx resp hdr r g = Some (None, r', g')"
proof -
  obtain response dts where rd: "done_response lower undef resp (done_start st hdr r) = (response, dts)"
    by (cases "done_response lower undef resp (done_start st hdr r)")
  then have "length dts \<le> length (se_dataTypes (rq_settings r)) + 2"
    by (auto simp: done_response_def Let_def split: option.splits prod.splits dest: handle_responses_length)
  with assms(3) have fuel: "2 * length dts \<le> fuel" by simp
  from ajaxConvert_returns [OF assms(2) fuel done_conv_def] obtain res flds where
    "ajaxConvert lower (done_conv undef st dts (se_conv (rq_settings r))) fuel dts response = Some (Inr (res, flds))"
    by blast
  then show ?thesis using assms(1) rd by (simp add: request_done_def Let_def)
qed

section \<open>Calls on a request\<close>

text \<open>What the transport, the timer and the user may do with a request that was begun.\<close>

datatype 'v rq_call = CallDone int jstr "(jstr \<times> 'v) list option" jstr | CallAbort jstr

fun do_call ::
  "(jstr \<Rightarrow> jstr) \<Rightarrow> 'v \<Rightarrow> nat \<Rightarrow> nat \<Rightarrow> 'v rq_call \<Rightarrow> 'v request \<Rightarrow> 'v globals \<Rightarrow>
   (js_error option \<times> 'v request \<times> 'v globals) option" where
  "do_call lower undef fuel i (CallDone st tx resp hdr) r g = request_done lower undef fuel i st tx resp hdr r g"
| "do_call lower undef fuel i (CallAbort tx) r g = request_abort lower undef fuel i tx r g"

fun run_calls ::
  "(jstr \<Rightarrow> jstr) \<Rightarrow> 'v \<Rightarrow> nat \<Rightarrow> nat \<Rightarrow> 'v rq_call list \<Rightarrow> 'v request \<Rightarrow> 'v globals \<Rightarrow>
   (js_error option \<times> 'v request \<times> 'v globals) option" where
  "run_calls lower undef fuel i [] r g = Some (None, r, g)"
| "run_calls lower undef fuel i (c # cs) r g =
     (case do_call lower undef fuel i c r g of
        Some (None, r', g') \<Rightarrow> run_calls lower undef fuel i cs r' g'
      | res \<Rightarrow> res)"

definition completed :: "'v request \<Rightarrow> bool" where
  "completed r \<longleftrightarrow> rq_completed r = Some True"

definition settled :: "nat \<Rightarrow> 'v globals \<Rightarrow> nat" where
  "settled i g = length (filter (\<lambda>(j, e). j = i \<and> settles e) (g_log g))"

definition pending :: "'v request \<Rightarrow> bool" where
  "pending r \<longleftrightarrow> rq_fireGlobals r \<and> \<not> completed r"

text \<open>The requests whose completion cannot raise.\<close>

definition rq_good :: "(jstr \<Rightarrow> jstr) \<Rightarrow> nat \<Rightarrow> 'v request \<Rightarrow> bool" where
  "rq_good lower fuel r \<longleftrightarrow>
     good_converters lower (se_conv (rq_settings r)) \<and> 2 * length (se_dataTypes (rq_settings r)) + 4 \<le> fuel"

definition event_count :: "jstr \<Rightarrow> 'v globals \<Rightarrow> nat" where
  "event_count n g = length (filter (\<lambda>(_, e). e = GlobalEvent n) (g_log g))"

text \<open>\<open>ajaxStart\<close> and \<open>ajaxStop\<close> alternate: one is outstanding while requests are active.\<close>

definition balanced :: "'v globals \<Rightarrow> bool" where
  "balanced g \<longleftrightarrow>
     event_count (lit ''ajaxStart'') g = event_count (lit ''ajaxStop'') g + (if g_active g = 0 then 0 else 1)"

text \<open>The effect of a step of request \<open>i\<close> on what is shared.\<close>

definition rq_effect :: "nat \<Rightarrow> 'v request \<Rightarrow> 'v globals \<Rightarrow> 'v request \<Rightarrow> 'v globals \<Rightarrow> bool" where
  "rq_effect i r g r' g' \<longleftrightarrow>
     g_active g' = g_active g - of_bool (pending r) + of_bool (pending r') \<and>
     (\<forall>j. settled j g' = settled j g + (if j = i \<and> completed r' \<and> \<not> completed r then 1 else 0)) \<and>
     (completed r \<longrightarrow> completed r') \<and>
     (balanced g \<and> 0 \<le> g_active g - of_bool (pending r) \<longrightarrow> balanced g')"

lemma settled_append:
  "g_log g' = g_log g @ map (Pair i) es \<Longrightarrow>
   settled j g' = settled j g + (if j = i then length (filter settles es) else 0)"
  by (simp add: settled_def filter_map comp_def)

lemma event_count_append:
  "g_log g' = g_log g @ map (Pair i) es \<Longrightarrow>
   event_count n g' = event_count n g + length (filter (\<lambda>e. e = GlobalEvent n) es)"
  by (simp add: event_count_def filter_map comp_def)

lemma event_names:
  "lit ''ajaxStart'' \<noteq> lit ''ajaxStop''" "lit ''ajaxSend'' \<noteq> lit ''ajaxStart''" "lit ''ajaxSend'' \<noteq> lit ''ajaxStop''"
  "lit ''ajaxSuccess'' \<noteq> lit ''ajaxStart''" "lit ''ajaxSuccess'' \<noteq> lit ''ajaxStop''"
  "lit ''ajaxError'' \<noteq> lit ''ajaxStart''" "lit ''ajaxError'' \<noteq> lit ''ajaxStop''"
  "lit ''ajaxComplete'' \<noteq> lit ''ajaxStart''" "lit ''ajaxComplete'' \<noteq> lit ''ajaxStop''"
  by (simp_all add: lit_def)

lemma finish_counts:
  "length (filter (\<lambda>e. e = GlobalEvent (lit ''ajaxStart'')) (finish_events fg b out)) = 0"
  "length (filter (\<lambda>e. e = GlobalEvent (lit ''ajaxStop'')) (finish_events fg b out)) = of_bool (fg \<and> b)"
  by (cases out; simp add: finish_events_def event_names event_names(1) [symmetric])+

lemma request_done_effect:
  assumes "\<not> completed r" "request_done lower undef fuel i st tx resp hdr r g = Some (None, r', g')"
  shows "rq_effect i r g r' g'" "completed r'" "rq_fireGlobals r' = rq_fireGlobals r" "\<not> rq_transport r'"
proof -
  from request_done_form [OF assms(1) [unfolded completed_def] assms(2)] obtain out where
    l: "g_log g' = g_log g @ map (Pair i) (finish_events (rq_fireGlobals r) (g_active g = 1) out)"
    and a: "g_active g' = (if rq_fireGlobals r then g_active g - 1 else g_active g)"
    and c: "rq_completed r' = Some True" "rq_fireGlobals r' = rq_fireGlobals r" "\<not> rq_transport r'"
    by auto
  show "completed r'" "rq_fireGlobals r' = rq_fireGlobals r" "\<not> rq_transport r'" using c by (simp_all add: completed_def)
  show "rq_effect i r g r' g'"
    using assms(1) a c settled_append [OF l] event_count_append [OF l]
    by (auto simp: rq_effect_def completed_def pending_def balanced_def finish_log finish_counts)
qed

lemma rq_good_keeps [simp]:
  "rq_good lower fuel (r\<lparr>rq_strAbort := a\<rparr>) = rq_good lower fuel r"
  "rq_good lower fuel (r\<lparr>rq_transport := b, rq_readyState := n\<rparr>) = rq_good lower fuel r"
  "rq_good lower fuel (r\<lparr>rq_timeoutTimer := b, rq_completed := c\<rparr>) = rq_good lower fuel r"
  "rq_good lower fuel (r\<lparr>rq_fireGlobals := b\<rparr>) = rq_good lower fuel r"
  by (simp_all add: rq_good_def)

lemma rq_effect_log:
  assumes "g_log g' = g_log g @ map (Pair i) es" "g_active g' = g_active g"
    and "filter settles es = []" "\<And>n. n \<in> {lit ''ajaxStart'', lit ''ajaxStop''} \<Longrightarrow> GlobalEvent n \<notin> set es"
    and "rq_effect i r g' r' g''"
  shows "rq_effect i r g r' g''"
proof -
  have "event_count n g' = event_count n g" if "n \<in> {lit ''ajaxStart'', lit ''ajaxStop''}" for n
    using event_count_append [OF assms(1), of n] assms(4) [OF that] by (auto simp: filter_empty_conv)
  then have "balanced g \<longleftrightarrow> balanced g'" by (simp add: balanced_def assms(2))
  then show ?thesis using assms settled_append [OF assms(1)] by (simp add: rq_effect_def)
qed

lemma request_abort_effect:
  assumes "\<not> completed r" "request_abort lower undef fuel i tx r g = Some (None, r', g')"
  shows "rq_effect i r g r' g'" "completed r'" "rq_fireGlobals r' = rq_fireGlobals r" "\<not> rq_transport r'"
proof -
  let ?t = "if tx \<noteq> [] then tx else rq_strAbort r"
  let ?es = "if rq_transport r then [TransportAbort ?t] else []"
  let ?g = "if rq_transport r then emit i [TransportAbort ?t] g else g"
  note d = request_done_effect [OF assms(1) assms(2) [unfolded request_abort_def Let_def]]
  show "completed r'" "rq_fireGlobals r' = rq_fireGlobals r" "\<not> rq_transport r'" by (rule d)+
  have "g_log ?g = g_log g @ map (Pair i) ?es" "g_active ?g = g_active g" by (simp_all add: emit_def)
  then show "rq_effect i r g r' g'" by (rule rq_effect_log [OF _ _ _ _ d(1)]) auto
qed

lemma request_returns:
  assumes "\<not> completed r" "rq_good lower fuel r"
  shows "\<exists>r' g'. request_done lower undef fuel i st tx resp hdr r g = Some (None, r', g')"
    and "\<exists>r' g'. request_abort lower undef fuel i tx r g = Some (None, r', g')"
  using assms request_done_returns [of r lower fuel]
  by (simp_all add: completed_def rq_good_def request_abort_def Let_def)

lemma completed_call:
  "completed r \<Longrightarrow> request_done lower undef fuel i st tx resp hdr r g = Some (None, r, g)"
  by (simp add: completed_def request_done_completed)

lemma rq_effect_refl: "rq_effect i r g r g"
  by (simp add: rq_effect_def)

lemma completed_abort_effect:
  assumes "completed r" "request_abort lower undef fuel i tx r g = Some (e, r', g')"
  shows "e = None \<and> r' = r \<and> rq_effect i r g r' g'"
proof -
  let ?t = "if tx \<noteq> [] then tx else rq_strAbort r"
  let ?es = "if rq_transport r then [TransportAbort ?t] else []"
  from assms have e: "e = None" "r' = r" "g_log g' = g_log g @ map (Pair i) ?es" "g_active g' = g_active g"
    by (auto simp: request_abort_def Let_def completed_call emit_def)
  have "rq_effect i r g r' g'"
    by (rule rq_effect_log [OF e(3,4)]) (simp_all add: e(2) rq_effect_refl)
  with e show ?thesis by simp
qed

lemma do_call_effect:
  assumes "rq_good lower fuel r \<or> completed r"
  shows "\<exists>r' g'. do_call lower undef fuel i c r g = Some (None, r', g') \<and> rq_effect i r g r' g' \<and> completed r'"
proof (cases "completed r")
  case True
  then show ?thesis
  proof (cases c)
    case (CallAbort tx)
    from True have "\<exists>r' g'. request_abort lower undef fuel i tx r g = Some (None, r', g')"
      by (simp add: request_abort_def completed_call Let_def)
    with True CallAbort completed_abort_effect show ?thesis by fastforce
  qed (simp add: completed_call rq_effect_refl)
next
  case False
  with assms have "rq_good lower fuel r" by simp
  with False request_returns [of r lower fuel undef i] show ?thesis
    by (cases c) (simp_all, (blast intro: request_done_effect request_abort_effect)+)
qed

section \<open>All requests\<close>

type_synonym 'v ajax = "'v request list \<times> 'v globals"

text \<open>
  The steps of the page: a new request, the events and headers of \<open>jQuery.ajax\<close> (only before the request
  is sent), handing it to the transport, and calls from the transport, the timer and the user, in any order.
\<close>

inductive ajax_step :: "(jstr \<Rightarrow> jstr) \<Rightarrow> 'v \<Rightarrow> nat \<Rightarrow> 'v ajax \<Rightarrow> 'v ajax \<Rightarrow> bool" for lower undef fuel where
  step_new: "rq_good lower fuel (new_request s) \<Longrightarrow>
    ajax_step lower undef fuel (rs, g) (rs @ [new_request s], g)"
| step_begin: "i < length rs \<Longrightarrow> rq_completed (rs ! i) = None \<Longrightarrow> \<not> rq_fireGlobals (rs ! i) \<Longrightarrow>
    request_begin i b (rs ! i) g = (r', g') \<Longrightarrow> ajax_step lower undef fuel (rs, g) (rs[i := r'], g')"
| step_header: "i < length rs \<Longrightarrow>
    ajax_step lower undef fuel (rs, g) (rs[i := setRequestHeader lower n v (rs ! i)], g)"
| step_mime: "i < length rs \<Longrightarrow>
    ajax_step lower undef fuel (rs, g) (rs[i := overrideMimeType m (rs ! i)], g)"
| step_send: "i < length rs \<Longrightarrow> rq_completed (rs ! i) = None \<Longrightarrow>
    request_send lower undef fuel i tr onSend timed (rs ! i) g = Some (e, r', g') \<Longrightarrow>
    ajax_step lower undef fuel (rs, g) (rs[i := r'], g')"
| step_call: "i < length rs \<Longrightarrow> do_call lower undef fuel i c (rs ! i) g = Some (e, r', g') \<Longrightarrow>
    ajax_step lower undef fuel (rs, g) (rs[i := r'], g')"

definition ajax_inv :: "(jstr \<Rightarrow> jstr) \<Rightarrow> nat \<Rightarrow> 'v ajax \<Rightarrow> bool" where
  "ajax_inv lower fuel = (\<lambda>(rs, g).
     g_active g = int (length (filter pending rs)) \<and>
     (\<forall>i. settled i g = (if i < length rs \<and> completed (rs ! i) then 1 else 0)) \<and>
     balanced g \<and> (\<forall>r \<in> set rs. rq_good lower fuel r \<or> completed r))"

lemma filter_update:
  "i < length xs \<Longrightarrow>
   int (length (filter P (xs[i := x]))) = int (length (filter P xs)) - of_bool (P (xs ! i)) + of_bool (P x)"
proof (induction xs arbitrary: i)
  case (Cons a xs)
  then show ?case
  proof (cases i)
    case (Suc j)
    with Cons.IH [of j] Cons.prems show ?thesis by simp
  qed simp
qed simp

lemma ajax_inv_update:
  assumes "ajax_inv lower fuel (rs, g)" "i < length rs" "rq_effect i (rs ! i) g r' g'" "rq_good lower fuel r' \<or> completed r'"
  shows "ajax_inv lower fuel (rs[i := r'], g')"
proof -
  have "of_bool (pending (rs ! i)) \<le> g_active g"
    using assms(1,2) nth_mem [OF assms(2)] by (auto simp: ajax_inv_def of_bool_def filter_empty_conv Suc_le_eq)
  then show ?thesis
    using assms filter_update [OF assms(2), of pending r'] set_update_subset_insert [of rs i r']
    by (auto simp: ajax_inv_def rq_effect_def nth_list_update)
qed

lemma request_begin_effect:
  assumes "rq_completed r = None" "\<not> rq_fireGlobals r" "request_begin i b r g = (r', g')"
  shows "rq_effect i r g r' g'" "rq_good lower fuel r' = rq_good lower fuel r"
proof -
  let ?es = "if b \<and> g_active g = 0 then [GlobalEvent (lit ''ajaxStart'')] else []"
  have l: "g_log g' = g_log g @ map (Pair i) ?es" using assms(3) by (auto simp: request_begin_def emit_def)
  show "rq_effect i r g r' g'"
    using assms settled_append [OF l] event_count_append [OF l] event_names(1)
    by (auto simp: rq_effect_def request_begin_def pending_def completed_def balanced_def)
  show "rq_good lower fuel r' = rq_good lower fuel r" using assms(3) by (auto simp: request_begin_def)
qed

lemma request_send_effect:
  assumes "rq_completed r = None" "rq_good lower fuel r"
  shows "\<exists>r' g'. request_send lower undef fuel i tr onSend timed r g = Some (None, r', g') \<and>
    rq_effect i r g r' g' \<and> (rq_good lower fuel r' \<or> completed r')"
proof -
  define r1 where "r1 = r\<lparr>rq_strAbort := lit ''abort''\<rparr>"
  define r2 where "r2 = r1\<lparr>rq_transport := True, rq_readyState := 1\<rparr>"
  define g2 where "g2 = (if rq_fireGlobals r then emit i [GlobalEvent (lit ''ajaxSend'')] g else g)"
  let ?es = "if rq_fireGlobals r then [GlobalEvent (lit ''ajaxSend'')] else []"
  have same: "completed q = completed r" "pending q = pending r" "rq_good lower fuel q" if "q \<in> {r1, r2}" for q
    using that assms(2) by (auto simp: r1_def r2_def completed_def pending_def)
  have eff: "rq_effect i q h r' g' = rq_effect i r h r' g'" if "q \<in> {r1, r2}" for q h r' g'
    using same(1,2) [OF that] by (simp add: rq_effect_def)
  have nc: "\<not> completed r1" "\<not> completed r2" using assms(1) same(1) by (simp_all add: completed_def)
  have l: "g_log g2 = g_log g @ map (Pair i) ?es" "g_active g2 = g_active g" by (simp_all add: g2_def emit_def)
  have up: "rq_effect i r g r' g'" if "rq_effect i r g2 r' g'" for r' g'
    by (rule rq_effect_log [OF l _ _ that]) (auto simp: event_names)
  consider (none) "\<not> tr" | (quiet) "tr" "(if rq_fireGlobals r then onSend else None) = None"
    | (aborted) t where "tr" "(if rq_fireGlobals r then onSend else None) = Some t"
    by (cases "if rq_fireGlobals r then onSend else None") auto
  then show ?thesis
  proof cases
    case none
    from request_returns(1) [OF nc(1) same(3)] obtain r' g' where
      "request_done lower undef fuel i (- 1) (lit ''No Transport'') None [] r1 g = Some (None, r', g')" by blast
    moreover from request_done_effect [OF nc(1) this] have "rq_effect i r g r' g'" "completed r'" by (simp_all add: eff)
    ultimately show ?thesis using none by (simp add: request_send_def r1_def)
  next
    case quiet
    have "rq_effect i r g2 (r2\<lparr>rq_timeoutTimer := timed, rq_completed := Some False\<rparr>) g2"
      using assms(1) by (simp add: rq_effect_def r2_def r1_def pending_def completed_def)
    with quiet up same(3) [of r2] show ?thesis by (simp add: request_send_def r1_def r2_def g2_def Let_def)
  next
    case (aborted t)
    from request_returns(2) [OF nc(2) same(3)] obtain r' g' where
      a: "request_abort lower undef fuel i t r2 g2 = Some (None, r', g')" by blast
    with request_abort_effect [OF nc(2) this] up have "rq_effect i r g r' g'" "completed r'" by (simp_all add: eff)
    with a aborted show ?thesis by (simp add: request_send_def r1_def r2_def g2_def Let_def)
  qed
qed

lemma setRequestHeader_keeps:
  "rq_completed (setRequestHeader lower n v r) = rq_completed r"
  "rq_fireGlobals (setRequestHeader lower n v r) = rq_fireGlobals r"
  "rq_settings (setRequestHeader lower n v r) = rq_settings r"
  by (simp_all add: setRequestHeader_def Let_def)

lemma overrideMimeType_keeps:
  "rq_completed (overrideMimeType m r) = rq_completed r"
  "rq_fireGlobals (overrideMimeType m r) = rq_fireGlobals r"
  "rq_good lower fuel (overrideMimeType m r) = rq_good lower fuel r"
  by (simp_all add: overrideMimeType_def rq_good_def)

lemmas rq_option_keeps = setRequestHeader_keeps overrideMimeType_keeps

lemma ajax_inv_nth:
  "ajax_inv lower fuel (rs, g) \<Longrightarrow> i < length rs \<Longrightarrow> rq_good lower fuel (rs ! i) \<or> completed (rs ! i)"
  by (simp add: ajax_inv_def)

lemma rq_option_effect:
  "rq_effect i r g (setRequestHeader lower n v r) g" "rq_effect i r g (overrideMimeType m r) g"
  by (simp_all add: rq_effect_def pending_def completed_def rq_option_keeps)

lemma rq_option_good:
  "rq_good lower fuel (setRequestHeader lower n v r) \<or> completed (setRequestHeader lower n v r) \<longleftrightarrow>
   rq_good lower fuel r \<or> completed r"
  "rq_good lower fuel (overrideMimeType m r) \<or> completed (overrideMimeType m r) \<longleftrightarrow>
   rq_good lower fuel r \<or> completed r"
  by (simp add: setRequestHeader_keeps rq_good_def completed_def)
    (simp add: overrideMimeType_keeps completed_def)

lemma ajax_inv_step:
  assumes "ajax_step lower undef fuel s t" "ajax_inv lower fuel s"
  shows "ajax_inv lower fuel t"
  using assms
proof (induction rule: ajax_step.induct)
  case (step_new s rs g)
  then show ?case
    by (auto simp: ajax_inv_def new_request_def pending_def completed_def nth_append)
next
  case (step_begin i rs b g r' g')
  have "rq_good lower fuel r'"
    using ajax_inv_nth [OF step_begin.prems step_begin.hyps(1)] step_begin.hyps(2)
      request_begin_effect(2) [OF step_begin.hyps(2-4), of lower fuel] by (simp add: completed_def)
  then show ?case
    using ajax_inv_update [OF step_begin.prems step_begin.hyps(1)] request_begin_effect(1) [OF step_begin.hyps(2-4)]
    by blast
next
  case (step_header i rs g n v)
  show ?case
    by (rule ajax_inv_update [OF step_header.prems step_header.hyps(1) rq_option_effect(1)])
      (simp only: rq_option_good ajax_inv_nth [OF step_header.prems step_header.hyps(1)])
next
  case (step_mime i rs g m)
  show ?case
    by (rule ajax_inv_update [OF step_mime.prems step_mime.hyps(1) rq_option_effect(2)])
      (simp only: rq_option_good ajax_inv_nth [OF step_mime.prems step_mime.hyps(1)])
next
  case (step_send i rs tr onSend timed g e r' g')
  then have "rq_good lower fuel (rs ! i)" using ajax_inv_nth by (fastforce simp: completed_def)
  from request_send_effect [OF step_send.hyps(2) this, of undef i tr onSend timed g] step_send.hyps(3)
  have "rq_effect i (rs ! i) g r' g'" "rq_good lower fuel r' \<or> completed r'" by auto
  then show ?case by (rule ajax_inv_update [OF step_send.prems step_send.hyps(1)])
next
  case (step_call i rs c g e r' g')
  from do_call_effect [OF ajax_inv_nth [OF step_call.prems step_call.hyps(1)], of undef i c g] step_call.hyps(2)
  have "rq_effect i (rs ! i) g r' g'" "rq_good lower fuel r' \<or> completed r'" by auto
  then show ?case by (rule ajax_inv_update [OF step_call.prems step_call.hyps(1)])
qed

definition globals_init :: "'v globals" where
  "globals_init = \<lparr>g_active = 0, g_lastModified = [], g_etag = [], g_log = []\<rparr>"

lemma ajax_inv_init: "ajax_inv lower fuel ([], globals_init)"
  by (simp add: ajax_inv_def globals_init_def settled_def balanced_def event_count_def)

lemma ajax_inv_reachable:
  "(ajax_step lower undef fuel)\<^sup>*\<^sup>* ([], globals_init) s \<Longrightarrow> ajax_inv lower fuel s"
  by (induction rule: rtranclp_induct) (simp_all add: ajax_inv_init ajax_inv_step)


definition plain_settings :: "int settings" where
  "plain_settings =
     \<lparr>se_type = lit ''GET'', se_dataTypes = [lit ''text''], se_contents = [],
      se_conv = \<lparr>ce_converters = default_converters Inr Inr Inr, ce_fields = Map.empty, ce_dataFilter = None,
        ce_throws = False, ce_success = False\<rparr>,
      se_mimeType = None, se_ifModified = False\<rparr>"

lemma plain_settings_good: "good_converters id (se_conv plain_settings)"
proof -
  have "list_all (\<lambda>(k, _). length (split_char 32 (id k)) = 2) (default_converters Inr Inr Inr :: int converters)"
    "length (split_char 32 (id (lit ''text script''))) = 2" by code_simp+
  then show ?thesis by (simp add: good_converters_def plain_settings_def)
qed




text \<open>
  With \<open>throws\<close>, an exception of a converter leaves \<open>done\<close> before the Deferred is settled and before the
  request is counted as finished; the request is complete, so nothing makes up for it.
\<close>

lemma throws_never_settles:
  assumes "request_done lower undef fuel i st tx resp hdr r g = Some (Some e, r', g')"
  shows "g' = g \<and> request_done lower undef fuel' i st' tx' resp' hdr' r' g' = Some (None, r', g')"
proof -
  have "g' = g" "rq_completed r' = Some True"
    using assms by (auto simp: request_done_def Let_def split: if_splits option.splits sum.splits prod.splits)
  then show ?thesis by (simp add: request_done_completed)
qed

section \<open>Request headers\<close>

text \<open>
  The specification: a map from names in lower case to the name as it was first written and the last
  value.
\<close>

definition header_put :: "(jstr \<Rightarrow> jstr) \<Rightarrow> jstr \<times> jstr \<Rightarrow> (jstr \<rightharpoonup> jstr \<times> jstr) \<Rightarrow> (jstr \<rightharpoonup> jstr \<times> jstr)" where
  "header_put lower = (\<lambda>(name, v) m. m(lower name \<mapsto> (case m (lower name) of Some (n, _) \<Rightarrow> n | None \<Rightarrow> name, v)))"

definition header_abs :: "'v request \<Rightarrow> jstr \<rightharpoonup> jstr \<times> jstr" where
  "header_abs r k = (case obj_get (rq_requestHeadersNames r) k of
     Some n \<Rightarrow> map_option (Pair n) (obj_get (rq_requestHeaders r) n) | None \<Rightarrow> None)"

definition header_ok :: "(jstr \<Rightarrow> jstr) \<Rightarrow> 'v request \<Rightarrow> bool" where
  "header_ok lower r \<longleftrightarrow>
     rq_completed r = None \<and>
     (\<forall>k n. obj_get (rq_requestHeadersNames r) k = Some n \<longrightarrow> lower n = k \<and> obj_get (rq_requestHeaders r) n \<noteq> None) \<and>
     (\<forall>n. obj_get (rq_requestHeaders r) n \<noteq> None \<longrightarrow> obj_get (rq_requestHeadersNames r) (lower n) = Some n)"

lemma header_step:
  assumes "\<And>x. lower x = [] \<longleftrightarrow> x = []" "header_ok lower r"
  shows "header_ok lower (setRequestHeader lower name v r)"
    and "header_abs (setRequestHeader lower name v r) = header_put lower (name, v) (header_abs r)"
proof -
  define n where "n = (case obj_get (rq_requestHeadersNames r) (lower name) of Some n \<Rightarrow> n | None \<Rightarrow> name)"
  have low: "lower n = lower name" using assms(2) by (auto simp: n_def header_ok_def split: option.splits)
  have "(case obj_get (rq_requestHeadersNames r) (lower name) of Some n \<Rightarrow> if n = [] then name else n | None \<Rightarrow> name) = n"
    using low assms(1) [of name] assms(1) [of n] by (auto simp: n_def split: option.splits)
  then have s: "setRequestHeader lower name v r =
      r\<lparr>rq_requestHeadersNames := obj_put (lower name) n (rq_requestHeadersNames r),
        rq_requestHeaders := obj_put n v (rq_requestHeaders r)\<rparr>"
    using assms(2) by (simp add: setRequestHeader_def header_ok_def Let_def)
  have old: "obj_get (rq_requestHeadersNames r) (lower name) = Some m \<Longrightarrow> m = n" for m by (simp add: n_def)
  have names: "lower m = k \<and> obj_get (obj_put n v (rq_requestHeaders r)) m \<noteq> None"
    if "obj_get (obj_put (lower name) n (rq_requestHeadersNames r)) k = Some m" for k m
    using that assms(2) low unfolding obj_get_put header_ok_def by (cases "k = lower name") auto
  have hdrs: "obj_get (obj_put (lower name) n (rq_requestHeadersNames r)) (lower m) = Some m"
    if "obj_get (obj_put n v (rq_requestHeaders r)) m \<noteq> None" for m
  proof (cases "m = n")
    case False
    with that assms(2) have "obj_get (rq_requestHeadersNames r) (lower m) = Some m"
      unfolding obj_get_put header_ok_def by simp
    with False old show ?thesis unfolding obj_get_put by auto
  qed (simp add: obj_get_put low)
  show "header_ok lower (setRequestHeader lower name v r)"
    using assms(2) names hdrs unfolding s header_ok_def by simp
  have n: "(case header_abs r (lower name) of Some (m, _) \<Rightarrow> m | None \<Rightarrow> name) = n"
    using assms(2) by (fastforce simp: n_def header_abs_def header_ok_def split: option.splits)
  have other: "obj_get (rq_requestHeadersNames r) k = Some m \<Longrightarrow> k \<noteq> lower name \<Longrightarrow> m \<noteq> n" for k m
    using assms(2) low by (auto simp: header_ok_def)
  have "header_abs (setRequestHeader lower name v r) k = header_put lower (name, v) (header_abs r) k" for k
  proof (cases "k = lower name")
    case True
    then show ?thesis by (simp add: header_put_def n) (simp add: header_abs_def s obj_get_put)
  next
    case False
    then show ?thesis
      using other [of k] by (simp add: header_put_def) (simp add: header_abs_def s obj_get_put split: option.splits)
  qed
  then show "header_abs (setRequestHeader lower name v r) = header_put lower (name, v) (header_abs r)" ..
qed

text \<open>Names of header fields are ASCII, where \<open>toLowerCase\<close> is \<open>ascii_lower\<close>.\<close>

definition set_header :: "jstr \<times> jstr \<Rightarrow> 'v request \<Rightarrow> 'v request" where
  "set_header = (\<lambda>(name, v). setRequestHeader ascii_lower name v)"

interpretation sent_headers: simulation set_header "header_put ascii_lower" header_abs "header_ok ascii_lower"
proof
  have lower: "ascii_lower x = [] \<longleftrightarrow> x = []" for x by (simp add: ascii_lower_def)
  fix r :: "'a request" and p :: "jstr \<times> jstr"
  assume "header_ok ascii_lower r"
  from header_step [OF lower this] show "header_ok ascii_lower (set_header p r)"
    "header_abs (set_header p r) = header_put ascii_lower p (header_abs r)"
    by (auto simp: set_header_def split: prod.splits)
qed

lemma header_abs_sent:
  assumes "header_ok lower r"
  shows "obj_get (rq_requestHeaders r) n = (case header_abs r (lower n) of Some (m, v) \<Rightarrow> if m = n then Some v else None | None \<Rightarrow> None)"
proof (cases "obj_get (rq_requestHeaders r) n")
  case None
  with assms show ?thesis by (fastforce simp: header_abs_def header_ok_def split: option.splits)
next
  case (Some v)
  with assms have "obj_get (rq_requestHeadersNames r) (lower n) = Some n" unfolding header_ok_def by blast
  with Some show ?thesis by (simp add: header_abs_def)
qed

lemma new_request_headers: "header_ok ascii_lower (new_request s)" "header_abs (new_request s) = Map.empty"
  by (auto simp: header_ok_def header_abs_def new_request_def fun_eq_iff obj_get_Nil)

text \<open>
  C35. \<open>setRequestHeader\<close> implements a map from names up to case: after any sequence of calls on a request that
  is not sent, a field is sent under the first spelling of its name with the last value that was
  given under any spelling, and nothing else is sent.
\<close>

theorem request_headers_refine_map:
  "obj_get (rq_requestHeaders (fold set_header ps (new_request s))) n =
     (case fold (header_put ascii_lower) ps Map.empty (ascii_lower n) of
        Some (m, v) \<Rightarrow> if m = n then Some v else None
      | None \<Rightarrow> None)"
proof -
  have "header_ok ascii_lower (fold set_header ps (new_request s))"
    by (rule sent_headers.inv_run [OF new_request_headers(1)])
  then show ?thesis
    using sent_headers.abs_run [OF new_request_headers(1), of ps s] by (simp add: header_abs_sent new_request_headers(2))
qed

section \<open>The address on a retry\<close>

text \<open>
  The address that was requested without cache, requested again: the parameter is removed but not the
  separator in front of it, so each retry inserts one more \<open>&\<close>.
\<close>

lemma antiCache_retry:
  "snd (request_url None False 1 (lit ''/a'')) = lit ''/a?_=1''"
  "snd (request_url None False 2 (lit ''/a?_=1'')) = lit ''/a?&_=2''"
  "snd (request_url None False 3 (lit ''/a?&_=2'')) = lit ''/a?&&_=3''"
  by code_simp+

text \<open>The fragment stays at the end, and the cached address is a first part without it.\<close>

lemma strip_hash_prefix: "\<exists>h. url = strip_hash url @ h \<and> (h = [] \<or> h ! 0 = 35)"
proof (cases "strip_hash url = url")
  case False
  then obtain i where f: "find (\<lambda>i. url ! i = 35 \<and>
      \<not> list_ex (\<lambda>c. c = 10 \<or> c = 13 \<or> c = 8232 \<or> c = 8233) (drop i url)) [0..<length url] = Some i"
    by (auto simp: strip_hash_def split: option.splits)
  then have "strip_hash url = take i url" by (simp add: strip_hash_def)
  moreover from f have "i < length url" "url ! i = 35" by (auto simp: find_Some_iff)
  ultimately show ?thesis by (intro exI [of _ "drop i url"]) simp
qed simp

lemma request_url_hash:
  "\<exists>q h. url = strip_hash url @ h \<and> snd (request_url data cache nonce url) = fst (request_url data cache nonce url) @ q @ h \<and>
    (cache \<longrightarrow> q = [])"
proof -
  from strip_hash_prefix obtain h where "url = strip_hash url @ h" by blast
  then have h: "drop (length (strip_hash url)) url = h" "url = strip_hash url @ h" by (metis append_eq_conv_conj)+
  let ?c = "fst (request_url data cache nonce url)"
  show ?thesis
    by (rule exI [of _ "if cache then [] else (if 63 \<in> set ?c then lit ''&'' else lit ''?'') @ lit ''_='' @ dec nonce"],
        rule exI [of _ h])
      (simp add: request_url_def Let_def h(1) h(2) [symmetric])
qed

end
