(* ===== verification/JQ_Namespace.thy ===== *)
theory JQ_Namespace
  imports JQ_Data JS_Regex
begin

text \<open>
  \<open>jquery-3.5.1.js\<close>: the words that \<open>jQuery.event.add\<close> and \<open>remove\<close> take, a type followed by
  namespaces (\<open>rtypenamespace\<close>), and the regular expression that tests whether a handler has the
  namespaces of a word. The main lemma: the test is inclusion of the namespaces.
\<close>

section \<open>Types and namespaces\<close>

definition line_end :: "int \<Rightarrow> bool" where
  "line_end c = (c = 10 \<or> c = 13 \<or> c = 8232 \<or> c = 8233)"

text \<open>The groups of \<open>/^([^.]*)(?:\.(.+)|)/\<close>.\<close>

definition rtypenamespace :: "jstr \<Rightarrow> jstr \<times> jstr option" where
  "rtypenamespace s =
     (let ty = takeWhile (\<lambda>c. c \<noteq> 46) s;
          ns = takeWhile (\<lambda>c. \<not> line_end c) (drop (Suc (length ty)) s)
      in (ty, if ns = [] then None else Some ns))"

definition str_cmp :: "jstr \<Rightarrow> jstr \<Rightarrow> int" where
  "str_cmp a b = (if str_lt a b then -1 else if str_lt b a then 1 else 0)"

text \<open>\<open>( tmp[ 2 ] || "" ).split( "." ).sort()\<close>\<close>

definition namespaces_of :: "jstr option \<Rightarrow> jstr list" where
  "namespaces_of ns = js_sort str_cmp (split_char 46 (case ns of Some s \<Rightarrow> s | None \<Rightarrow> []))"

text \<open>
  \<open>"(^|\\.)" + namespaces.join( "\\.(?:.*\\.|)" ) + "(\\.|$)"\<close>; the names stand for themselves, that
  is, they have no characters that are special in a pattern.
\<close>

definition ns_gap :: rx where
  "ns_gap = RSeq (RLit [46]) (ROpt (RSeq (RStar True RDot) (RLit [46])))"

fun ns_body :: "jstr list \<Rightarrow> rx" where
  "ns_body [] = REmpty"
| "ns_body [n] = RLit n"
| "ns_body (n # ns) = RSeq (RLit n) (RSeq ns_gap (ns_body ns))"

definition ns_rx :: "jstr list \<Rightarrow> rx" where
  "ns_rx ns =
     RSeq (RGroup 1 (RAlt RBol (RLit [46]))) (RSeq (ns_body ns) (RGroup 2 (RAlt (RLit [46]) REol)))"

section \<open>Namespaces\<close>

text \<open>A piece of the string that a separator or an end of the string delimits on both sides.\<close>

definition delimited :: "(jstr \<Rightarrow> bool) \<Rightarrow> jstr \<Rightarrow> bool" where
  "delimited W s =
     (\<exists>pre w post. s = pre @ w @ post \<and> (pre = [] \<or> last pre = 46) \<and> W w \<and> (post = [] \<or> hd post = 46))"

lemma ms_body_end:
  assumes "plain B"
  shows "(\<exists>b \<in> set (ms B (MS p t cs)). ms (RGroup 2 (RAlt (RLit [46]) REol)) b \<noteq> []) \<longleftrightarrow>
    (\<exists>w post. t = w @ post \<and> word B w \<and> (post = [] \<or> hd post = 46))"
proof -
  have e: "ms (RGroup 2 (RAlt (RLit [46]) REol)) b \<noteq> [] \<longleftrightarrow> m_rest b = [] \<or> hd (m_rest b) = 46" for b
    by (auto simp: in_class_def split: list.splits)
  show ?thesis
  proof
    assume "\<exists>b \<in> set (ms B (MS p t cs)). ms (RGroup 2 (RAlt (RLit [46]) REol)) b \<noteq> []"
    then obtain b where b: "b \<in> set (ms B (MS p t cs))" "m_rest b = [] \<or> hd (m_rest b) = 46" using e by blast
    from ms_sound [OF b(1)] obtain w where "consumed (MS p t cs) w b" "word B w" by blast
    with b(2) show "\<exists>w post. t = w @ post \<and> word B w \<and> (post = [] \<or> hd post = 46)"
      by (auto simp: consumed_def)
  next
    assume "\<exists>w post. t = w @ post \<and> word B w \<and> (post = [] \<or> hd post = 46)"
    then obtain w post where w: "t = w @ post" "word B w" "post = [] \<or> hd post = 46" by blast
    from ms_complete [OF assms w(2), of "MS p t cs" post] w(1) obtain b where
      "b \<in> set (ms B (MS p t cs))" "consumed (MS p t cs) w b" by auto
    with w(1,3) e show "\<exists>b \<in> set (ms B (MS p t cs)). ms (RGroup 2 (RAlt (RLit [46]) REol)) b \<noteq> []"
      by (auto simp: consumed_def)
  qed
qed

lemma re_test_delimited:
  assumes "plain B"
  shows "re_test (RSeq (RGroup 1 (RAlt RBol (RLit [46]))) (RSeq B (RGroup 2 (RAlt (RLit [46]) REol)))) s
    \<longleftrightarrow> delimited (word B) s"
proof -
  let ?A = "RGroup 1 (RAlt RBol (RLit [46]))" and ?C = "RGroup 2 (RAlt (RLit [46]) REol)"
  let ?X = "\<lambda>t. \<exists>w post. t = w @ post \<and> word B w \<and> (post = [] \<or> hd post = 46)"
  have "ms (RSeq ?A (RSeq B ?C)) (MS p t []) \<noteq> [] \<longleftrightarrow> p = 0 \<and> ?X t \<or> (\<exists>r. t = 46 # r \<and> ?X r)" for p t
  proof -
    have "ms (RSeq ?A (RSeq B ?C)) (MS p t []) \<noteq> [] \<longleftrightarrow>
        (\<exists>a \<in> set (ms ?A (MS p t [])). \<exists>b \<in> set (ms B a). ms ?C b \<noteq> [])"
      by (simp del: ms.simps(4,6) RLit.simps)
    also have "set (ms ?A (MS p t [])) =
        (if p = 0 then {MS p t [(1, [])]} else {}) \<union>
        (case t of c # r \<Rightarrow> if c = 46 then {MS (Suc p) r [(1, [46])]} else {} | [] \<Rightarrow> {})"
      by (cases t) (auto simp: capture_def advance_def in_class_def)
    also have "(\<exists>a \<in> (if p = 0 then {MS p t [(1, [])]} else {}) \<union>
          (case t of c # r \<Rightarrow> if c = 46 then {MS (Suc p) r [(1, [46])]} else {} | [] \<Rightarrow> {}).
          \<exists>b \<in> set (ms B a). ms ?C b \<noteq> []) \<longleftrightarrow> p = 0 \<and> ?X t \<or> (\<exists>r. t = 46 # r \<and> ?X r)"
      unfolding bex_Un by (cases t) (simp_all del: ms.simps RLit.simps add: ms_body_end [OF assms])
    finally show ?thesis .
  qed
  then have "re_test (RSeq ?A (RSeq B ?C)) s \<longleftrightarrow>
      (\<exists>u t. s = u @ t \<and> (u = [] \<and> ?X t \<or> (\<exists>r. t = 46 # r \<and> ?X r)))"
    unfolding re_test_def re_exec_def re_exec_from_iff by (simp del: ms.simps RLit.simps)
  also have "\<dots> \<longleftrightarrow> (\<exists>pre t. s = pre @ t \<and> (pre = [] \<or> last pre = 46) \<and> ?X t)" (is "?L \<longleftrightarrow> ?R")
  proof
    assume ?L
    then obtain u t where u: "s = u @ t" "u = [] \<and> ?X t \<or> (\<exists>r. t = 46 # r \<and> ?X r)" by blast
    from u(2) show ?R
    proof
      assume "\<exists>r. t = 46 # r \<and> ?X r"
      then obtain r where r: "t = 46 # r" "?X r" by blast
      with u(1) have "s = (u @ [46]) @ r \<and> (u @ [46] = [] \<or> last (u @ [46]) = 46) \<and> ?X r" by simp
      then show ?thesis by blast
    qed (use u(1) in blast)
  next
    assume ?R
    then obtain pre t where t: "s = pre @ t" "pre = [] \<or> last pre = 46" "?X t" by blast
    show ?L
    proof (cases pre rule: rev_cases)
      case (snoc u c)
      with t show ?thesis by (intro exI [of _ u] exI [of _ "46 # t"]) auto
    qed (use t in auto)
  qed
  also have "\<dots> \<longleftrightarrow> delimited (word B) s" by (auto simp: delimited_def)
  finally show ?thesis .
qed

lemma plain_ns_body: "plain (ns_body ns)"
  by (induction ns rule: ns_body.induct) (simp_all add: ns_gap_def)

lemma word_RDots: "word (RStar True RDot) w \<longleftrightarrow> (\<forall>c \<in> set w. \<not> line_end c)"
  unfolding word_star_set by (rule ball_cong) (auto simp: in_class_def line_end_def)

lemma word_gap: "word ns_gap g \<longleftrightarrow> g = [46] \<or> (\<exists>x. g = 46 # x @ [46] \<and> (\<forall>c \<in> set x. \<not> line_end c))"
proof -
  have dot: "word (RLit [46]) u \<longleftrightarrow> u = [46]" for u by (rule word_RLit)
  show ?thesis unfolding ns_gap_def word_simps word_RDots dot by auto
qed

lemma split_char_sep_append: "split_char c (u @ c # v) = split_char c u @ split_char c v"
proof (induction u)
  case (Cons x u)
  then show ?case by (cases "split_char c u") auto
qed simp

text \<open>The names occur in the string, in their order, as pieces between dots.\<close>

lemma word_body_subseq:
  assumes "word (ns_body ns) w" "\<And>n. n \<in> set ns \<Longrightarrow> 46 \<notin> set n" "ns \<noteq> []"
  shows "subseq ns (split_char 46 w)"
  using assms
proof (induction ns arbitrary: w rule: ns_body.induct)
  case (2 n)
  then show ?case by (simp add: split_char_no_occurrence)
next
  case (3 n m ns)
  from 3(2) obtain g v where w: "w = n @ g @ v" "word ns_gap g" "word (ns_body (m # ns)) v"
    by (auto simp: word_simps)
  from 3(1) [OF w(3)] 3(3) have s: "subseq (m # ns) (split_char 46 v)" by simp
  from w(2) consider "g = [46]" | x where "g = 46 # x @ [46]" by (auto simp: word_gap)
  then show ?case
  proof cases
    case 1
    with w(1) 3(3) s show ?thesis by (simp add: split_char_append_sep)
  next
    case 2
    moreover have "46 \<notin> set n" using 3(3) by simp
    ultimately have "split_char 46 w = n # split_char 46 x @ split_char 46 v"
      using w(1) by (simp add: split_char_append_sep) (rule split_char_sep_append)
    with s show ?thesis by (simp add: subseq_drop_many)
  qed
qed simp

lemma delimited_subseq:
  assumes "delimited (word (ns_body ns)) s" "\<And>n. n \<in> set ns \<Longrightarrow> 46 \<notin> set n" "ns \<noteq> []"
  shows "subseq ns (split_char 46 s)"
proof -
  from assms(1) obtain pre w post where s: "s = pre @ w @ post" "pre = [] \<or> last pre = 46"
    "word (ns_body ns) w" "post = [] \<or> hd post = 46"
    by (auto simp: delimited_def)
  have "subseq ns (split_char 46 (w @ post))"
  proof (cases post)
    case (Cons c post')
    with s(4) word_body_subseq [OF s(3) assms(2,3)] show ?thesis
      by (simp add: split_char_sep_append subseq_rev_drop_many)
  qed (use word_body_subseq [OF s(3) assms(2,3)] in simp)
  then show ?thesis
  proof (cases pre rule: rev_cases)
    case (snoc u c)
    with s(1,2) have "split_char 46 s = split_char 46 u @ split_char 46 (w @ post)"
      by (simp add: split_char_sep_append)
    then show ?thesis using \<open>subseq ns (split_char 46 (w @ post))\<close> by (simp add: subseq_drop_many)
  qed (use s(1) in simp)
qed

lemma join_chars: "c \<in> set (join [d] ks) \<Longrightarrow> c = d \<or> (\<exists>k \<in> set ks. c \<in> set k)"
  by (induction "[d]" ks rule: join.induct) auto

lemma subseq_delimited:
  assumes "subseq ns ks" "ns \<noteq> []" "\<And>m c. m \<in> set ks \<Longrightarrow> c \<in> set m \<Longrightarrow> \<not> line_end c"
  shows "\<exists>pre w post. join [46] ks = pre @ w @ post \<and> (pre = [] \<or> last pre = 46) \<and>
    word (ns_body ns) w \<and> (post = [] \<or> hd post = 46)"
  using assms
proof (induction ks arbitrary: ns rule: list.induct)
  case outer: (Cons m ks)
  obtain n ns' where ns: "ns = n # ns'" using outer.prems(2) by (cases ns) auto
  have nl: "\<not> line_end c" if "k \<in> set ks" "c \<in> set k" for k c using outer.prems(3) [of k c] that by simp
  show ?case
  proof (cases "n = m \<and> subseq ns' ks")
    case False
    with outer.prems(1) ns have sub: "subseq ns ks" by (auto dest: subseq_Cons2')
    have "\<exists>pre w post. join [46] ks = pre @ w @ post \<and> (pre = [] \<or> last pre = 46) \<and>
        word (ns_body ns) w \<and> (post = [] \<or> hd post = 46)"
      by (rule outer.IH [OF sub outer.prems(2)]) (rule nl)
    then obtain pre w post where p: "join [46] ks = pre @ w @ post"
      "pre = [] \<or> last pre = 46" "word (ns_body ns) w" "post = [] \<or> hd post = 46"
      by blast
    from sub ns have "ks \<noteq> []" by auto
    then have "join [46] (m # ks) = (m @ 46 # pre) @ w @ post" using p(1) by (simp add: join_Cons)
    moreover have "last (m @ 46 # pre) = 46" using p(2) by auto
    ultimately show ?thesis using p(3,4) by blast
  next
    case True
    show ?thesis
    proof (cases ns')
      case Nil
      have "join [46] (m # ks) = [] @ m @ (if ks = [] then [] else 46 # join [46] ks)"
        by (simp add: join_Cons)
      moreover have "word (ns_body ns) m" using True ns Nil by simp
      moreover have "(if ks = [] then [] else 46 # join [46] ks) = [] \<or>
          hd (if ks = [] then [] else 46 # join [46] ks) = 46" by simp
      ultimately show ?thesis by blast
    next
      case (Cons n2 ns2)
      have "\<exists>pre w post. join [46] ks = pre @ w @ post \<and> (pre = [] \<or> last pre = 46) \<and>
          word (ns_body ns') w \<and> (post = [] \<or> hd post = 46)"
        by (rule outer.IH) (use True Cons nl in auto)
      then obtain pre w post where p: "join [46] ks = pre @ w @ post"
        "pre = [] \<or> last pre = 46" "word (ns_body ns') w" "post = [] \<or> hd post = 46"
        by blast
      have "\<not> line_end c" if "c \<in> set (join [46] ks)" for c
        using that nl join_chars [of c 46 ks] by (auto simp: line_end_def)
      with p(1) have pre: "\<forall>c \<in> set pre. \<not> line_end c" by auto
      have "word ns_gap (46 # pre)"
      proof (cases pre rule: rev_cases)
        case (snoc x c)
        with p(2) pre show ?thesis by (simp add: word_gap)
      qed (simp add: word_gap)
      then have "word (RSeq (RLit m) (RSeq ns_gap (ns_body ns'))) (m @ (46 # pre) @ w)"
        by (intro w_seq p(3)) simp_all
      with True ns Cons have "word (ns_body ns) (m @ (46 # pre) @ w)" by simp
      moreover have "ks \<noteq> []" using True Cons by auto
      then have "join [46] (m # ks) = [] @ (m @ (46 # pre) @ w) @ post" using p(1) by (simp add: join_Cons)
      ultimately show ?thesis using p(4) by blast
    qed
  qed
qed simp

lemma str_cmp_le: "str_cmp x y \<le> 0 \<longleftrightarrow> \<not> str_lt y x"
  using str_lt_asym [of x y] by (auto simp: str_cmp_def)

interpretation by_name: comparator str_cmp "\<lambda>_. True"
proof
  fix x y z
  show "0 \<le> str_cmp x y \<longleftrightarrow> str_cmp y x \<le> 0"
    using str_lt_asym [of x y] by (auto simp: str_cmp_def)
  show "str_cmp x y \<le> 0 \<Longrightarrow> str_cmp y z \<le> 0 \<Longrightarrow> str_cmp x z \<le> 0"
    unfolding str_cmp_le by (metis str_lt_trans str_lt_total)
qed

lemma sorted_submultiset:
  assumes anti: "\<And>x y. le x y \<Longrightarrow> le y x \<Longrightarrow> x = y"
  shows "sorted_wrt le xs \<Longrightarrow> sorted_wrt le ys \<Longrightarrow> mset xs \<subseteq># mset ys \<Longrightarrow> subseq xs ys"
proof (induction ys arbitrary: xs)
  case (Cons y ys)
  show ?case
  proof (cases xs)
    case xs: (Cons x xs')
    show ?thesis
    proof (cases "x = y")
      case True
      with Cons xs show ?thesis by simp
    next
      case False
      have "x \<in> set (y # ys)" using mset_subset_eqD [OF Cons.prems(3)] xs by auto
      with False Cons.prems(2) have "le y x" by auto
      with False anti Cons.prems(1) xs have "y \<notin># mset xs" by auto
      then have "mset xs \<subseteq># mset ys" using Cons.prems(3)
        by (metis diff_single_trivial mset.simps(2) subset_eq_diff_conv add_mset_add_single)
      then have "subseq xs ys" using Cons.IH [OF Cons.prems(1)] Cons.prems(2) by simp
      then show ?thesis by (rule list_emb_Cons)
    qed
  qed simp
qed simp

lemma subseq_mset: "subseq xs ys \<Longrightarrow> mset xs \<subseteq># mset ys"
proof (induction rule: list_emb.induct)
  case (list_emb_Cons xs ys y)
  then show ?case by (metis mset.simps(2) mset_subset_eq_add_right add_mset_add_single subset_mset.order_trans union_commute)
qed simp_all

lemma namespaces_of_props:
  "mset (namespaces_of (Some s)) = mset (split_char 46 s)" "namespaces_of (Some s) \<noteq> []"
  "sorted_wrt (\<lambda>x y. str_cmp x y \<le> 0) (namespaces_of (Some s))"
  "n \<in> set (namespaces_of (Some s)) \<Longrightarrow> 46 \<notin> set n"
  "n \<in> set (namespaces_of (Some s)) \<Longrightarrow> set n \<subseteq> set s"
proof -
  show m: "mset (namespaces_of (Some s)) = mset (split_char 46 s)"
    by (simp add: namespaces_of_def by_name.mset_js_sort)
  then show "namespaces_of (Some s) \<noteq> []" by (metis mset_zero_iff split_char_not_Nil)
  show "sorted_wrt (\<lambda>x y. str_cmp x y \<le> 0) (namespaces_of (Some s))"
    unfolding namespaces_of_def by (rule by_name.sorted_js_sort) (simp add: list_all_iff)
  from m have set: "set (namespaces_of (Some s)) = set (split_char 46 s)" by (rule mset_eq_setD)
  show "n \<in> set (namespaces_of (Some s)) \<Longrightarrow> 46 \<notin> set n"
    unfolding set by (rule split_char_no_sep)
  have "n \<in> set (split_char 46 s) \<Longrightarrow> set n \<subseteq> set s"
  proof (induction s arbitrary: n)
    case (Cons c s)
    then show ?case by (cases "split_char 46 s") (auto split: if_splits, blast+)
  qed simp
  then show "n \<in> set (namespaces_of (Some s)) \<Longrightarrow> set n \<subseteq> set s" unfolding set .
qed

lemma ns_test_superset:
  assumes "\<And>c. c \<in> set t \<Longrightarrow> \<not> line_end c"
  shows "re_test (ns_rx (namespaces_of (Some s))) (join [46] (namespaces_of (Some t))) \<longleftrightarrow>
    mset (split_char 46 s) \<subseteq># mset (split_char 46 t)"
proof -
  let ?ns = "namespaces_of (Some s)" and ?ks = "namespaces_of (Some t)"
  note ns = namespaces_of_props [where s = s] and ks = namespaces_of_props [where s = t]
  have "re_test (ns_rx ?ns) (join [46] ?ks) \<longleftrightarrow> delimited (word (ns_body ?ns)) (join [46] ?ks)"
    unfolding ns_rx_def by (rule re_test_delimited [OF plain_ns_body])
  also have "\<dots> \<longleftrightarrow> subseq ?ns ?ks"
  proof
    assume "delimited (word (ns_body ?ns)) (join [46] ?ks)"
    then have "subseq ?ns (split_char 46 (join [46] ?ks))" by (rule delimited_subseq) (use ns in auto)
    then show "subseq ?ns ?ks" using split_char_join [of ?ks 46] ks by simp
  next
    assume "subseq ?ns ?ks"
    then show "delimited (word (ns_body ?ns)) (join [46] ?ks)"
      unfolding delimited_def by (rule subseq_delimited [OF _ ns(2)]) (use ks(5) assms in blast)
  qed
  also have "\<dots> \<longleftrightarrow> mset ?ns \<subseteq># mset ?ks"
  proof
    assume "mset ?ns \<subseteq># mset ?ks"
    moreover have "str_cmp x y \<le> 0 \<Longrightarrow> str_cmp y x \<le> 0 \<Longrightarrow> x = y" for x y
      unfolding str_cmp_le using str_lt_total by blast
    ultimately show "subseq ?ns ?ks" using ns(3) ks(3) sorted_submultiset [of "\<lambda>x y. str_cmp x y \<le> 0"] by blast
  qed (rule subseq_mset)
  finally show ?thesis by (simp add: ns(1) ks(1))
qed

section \<open>Properties\<close>



end
