(* ===== verification/JQ_Event.thy ===== *)
theory JQ_Event
  imports JQ_Namespace
begin

text \<open>
  \<open>jquery-3.5.1.js\<close>: \<open>jQuery.event\<close>. The handlers of an element are kept in its private data (theory
  \<open>JQ_Data\<close>) under \<open>events\<close>: an object that maps an event type to the array of its handlers, those
  with a selector (delegated) in front, counted by \<open>delegateCount\<close>. The model has \<open>add\<close> and \<open>remove\<close>;
  the dispatch of events is in theory \<open>JQ_Dispatch\<close>.

  A handler is a value of type \<open>'h\<close>; its \<open>guid\<close> is kept in a table, with the counter
  \<open>jQuery.guid\<close>. The special events are a parameter \<open>sp\<close>: the types they map to, and whether the
  browser's listener is attached and detached (\<open>setup\<close> and \<open>teardown\<close> missing or returning
  \<open>false\<close>); the hooks \<open>add\<close> and \<open>remove\<close>, which no special event of the library has, are left out.
  A missing selector is the empty
  string: the code only asks whether it is truthy.
\<close>

section \<open>State\<close>

record ('h, 'd) handleObj =
  ho_type :: jstr
  ho_origType :: jstr
  ho_data :: 'd
  ho_handler :: 'h
  ho_guid :: nat
  ho_selector :: jstr
  ho_needsContext :: bool
  ho_namespace :: "jstr option"   \<comment> \<open>\<open>None\<close> is \<open>false\<close>\<close>

record ('h, 'd) evlist =
  ev_handlers :: "('h, 'd) handleObj list"
  delegateCount :: int

type_synonym ('h, 'd) evtable = "(jstr \<times> ('h, 'd) evlist) list"

datatype ('h, 'd) epval = PEvents "('h, 'd) evtable" | PHandle | POther

text \<open>The private data of an element, the types the browser reports to it, the table of \<open>guid\<close>s, the
  counter and \<open>jQuery.event.global\<close>.\<close>

record ('h, 'd) evstate =
  ev_priv :: "('h, 'd) epval cache option"
  ev_listening :: "jstr list"
  ev_guids :: "('h \<times> nat) list"
  ev_next :: nat
  ev_global :: "(jstr \<times> bool) list"

record special =
  sp_delegateType :: "jstr option"
  sp_bindType :: "jstr option"
  sp_listen :: bool
  sp_unlisten :: bool

text \<open>The handler, or an object with a handler, a selector and more fields that replace the default ones.\<close>

datatype ('h, 'd) handler_arg =
    Handler 'h
  | HandleObjIn 'h jstr "('h, 'd) handleObj \<Rightarrow> ('h, 'd) handleObj"

fun arg_handler :: "('h, 'd) handler_arg \<Rightarrow> 'h" where
  "arg_handler (Handler h) = h"
| "arg_handler (HandleObjIn h _ _) = h"

fun arg_selector :: "('h, 'd) handler_arg \<Rightarrow> jstr \<Rightarrow> jstr" where
  "arg_selector (Handler _) selector = selector"
| "arg_selector (HandleObjIn _ s _) selector = s"

fun arg_extend :: "('h, 'd) handler_arg \<Rightarrow> ('h, 'd) handleObj \<Rightarrow> ('h, 'd) handleObj" where
  "arg_extend (Handler _) ho = ho"
| "arg_extend (HandleObjIn h s f) ho = (f ho)\<lparr>ho_handler := h, ho_selector := s\<rparr>"

definition event_words :: "jstr \<Rightarrow> jstr list" where
  "event_words types = (case nothtmlwhite types of [] \<Rightarrow> [[]] | ws \<Rightarrow> ws)"

definition mapped_type :: "special \<Rightarrow> jstr \<Rightarrow> jstr \<Rightarrow> jstr" where
  "mapped_type special selector type =
     (case (if selector \<noteq> [] then sp_delegateType special else sp_bindType special) of
        Some t \<Rightarrow> if t = [] then type else t
      | None \<Rightarrow> type)"

definition events_of :: "('h, 'd) epval cache \<Rightarrow> ('h, 'd) evtable option" where
  "events_of c = (case obj_get c (lit ''events'') of Some (PEvents t) \<Rightarrow> Some t | _ \<Rightarrow> None)"

section \<open>add\<close>

definition make_handleObj ::
  "(jstr \<Rightarrow> bool) \<Rightarrow> ('h, 'd) handler_arg \<Rightarrow> jstr \<Rightarrow> 'd \<Rightarrow> nat \<Rightarrow> jstr \<Rightarrow> jstr \<Rightarrow> jstr list \<Rightarrow> ('h, 'd) handleObj"
where
  "make_handleObj needs h selector data guid type origType namespaces =
     arg_extend h
       \<lparr>ho_type = type, ho_origType = origType, ho_data = data, ho_handler = arg_handler h, ho_guid = guid,
        ho_selector = selector, ho_needsContext = (selector \<noteq> [] \<and> needs selector),
        ho_namespace = Some (join [46] namespaces)\<rparr>"

definition insert_handler :: "jstr \<Rightarrow> ('h, 'd) handleObj \<Rightarrow> ('h, 'd) evlist \<Rightarrow> ('h, 'd) evlist" where
  "insert_handler selector ho l =
     (if selector \<noteq> [] then
        let k = nat (delegateCount l) in
        \<lparr>ev_handlers = take k (ev_handlers l) @ ho # drop k (ev_handlers l),
         delegateCount = delegateCount l + 1\<rparr>
      else l\<lparr>ev_handlers := ev_handlers l @ [ho]\<rparr>)"

text \<open>One pass of the loop over the types: the table, the listeners and \<open>global\<close>.\<close>

definition add_word ::
  "(jstr \<Rightarrow> special) \<Rightarrow> (jstr \<Rightarrow> bool) \<Rightarrow> ('h, 'd) handler_arg \<Rightarrow> jstr \<Rightarrow> 'd \<Rightarrow> nat \<Rightarrow> jstr \<Rightarrow>
   ('h, 'd) evtable \<times> jstr list \<times> (jstr \<times> bool) list \<Rightarrow> ('h, 'd) evtable \<times> jstr list \<times> (jstr \<times> bool) list"
where
  "add_word sp needs h selector data guid wd = (\<lambda>(events, listening, glob).
     case rtypenamespace wd of
       (origType, ns) \<Rightarrow>
         if origType = [] then (events, listening, glob)
         else
           let namespaces = namespaces_of ns;
               type = mapped_type (sp origType) selector origType;
               handleObj = make_handleObj needs h selector data guid type origType namespaces;
               (l, listening') =
                 (case obj_get events type of
                    Some l \<Rightarrow> (l, listening)
                  | None \<Rightarrow>
                      (\<lparr>ev_handlers = [], delegateCount = 0\<rparr>,
                       if sp_listen (sp type) then listening @ [type] else listening))
           in (obj_put type (insert_handler selector handleObj l) events, listening',
               obj_put type True glob))"

definition handler_guid :: "'h \<Rightarrow> ('h, 'd) evstate \<Rightarrow> nat \<times> ('h, 'd) evstate" where
  "handler_guid h s =
     (case map_of (ev_guids s) h of
        Some g \<Rightarrow> (g, s)
      | None \<Rightarrow> (ev_next s, s\<lparr>ev_guids := (h, ev_next s) # ev_guids s, ev_next := Suc (ev_next s)\<rparr>))"

text \<open>\<open>check\<close> is the exception that an invalid selector raises, if any. The words are taken from the last.\<close>

definition event_add ::
  "(jstr \<Rightarrow> special) \<Rightarrow> (jstr \<Rightarrow> bool) \<Rightarrow> (jstr \<Rightarrow> js_error option) \<Rightarrow> int option \<Rightarrow> jstr \<Rightarrow> ('h, 'd) handler_arg \<Rightarrow>
   'd \<Rightarrow> jstr \<Rightarrow> ('h, 'd) evstate \<Rightarrow> (js_error option) \<times> ('h, 'd) evstate"
where
  "event_add sp needs check nt types h data selector0 s =
     (case data_cache nt (ev_priv s) of
        (c, st) \<Rightarrow>
          if \<not> acceptData nt then (None, s)
          else
            let s0 = s\<lparr>ev_priv := st\<rparr>; selector = arg_selector h selector0 in
            case (if selector \<noteq> [] then check selector else None) of
              Some e \<Rightarrow> (Some e, s0)
            | None \<Rightarrow>
                (case handler_guid (arg_handler h) s0 of
                   (guid, s1) \<Rightarrow>
                     let events = (case events_of c of Some t \<Rightarrow> t | None \<Rightarrow> []);
                         c1 = (if events_of c = None then obj_put (lit ''events'') (PEvents []) c else c);
                         c2 = (if obj_get c1 (lit ''handle'') = None then obj_put (lit ''handle'') PHandle c1 else c1);
                         (events', listening, glob) =
                           foldr (add_word sp needs h selector data guid) (event_words types)
                             (events, ev_listening s1, ev_global s1)
                     in (None, s1\<lparr>ev_priv := Some (obj_put (lit ''events'') (PEvents events') c2),
                                  ev_listening := listening, ev_global := glob\<rparr>)))"

section \<open>remove\<close>

text \<open>\<open>guid\<close> is \<open>None\<close> when no handler is given, and \<open>Some None\<close> for a handler that has no \<open>guid\<close>.\<close>

definition removes ::
  "bool \<Rightarrow> jstr \<Rightarrow> nat option option \<Rightarrow> rx option \<Rightarrow> jstr \<Rightarrow> ('h, 'd) handleObj \<Rightarrow> bool"
where
  "removes mappedTypes origType guid tmp selector ho =
     ((mappedTypes \<or> origType = ho_origType ho) \<and>
      (case guid of None \<Rightarrow> True | Some g \<Rightarrow> g = Some (ho_guid ho)) \<and>
      (case tmp of None \<Rightarrow> True
       | Some r \<Rightarrow> re_test r (case ho_namespace ho of Some n \<Rightarrow> n | None \<Rightarrow> lit ''false'')) \<and>
      (selector = [] \<or> selector = ho_selector ho \<or> selector = lit ''**'' \<and> ho_selector ho \<noteq> []))"

fun ev_remove_loop :: "(('h, 'd) handleObj \<Rightarrow> bool) \<Rightarrow> nat \<Rightarrow> ('h, 'd) evlist \<Rightarrow> ('h, 'd) evlist" where
  "ev_remove_loop P 0 l = l"
| "ev_remove_loop P (Suc j) l =
     (let ho = ev_handlers l ! j in
      ev_remove_loop P j
        (if P ho then
           \<lparr>ev_handlers = take j (ev_handlers l) @ drop (Suc j) (ev_handlers l),
            delegateCount = (if ho_selector ho \<noteq> [] then delegateCount l - 1 else delegateCount l)\<rparr>
         else l))"

definition remove_type ::
  "(jstr \<Rightarrow> special) \<Rightarrow> nat option option \<Rightarrow> jstr \<Rightarrow> bool \<Rightarrow> jstr \<Rightarrow> jstr option \<Rightarrow>
   ('h, 'd) evtable \<times> jstr list \<Rightarrow> ('h, 'd) evtable \<times> jstr list"
where
  "remove_type sp guid selector mappedTypes origType ns = (\<lambda>(events, listening).
     let special = sp origType;
         type = mapped_type special selector origType;
         tmp = (case ns of None \<Rightarrow> None | Some _ \<Rightarrow> Some (ns_rx (namespaces_of ns)))
     in case obj_get events type of
          None \<Rightarrow> (events, listening)
        | Some l \<Rightarrow>
            let l' = ev_remove_loop (removes mappedTypes origType guid tmp selector) (length (ev_handlers l)) l in
            if ev_handlers l \<noteq> [] \<and> ev_handlers l' = [] then
              (obj_delete type events,
               if sp_unlisten special then filter (\<lambda>t. t \<noteq> type) listening else listening)
            else (obj_put type l' events, listening))"

text \<open>
  A word without a type: \<open>remove\<close> is called for each type of the table with the rest of the word.
  The types of the table are not empty and do not start with a dot, so these calls have a type.
  A call that empties the table detaches it from the element at once, as the caller does at its end.
\<close>

definition remove_word ::
  "(jstr \<Rightarrow> special) \<Rightarrow> nat option option \<Rightarrow> jstr \<Rightarrow> bool \<Rightarrow> jstr \<Rightarrow>
   ('h, 'd) evtable \<times> jstr list \<Rightarrow> ('h, 'd) evtable \<times> jstr list"
where
  "remove_word sp guid selector mappedTypes wd t =
     (case rtypenamespace wd of
        (origType, ns) \<Rightarrow>
          if origType \<noteq> [] then remove_type sp guid selector mappedTypes origType ns t
          else
            foldl (\<lambda>u type.
                if obj_get (fst u) type = None then u
                else foldr (\<lambda>w. case rtypenamespace w of (ty, ns') \<Rightarrow> remove_type sp guid selector True ty ns')
                  (event_words (type @ wd)) u)
              t (map fst (fst t)))"

definition event_remove ::
  "(jstr \<Rightarrow> special) \<Rightarrow> jstr \<Rightarrow> 'h option \<Rightarrow> jstr \<Rightarrow> bool \<Rightarrow> ('h, 'd) evstate \<Rightarrow> ('h, 'd) evstate"
where
  "event_remove sp types handler selector mappedTypes s =
     (case ev_priv s of
        None \<Rightarrow> s
      | Some c \<Rightarrow>
          (case events_of c of
             None \<Rightarrow> s
           | Some events \<Rightarrow>
               let guid = (case handler of None \<Rightarrow> None | Some h \<Rightarrow> Some (map_of (ev_guids s) h));
                   (events', listening) =
                     foldr (remove_word sp guid selector mappedTypes) (event_words types) (events, ev_listening s);
                   c' = obj_put (lit ''events'') (PEvents events') c
               in s\<lparr>ev_priv :=
                      (if events' = [] then data_remove (RStr (lit ''handle events'')) (Some c') else Some c'),
                    ev_listening := listening\<rparr>))"

section \<open>Lookup\<close>

definition handlers_for :: "('h, 'd) epval cache option \<Rightarrow> jstr \<Rightarrow> ('h, 'd) evlist" where
  "handlers_for priv type =
     (case data_get priv (lit ''events'') of
        Own (PEvents t) \<Rightarrow>
          (case obj_get t type of Some l \<Rightarrow> l | None \<Rightarrow> \<lparr>ev_handlers = [], delegateCount = 0\<rparr>)
      | _ \<Rightarrow> \<lparr>ev_handlers = [], delegateCount = 0\<rparr>)"

section \<open>Lists of handlers\<close>

abbreviation delegated :: "('h, 'd) handleObj list \<Rightarrow> ('h, 'd) handleObj list" where
  "delegated hs \<equiv> filter (\<lambda>h. ho_selector h \<noteq> []) hs"

abbreviation direct :: "('h, 'd) handleObj list \<Rightarrow> ('h, 'd) handleObj list" where
  "direct hs \<equiv> filter (\<lambda>h. ho_selector h = []) hs"

text \<open>The delegated handlers come first, and \<open>delegateCount\<close> is their number.\<close>

definition list_ok :: "('h, 'd) evlist \<Rightarrow> bool" where
  "list_ok l =
     (ev_handlers l = delegated (ev_handlers l) @ direct (ev_handlers l) \<and>
      delegateCount l = int (length (delegated (ev_handlers l))))"

lemma list_okD:
  assumes "list_ok l"
  shows "take (nat (delegateCount l)) (ev_handlers l) = delegated (ev_handlers l)"
    and "drop (nat (delegateCount l)) (ev_handlers l) = direct (ev_handlers l)"
proof -
  from assms have l: "ev_handlers l = delegated (ev_handlers l) @ direct (ev_handlers l)"
    and k: "nat (delegateCount l) = length (delegated (ev_handlers l))"
    by (simp_all add: list_ok_def)
  show "take (nat (delegateCount l)) (ev_handlers l) = delegated (ev_handlers l)"
    unfolding k by (subst (2) l) simp
  show "drop (nat (delegateCount l)) (ev_handlers l) = direct (ev_handlers l)"
    unfolding k by (subst (2) l) simp
qed

lemma insert_handler_lists:
  assumes "list_ok l" "ho_selector ho = selector"
  shows "delegated (ev_handlers (insert_handler selector ho l)) =
      delegated (ev_handlers l) @ (if selector = [] then [] else [ho])"
    and "direct (ev_handlers (insert_handler selector ho l)) =
      direct (ev_handlers l) @ (if selector = [] then [ho] else [])"
    and "list_ok (insert_handler selector ho l)"
  using assms list_okD [OF assms(1)]
  by (auto simp: insert_handler_def Let_def list_ok_def)

lemma ev_remove_loop_eq:
  "j \<le> length (ev_handlers l) \<Longrightarrow>
   ev_remove_loop P j l =
     l\<lparr>ev_handlers := filter (\<lambda>h. \<not> P h) (take j (ev_handlers l)) @ drop j (ev_handlers l),
       delegateCount := delegateCount l - int (length (filter P (delegated (take j (ev_handlers l)))))\<rparr>"
proof (induction P j l rule: ev_remove_loop.induct)
  case (2 P j l)
  then show ?case
    by (cases "P (ev_handlers l ! j)") (simp_all add: Let_def take_Suc_conv_app_nth Cons_nth_drop_Suc min_def)
qed simp

lemma remove_all_lists:
  fixes P
  assumes "list_ok l"
  defines l': "l' \<equiv> ev_remove_loop P (length (ev_handlers l)) l"
  shows "ev_handlers l' = filter (\<lambda>h. \<not> P h) (ev_handlers l)" and "list_ok l'"
proof -
  show h: "ev_handlers l' = filter (\<lambda>h. \<not> P h) (ev_handlers l)"
    by (simp add: l' ev_remove_loop_eq)
  let ?hs = "ev_handlers l"
  have comm: "delegated (filter (\<lambda>h. \<not> P h) ?hs) = filter (\<lambda>h. \<not> P h) (delegated ?hs)"
    "direct (filter (\<lambda>h. \<not> P h) ?hs) = filter (\<lambda>h. \<not> P h) (direct ?hs)"
    by (simp_all add: conj_commute)
  have "length (filter P (delegated ?hs)) + length (filter (\<lambda>h. \<not> P h) (delegated ?hs)) = length (delegated ?hs)"
    by (rule sum_length_filter_compl)
  then have n: "delegateCount l' = int (length (filter (\<lambda>h. \<not> P h) (delegated ?hs)))"
    using assms(1) by (simp add: l' ev_remove_loop_eq list_ok_def)
  from assms(1) have "?hs = delegated ?hs @ direct ?hs" by (simp add: list_ok_def)
  then have f: "filter (\<lambda>h. \<not> P h) ?hs = filter (\<lambda>h. \<not> P h) (delegated ?hs) @ filter (\<lambda>h. \<not> P h) (direct ?hs)"
    by (metis filter_append)
  show "list_ok l'" unfolding list_ok_def h comm by (rule conjI [OF f n])
qed

section \<open>Tables of handlers\<close>

definition plain_type :: "jstr \<Rightarrow> bool" where
  "plain_type t = (t \<noteq> [] \<and> 46 \<notin> set t \<and> \<not> list_ex html_white t)"

definition table_ok :: "('h, 'd) evtable \<Rightarrow> bool" where
  "table_ok tab =
     (obj_ok tab \<and> (\<forall>k l. obj_get tab k = Some l \<longrightarrow> plain_type k \<and> list_ok l \<and> ev_handlers l \<noteq> []))"

text \<open>What a table stands for: for each type its delegated and its direct handlers, in order.\<close>

type_synonym ('h, 'd) bindings = "jstr \<Rightarrow> ('h, 'd) handleObj list \<times> ('h, 'd) handleObj list"

definition bound :: "('h, 'd) evtable \<Rightarrow> ('h, 'd) bindings" where
  "bound tab k =
     (case obj_get tab k of
        None \<Rightarrow> ([], [])
      | Some l \<Rightarrow> (delegated (ev_handlers l), direct (ev_handlers l)))"

definition bind_spec :: "jstr \<Rightarrow> ('h, 'd) handleObj \<Rightarrow> ('h, 'd) bindings \<Rightarrow> ('h, 'd) bindings" where
  "bind_spec type ho b =
     b(type := if ho_selector ho = [] then (fst (b type), snd (b type) @ [ho])
               else (fst (b type) @ [ho], snd (b type)))"

definition unbind_spec :: "(jstr \<Rightarrow> bool) \<Rightarrow> (('h, 'd) handleObj \<Rightarrow> bool) \<Rightarrow> ('h, 'd) bindings \<Rightarrow> ('h, 'd) bindings" where
  "unbind_spec T P b =
     (\<lambda>k. if T k then (filter (\<lambda>h. \<not> P h) (fst (b k)), filter (\<lambda>h. \<not> P h) (snd (b k))) else b k)"

lemma keys_get: "k \<in> fst ` set tab \<longleftrightarrow> obj_get tab k \<noteq> None"
  by (simp add: obj_get_def map_of_eq_None_iff)

lemma keys_put: "fst ` set (obj_put k v tab) = insert k (fst ` set tab)"
  by (rule set_eqI) (simp add: keys_get obj_get_put)

lemma keys_delete: "fst ` set (obj_delete k tab) = fst ` set tab - {k}"
  by (rule set_eqI) (simp add: keys_get obj_get_delete)

lemma table_put:
  assumes "table_ok tab" "plain_type type" "ho_selector ho = selector"
    and "l = (case obj_get tab type of Some l \<Rightarrow> l | None \<Rightarrow> \<lparr>ev_handlers = [], delegateCount = 0\<rparr>)"
  shows "table_ok (obj_put type (insert_handler selector ho l) tab)"
    and "bound (obj_put type (insert_handler selector ho l) tab) = bind_spec type ho (bound tab)"
proof -
  from assms(1,4) have "list_ok l"
    by (auto simp: table_ok_def list_ok_def split: option.splits)
  note l = insert_handler_lists [OF this assms(3)]
  have "ev_handlers (insert_handler selector ho l) \<noteq> []"
    by (simp add: insert_handler_def Let_def)
  with assms(1,2) l(3) show "table_ok (obj_put type (insert_handler selector ho l) tab)"
    by (auto simp: table_ok_def obj_ok_put obj_get_put)
  from l(1,2) assms(3,4) show "bound (obj_put type (insert_handler selector ho l) tab) = bind_spec type ho (bound tab)"
    by (auto simp: bound_def bind_spec_def fun_eq_iff obj_get_put split: option.splits)
qed

lemma table_remove:
  assumes "table_ok tab" "obj_get tab type = Some l" "l' = ev_remove_loop P (length (ev_handlers l)) l"
    and "tab' = (if ev_handlers l' = [] then obj_delete type tab else obj_put type l' tab)"
  shows "table_ok tab'" and "bound tab' = unbind_spec (\<lambda>k. k = type) P (bound tab)"
    and "fst ` set tab' = (if ev_handlers l' = [] then fst ` set tab - {type} else fst ` set tab)"
proof -
  from assms(1,2) have l: "list_ok l" "plain_type type" by (auto simp: table_ok_def)
  note r = remove_all_lists [OF l(1), of P, folded assms(3)]
  from assms(1,4) l r(2) show "table_ok tab'"
    by (auto simp: table_ok_def obj_ok_put obj_ok_delete obj_get_put obj_get_delete split: if_splits)
  have "delegated (ev_handlers l') = filter (\<lambda>h. \<not> P h) (delegated (ev_handlers l))"
    "direct (ev_handlers l') = filter (\<lambda>h. \<not> P h) (direct (ev_handlers l))"
    unfolding r(1) by (simp_all add: conj_commute)
  then show "bound tab' = unbind_spec (\<lambda>k. k = type) P (bound tab)"
    using assms(2,4) by (auto simp: bound_def unbind_spec_def fun_eq_iff obj_get_put obj_get_delete)
  show "fst ` set tab' = (if ev_handlers l' = [] then fst ` set tab - {type} else fst ` set tab)"
    using assms(2,4) keys_get [of type tab] by (auto simp: keys_put keys_delete)
qed

lemma unbind_none: "bound tab type = ([], []) \<Longrightarrow> unbind_spec (\<lambda>k. k = type) P (bound tab) = bound tab"
  by (auto simp: unbind_spec_def fun_eq_iff)

section \<open>Words\<close>

lemma event_words_white: "w \<in> set (event_words types) \<Longrightarrow> \<not> list_ex html_white w"
  using words_of_no_sep [of w html_white types]
  by (auto simp: event_words_def nothtmlwhite_def list_ex_iff split: list.splits)

lemma rtypenamespace_plain:
  assumes "rtypenamespace w = (ty, ns)" "\<not> list_ex html_white w" "ty \<noteq> []"
  shows "plain_type ty"
  using assms by (auto simp: rtypenamespace_def plain_type_def list_ex_iff Let_def dest: set_takeWhileD)

text \<open>A word without a type, put behind a type.\<close>

lemma rtypenamespace_behind:
  assumes "rtypenamespace w = ([], ns)" "plain_type ty"
  shows "rtypenamespace (ty @ w) = (ty, ns)"
proof (cases w)
  case Nil
  from assms(2) have t: "takeWhile (\<lambda>c. c \<noteq> 46) ty = ty" by (auto simp: plain_type_def)
  from assms(1) show ?thesis unfolding Nil append_Nil2 rtypenamespace_def Let_def t by simp
next
  case (Cons c cs)
  with assms(1) have c: "c = 46" by (auto simp: rtypenamespace_def Let_def split: if_splits)
  from assms(2) have t: "takeWhile (\<lambda>c. c \<noteq> 46) (ty @ 46 # cs) = ty"
    by (subst takeWhile_append2) (auto simp: plain_type_def)
  from assms(1) show ?thesis unfolding Cons c rtypenamespace_def Let_def t by (auto split: if_splits)
qed

lemma event_words_behind:
  assumes "plain_type ty" "\<not> list_ex html_white w"
  shows "event_words (ty @ w) = [ty @ w]"
proof -
  have "nothtmlwhite (ty @ w) = [ty @ w]"
    using assms by (intro html_word) (auto simp: plain_type_def list_ex_iff)
  then show ?thesis by (simp add: event_words_def)
qed

section \<open>Special events that rename their type\<close>

definition canon :: "(jstr \<Rightarrow> special) \<Rightarrow> jstr \<Rightarrow> jstr" where
  "canon sp t = (case sp_bindType (sp t) of Some u \<Rightarrow> u | None \<Rightarrow> t)"

text \<open>The table of an element with the types its listener is attached to.\<close>

definition linked :: "(jstr \<Rightarrow> special) \<Rightarrow> ('h, 'd) evtable \<Rightarrow> jstr list \<Rightarrow> bool" where
  "linked sp tab ls =
     (table_ok tab \<and> set ls = fst ` set tab \<and> list_all (\<lambda>k. canon sp k = k) (map fst tab))"

text \<open>The abstract operations: bind a handler under its type, remove the matching handlers.\<close>

definition add_spec ::
  "(jstr \<Rightarrow> special) \<Rightarrow> (jstr \<Rightarrow> bool) \<Rightarrow> ('h, 'd) handler_arg \<Rightarrow> jstr \<Rightarrow> 'd \<Rightarrow> nat \<Rightarrow> jstr \<Rightarrow> ('h, 'd) bindings \<Rightarrow> ('h, 'd) bindings"
where
  "add_spec sp needs h selector data guid w b =
     (case rtypenamespace w of
        (ty, ns) \<Rightarrow>
          if ty = [] then b
          else bind_spec (canon sp ty) (make_handleObj needs h selector data guid (canon sp ty) ty (namespaces_of ns)) b)"

definition ns_test :: "jstr option \<Rightarrow> rx option" where
  "ns_test ns = map_option (\<lambda>_. ns_rx (namespaces_of ns)) ns"

definition remove_spec ::
  "(jstr \<Rightarrow> special) \<Rightarrow> nat option option \<Rightarrow> jstr \<Rightarrow> bool \<Rightarrow> jstr \<Rightarrow> ('h, 'd) bindings \<Rightarrow> ('h, 'd) bindings"
where
  "remove_spec sp guid selector mapped w b =
     (case rtypenamespace w of
        (ty, ns) \<Rightarrow>
          if ty = [] then unbind_spec (\<lambda>_. True) (removes True [] guid (ns_test ns) selector) b
          else unbind_spec (\<lambda>k. k = canon sp ty) (removes mapped ty guid (ns_test ns) selector) b)"

text \<open>
  What the table of handlers relies on: a special event stands for another, plain type, the same
  for delegated and for direct handlers, and that type is not special; the browser's listener is
  used for every type.
\<close>

locale renaming =
  fixes sp :: "jstr \<Rightarrow> special"
  assumes same: "sp_delegateType (sp t) = sp_bindType (sp t)"
    and target: "sp_bindType (sp t) = Some u \<Longrightarrow> plain_type u \<and> sp_bindType (sp u) = None"
    and hooks: "sp_listen (sp t)" "sp_unlisten (sp t)"
begin

lemma mapped_canon: "mapped_type (sp t) selector t = canon sp t"
  using same [of t] target [of t] by (auto simp: mapped_type_def canon_def plain_type_def split: option.splits)

lemma canon_plain: "plain_type t \<Longrightarrow> plain_type (canon sp t)"
  using target [of t] by (auto simp: canon_def split: option.splits)

lemma canon_canon: "canon sp (canon sp t) = canon sp t"
  using target [of t] by (auto simp: canon_def split: option.splits)

lemma add_word_linked:
  assumes "linked sp tab ls" "\<not> list_ex html_white w" "arg_selector h selector = selector"
    and "add_word sp needs h selector data guid w (tab, ls, g) = (tab', ls', g')"
  shows "linked sp tab' ls' \<and> bound tab' = add_spec sp needs h selector data guid w (bound tab)"
proof (cases "rtypenamespace w")
  case (Pair ty ns)
  show ?thesis
  proof (cases "ty = []")
    case True
    with Pair assms show ?thesis by (simp add: add_word_def add_spec_def)
  next
    case False
    with rtypenamespace_plain [OF Pair assms(2)] have pl: "plain_type (canon sp ty)" by (simp add: canon_plain)
    let ?ho = "make_handleObj needs h selector data guid (canon sp ty) ty (namespaces_of ns)"
    have sel: "ho_selector ?ho = selector" using assms(3) by (cases h) (simp_all add: make_handleObj_def)
    define l where "l = (case obj_get tab (canon sp ty) of Some l \<Rightarrow> l | None \<Rightarrow> \<lparr>ev_handlers = [], delegateCount = 0\<rparr>)"
    from assms(4) Pair False hooks have t: "tab' = obj_put (canon sp ty) (insert_handler selector ?ho l) tab"
      "set ls' = insert (canon sp ty) (set ls) \<or> set ls' = set ls \<and> canon sp ty \<in> fst ` set tab"
      by (auto simp: add_word_def Let_def mapped_canon l_def keys_get split: option.splits)
    from assms(1) have tab: "table_ok tab" by (simp add: linked_def)
    from table_put [OF tab pl sel l_def] t(1)
    have "table_ok tab'" "bound tab' = bind_spec (canon sp ty) ?ho (bound tab)" by simp_all
    moreover have "fst ` set tab' = insert (canon sp ty) (fst ` set tab)" by (simp add: t(1) keys_put)
    moreover from this have "list_all (\<lambda>k. canon sp k = k) (map fst tab')"
      using assms(1) canon_canon by (auto simp: linked_def list_all_iff)
    ultimately show ?thesis using Pair False t(2) assms(1) by (auto simp: linked_def add_spec_def)
  qed
qed

lemma remove_type_linked:
  assumes "linked sp tab ls" "remove_type sp guid selector mapped ty ns (tab, ls) = (tab', ls')"
  shows "linked sp tab' ls' \<and>
    bound tab' = unbind_spec (\<lambda>k. k = canon sp ty) (removes mapped ty guid (ns_test ns) selector) (bound tab)"
proof (cases "obj_get tab (canon sp ty)")
  case None
  moreover from None have "bound tab (canon sp ty) = ([], [])" by (simp add: bound_def)
  ultimately show ?thesis
    using assms unbind_none [of tab "canon sp ty"] by (simp add: remove_type_def mapped_canon Let_def)
next
  case (Some l)
  let ?P = "removes mapped ty guid (ns_test ns) selector"
  define l' where "l' = ev_remove_loop ?P (length (ev_handlers l)) l"
  from assms(1) Some have tab: "table_ok tab" "ev_handlers l \<noteq> []" by (auto simp: linked_def table_ok_def)
  have tmp: "(case ns of None \<Rightarrow> None | Some _ \<Rightarrow> Some (ns_rx (namespaces_of ns))) = ns_test ns"
    by (simp add: ns_test_def split: option.splits)
  from assms(2) Some tab(2) hooks(2) have t: "tab' = (if ev_handlers l' = [] then obj_delete (canon sp ty) tab else obj_put (canon sp ty) l' tab)"
    "ls' = (if ev_handlers l' = [] then filter (\<lambda>t. t \<noteq> canon sp ty) ls else ls)"
    by (auto simp: remove_type_def mapped_canon Let_def l'_def tmp split: if_splits)
  from table_remove [OF tab(1) Some l'_def t(1)] assms(1) t(2) show ?thesis
    by (auto simp: linked_def list_all_iff)
qed

lemma remove_types_linked:
  assumes "rtypenamespace w = ([], ns)" "\<not> list_ex html_white w"
    and "\<And>k. k \<in> set ks \<Longrightarrow> plain_type k \<and> canon sp k = k" "linked sp tab ls"
    and "foldl (\<lambda>u type.
        if obj_get (fst u) type = None then u
        else foldr (\<lambda>w. case rtypenamespace w of (ty, ns') \<Rightarrow> remove_type sp guid selector True ty ns')
              (event_words (type @ w)) u) (tab, ls) ks = (tab', ls')"
  shows "linked sp tab' ls' \<and>
    bound tab' = unbind_spec (\<lambda>k. k \<in> set ks) (removes True [] guid (ns_test ns) selector) (bound tab)"
  using assms(3-5)
proof (induction ks arbitrary: tab ls)
  case Nil
  then show ?case by (simp add: unbind_spec_def)
next
  case (Cons k ks)
  let ?P = "removes True [] guid (ns_test ns) selector"
  have k: "plain_type k" "canon sp k = k" using Cons.prems(1) by auto
  obtain tab1 ls1 where one: "remove_type sp guid selector True k ns (tab, ls) = (tab1, ls1)"
    by (cases "remove_type sp guid selector True k ns (tab, ls)")
  have P: "removes True k guid (ns_test ns) selector = ?P" by (rule ext) (simp add: removes_def)
  let ?T = "if obj_get tab k = None then tab else tab1" and ?L = "if obj_get tab k = None then ls else ls1"
  have A: "linked sp ?T ?L \<and> bound ?T = unbind_spec (\<lambda>j. j = k) ?P (bound tab)"
    using remove_type_linked [OF Cons.prems(2) one] Cons.prems(2) unbind_none [of tab k ?P]
    by (auto simp: k P bound_def)
  from Cons.prems(3) one k event_words_behind [OF k(1) assms(2)] rtypenamespace_behind [OF assms(1) k(1)]
  have "foldl (\<lambda>u type.
        if obj_get (fst u) type = None then u
        else foldr (\<lambda>w. case rtypenamespace w of (ty, ns') \<Rightarrow> remove_type sp guid selector True ty ns')
              (event_words (type @ w)) u)
        (?T, ?L) ks = (tab', ls')"
    by (cases "obj_get tab k") simp_all
  from Cons.IH [OF _ conjunct1 [OF A] this] A Cons.prems(1) have "linked sp tab' ls' \<and> bound tab' = unbind_spec (\<lambda>k. k \<in> set ks) ?P (unbind_spec (\<lambda>j. j = k) ?P (bound tab))"
    by simp
  then show ?case by (auto simp: unbind_spec_def fun_eq_iff)
qed

lemma remove_word_linked:
  assumes "linked sp tab ls" "\<not> list_ex html_white w"
    and "remove_word sp guid selector mapped w (tab, ls) = (tab', ls')"
  shows "linked sp tab' ls' \<and> bound tab' = remove_spec sp guid selector mapped w (bound tab)"
proof (cases "rtypenamespace w")
  case (Pair ty ns)
  show ?thesis
  proof (cases "ty = []")
    case False
    with Pair assms(3) remove_type_linked [OF assms(1), of guid selector mapped ty ns] show ?thesis
      by (simp add: remove_word_def remove_spec_def)
  next
    case True
    have ks: "plain_type k \<and> canon sp k = k" if "k \<in> set (map fst tab)" for k
      using that assms(1) keys_get [of k tab] by (auto simp: linked_def table_ok_def list_all_iff)
    from True Pair assms(3) have "linked sp tab' ls' \<and>
        bound tab' = unbind_spec (\<lambda>k. k \<in> set (map fst tab)) (removes True [] guid (ns_test ns) selector) (bound tab)"
      by (intro remove_types_linked [of w ns "map fst tab" tab ls] ks assms(1,2)) (simp_all add: remove_word_def)
    moreover have "bound tab k = ([], [])" if "k \<notin> set (map fst tab)" for k
      using that keys_get [of k tab] by (simp add: bound_def)
    ultimately show ?thesis using True Pair by (auto simp: remove_spec_def unbind_spec_def fun_eq_iff)
  qed
qed

lemma add_words_linked:
  assumes "arg_selector h selector = selector" "\<And>w. w \<in> set ws \<Longrightarrow> \<not> list_ex html_white w" "linked sp tab ls"
    and "foldr (add_word sp needs h selector data guid) ws (tab, ls, g) = (tab', ls', g')"
  shows "linked sp tab' ls' \<and> bound tab' = foldr (add_spec sp needs h selector data guid) ws (bound tab)"
  using assms(2,4)
proof (induction ws arbitrary: tab' ls' g')
  case (Cons w ws)
  obtain tab1 ls1 g1 where one: "foldr (add_word sp needs h selector data guid) ws (tab, ls, g) = (tab1, ls1, g1)"
    using prod_cases3 by blast
  with Cons show ?case
    using add_word_linked [of tab1 ls1 w h selector needs data guid g1 tab' ls' g'] assms(1) by simp
qed (use assms(3) in simp)

lemma remove_words_linked:
  assumes "\<And>w. w \<in> set ws \<Longrightarrow> \<not> list_ex html_white w" "linked sp tab ls"
    and "foldr (remove_word sp guid selector mapped) ws (tab, ls) = (tab', ls')"
  shows "linked sp tab' ls' \<and> bound tab' = foldr (remove_spec sp guid selector mapped) ws (bound tab)"
  using assms(1,3)
proof (induction ws arbitrary: tab' ls')
  case (Cons w ws)
  obtain tab1 ls1 where one: "foldr (remove_word sp guid selector mapped) ws (tab, ls) = (tab1, ls1)"
    by (cases "foldr (remove_word sp guid selector mapped) ws (tab, ls)")
  with Cons show ?case
    using remove_word_linked [of tab1 ls1 w guid selector mapped tab' ls'] by simp
qed (use assms(2) in simp)

end

section \<open>The handlers of an element\<close>

datatype ('h, 'd) ev_op = EvAdd jstr "('h, 'd) handler_arg" 'd jstr | EvRemove jstr "'h option" jstr

definition ev_step ::
  "(jstr \<Rightarrow> special) \<Rightarrow> (jstr \<Rightarrow> bool) \<Rightarrow> (jstr \<Rightarrow> js_error option) \<Rightarrow> ('h, 'd) ev_op \<Rightarrow> ('h, 'd) evstate \<Rightarrow> ('h, 'd) evstate"
where
  "ev_step sp needs check p s =
     (case p of
        EvAdd types h data selector \<Rightarrow> snd (event_add sp needs check (Some 1) types h data selector s)
      | EvRemove types h selector \<Rightarrow> event_remove sp types h selector False s)"

definition ev_spec ::
  "(jstr \<Rightarrow> special) \<Rightarrow> (jstr \<Rightarrow> bool) \<Rightarrow> (jstr \<Rightarrow> js_error option) \<Rightarrow> ('h, 'd) ev_op \<Rightarrow>
   ('h, 'd) bindings \<times> ('h \<times> nat) list \<times> nat \<Rightarrow> ('h, 'd) bindings \<times> ('h \<times> nat) list \<times> nat"
where
  "ev_spec sp needs check p = (\<lambda>(b, gs, n).
     case p of
       EvAdd types h data selector0 \<Rightarrow>
         let selector = arg_selector h selector0 in
         if selector \<noteq> [] \<and> check selector \<noteq> None then (b, gs, n)
         else
           (case map_of gs (arg_handler h) of
              Some g \<Rightarrow> (foldr (add_spec sp needs h selector data g) (event_words types) b, gs, n)
            | None \<Rightarrow>
                (foldr (add_spec sp needs h selector data n) (event_words types) b,
                 (arg_handler h, n) # gs, Suc n))
     | EvRemove types h selector \<Rightarrow>
         (foldr (remove_spec sp (map_option (map_of gs) h) selector False) (event_words types) b, gs, n))"

definition table_of :: "('h, 'd) evstate \<Rightarrow> ('h, 'd) evtable" where
  "table_of s =
     (case ev_priv s of
        None \<Rightarrow> []
      | Some c \<Rightarrow> (case events_of c of Some t \<Rightarrow> t | None \<Rightarrow> []))"

definition ev_abs :: "('h, 'd) evstate \<Rightarrow> ('h, 'd) bindings \<times> ('h \<times> nat) list \<times> nat" where
  "ev_abs s = (bound (table_of s), ev_guids s, ev_next s)"

definition ev_ok :: "(jstr \<Rightarrow> special) \<Rightarrow> ('h, 'd) evstate \<Rightarrow> bool" where
  "ev_ok sp s =
     (linked sp (table_of s) (ev_listening s) \<and>
      (case ev_priv s of
         None \<Rightarrow> True
       | Some c \<Rightarrow> obj_get c (lit ''handle events'') = None))"

lemma linked_empty: "linked sp [] []"
  by (simp add: linked_def table_ok_def obj_ok_def obj_get_def)

lemma lit_data_keys [simp]:
  "lit ''handle events'' \<noteq> lit ''events''" "lit ''handle events'' \<noteq> lit ''handle''"
  "lit ''events'' \<noteq> lit ''handle''" "lit ''handle'' \<noteq> lit ''events''"
  by (simp_all add: lit_def)

lemma remove_keys_handle_events:
  assumes "obj_get c (lit ''handle events'') = None"
  shows "remove_keys (RStr (lit ''handle events'')) c = [lit ''handle'', lit ''events'']"
proof -
  have "camelCase (lit ''handle events'') = lit ''handle events''" by code_simp
  moreover have "lit ''handle events'' \<notin> set object_proto" by code_simp
  moreover have "nothtmlwhite (lit ''handle events'') = [lit ''handle'', lit ''events'']" by code_simp
  ultimately show ?thesis using assms by (simp add: remove_keys_def Let_def)
qed

lemma data_remove_handle_events:
  assumes "obj_get c (lit ''handle events'') = None"
  shows "(case data_remove (RStr (lit ''handle events'')) (Some c) of
      None \<Rightarrow> True
    | Some c' \<Rightarrow> events_of c' = None \<and> obj_get c' (lit ''handle events'') = None)"
  by (simp add: data_remove_def remove_keys_handle_events [OF assms] Let_def events_of_def obj_get_delete assms)

context renaming
begin

lemma event_remove_ok:
  fixes s :: "('h, 'd) evstate"
  assumes "ev_ok sp s"
  shows "ev_ok sp (event_remove sp types h selector False s) \<and>
    ev_abs (event_remove sp types h selector False s) = ev_spec sp needs check (EvRemove types h selector) (ev_abs s)"
proof (cases "\<exists>c t. ev_priv s = Some c \<and> events_of c = Some t")
  case False
  then have "event_remove sp types h selector False s = s" "table_of s = []"
    by (auto simp: event_remove_def table_of_def split: option.splits)
  moreover have "foldr (remove_spec sp g selector False) ws (bound []) = (bound [] :: ('h, 'd) bindings)" for g ws
    by (induction ws) (auto simp: remove_spec_def unbind_spec_def bound_def obj_get_def fun_eq_iff split: prod.splits)
  ultimately show ?thesis using assms by (simp add: ev_abs_def ev_spec_def)
next
  case True
  then obtain c t where c: "ev_priv s = Some c" "events_of c = Some t" by blast
  let ?g = "map_option (map_of (ev_guids s)) h"
  obtain t' ls' where r: "foldr (remove_word sp ?g selector False) (event_words types) (t, ev_listening s) = (t', ls')"
    by (cases "foldr (remove_word sp ?g selector False) (event_words types) (t, ev_listening s)")
  let ?c = "obj_put (lit ''events'') (PEvents t') c"
  have g: "(case h of None \<Rightarrow> None | Some h \<Rightarrow> Some (map_of (ev_guids s) h)) = ?g" by (simp split: option.splits)
  have e: "event_remove sp types h selector False s =
      s\<lparr>ev_priv := (if t' = [] then data_remove (RStr (lit ''handle events'')) (Some ?c) else Some ?c), ev_listening := ls'\<rparr>"
    by (simp add: event_remove_def c g r)
  from assms c have l: "linked sp t (ev_listening s)" "obj_get c (lit ''handle events'') = None"
    by (simp_all add: ev_ok_def table_of_def)
  from remove_words_linked [OF event_words_white l(1) r]
  have t': "linked sp t' ls'" "bound t' = foldr (remove_spec sp ?g selector False) (event_words types) (bound t)"
    by auto
  have "obj_get ?c (lit ''handle events'') = None" using l(2) by (simp add: obj_get_put)
  note rem = data_remove_handle_events [OF this]
  have tab: "table_of (event_remove sp types h selector False s) = t'"
    using rem by (auto simp: e table_of_def events_of_def obj_get_put split: option.splits)
  moreover have "ev_ok sp (event_remove sp types h selector False s)"
    using assms c rem t'(1) l(2) unfolding ev_ok_def tab by (auto simp: e obj_get_put split: option.splits)
  ultimately show ?thesis
    using c by (simp add: ev_abs_def ev_spec_def t'(2)) (simp add: e table_of_def)
qed

lemma event_add_ok:
  assumes "ev_ok sp s"
  shows "ev_ok sp (snd (event_add sp needs check (Some 1) types h data sel s)) \<and>
    ev_abs (snd (event_add sp needs check (Some 1) types h data sel s)) =
      ev_spec sp needs check (EvAdd types h data sel) (ev_abs s)"
proof -
  obtain c where c: "data_cache (Some 1) (ev_priv s) = (c, Some c)"
    "ev_priv s = Some c \<or> ev_priv s = None \<and> c = []"
    by (cases "ev_priv s") (auto simp: data_cache_def acceptData_def)
  let ?s0 = "s\<lparr>ev_priv := Some c\<rparr>" and ?sel = "arg_selector h sel"
  have tab: "table_of ?s0 = table_of s" using c(2) by (auto simp: table_of_def events_of_def obj_get_def)
  have hev: "obj_get c (lit ''handle events'') = None" using assms c(2) by (auto simp: ev_ok_def obj_get_def)
  have acc: "acceptData (Some 1)" by (simp add: acceptData_def)
  show ?thesis
  proof (cases "?sel \<noteq> [] \<and> check ?sel \<noteq> None")
    case True
    then have "snd (event_add sp needs check (Some 1) types h data sel s) = ?s0"
      by (auto simp: event_add_def c(1) acc Let_def)
    with True show ?thesis using assms hev by (simp add: ev_ok_def ev_abs_def tab ev_spec_def Let_def)
  next
    case False
    obtain g s1 where g: "handler_guid (arg_handler h) ?s0 = (g, s1)" by (cases "handler_guid (arg_handler h) ?s0")
    then have s1: "ev_listening s1 = ev_listening s"
      "(g, ev_guids s1, ev_next s1) =
        (case map_of (ev_guids s) (arg_handler h) of
           Some g \<Rightarrow> (g, ev_guids s, ev_next s)
         | None \<Rightarrow> (ev_next s, (arg_handler h, ev_next s) # ev_guids s, Suc (ev_next s)))"
      by (auto simp: handler_guid_def split: option.splits)
    obtain t' ls' gl' where r:
      "foldr (add_word sp needs h ?sel data g) (event_words types) (table_of s, ev_listening s, ev_global s1) = (t', ls', gl')"
      using prod_cases3 by blast
    have idem: "arg_selector h ?sel = ?sel" by (cases h) simp_all
    from assms have "linked sp (table_of s) (ev_listening s)" by (simp add: ev_ok_def)
    from add_words_linked [OF idem event_words_white this r]
    have t': "linked sp t' ls'" "bound t' = foldr (add_spec sp needs h ?sel data g) (event_words types) (bound (table_of s))"
      by auto
    have ev: "(case events_of c of Some t \<Rightarrow> t | None \<Rightarrow> []) = table_of s" using tab by (simp add: table_of_def)
    let ?s' = "snd (event_add sp needs check (Some 1) types h data sel s)"
    define c1 where "c1 = (if events_of c = None then obj_put (lit ''events'') (PEvents []) c else c)"
    define c2 where "c2 = (if obj_get c1 (lit ''handle'') = None then obj_put (lit ''handle'') PHandle c1 else c1)"
    have c2: "obj_get c2 (lit ''handle events'') = None" using hev by (simp add: c1_def c2_def obj_get_put)
    have check: "(if ?sel \<noteq> [] then check ?sel else None) = None" using False by auto
    have s': "?s' = s1\<lparr>ev_priv := Some (obj_put (lit ''events'') (PEvents t') c2), ev_listening := ls', ev_global := gl'\<rparr>"
      unfolding event_add_def c(1) Let_def prod.case check option.case g ev s1(1) r c1_def [symmetric] c2_def [symmetric]
      by (simp add: acc)
    then have "table_of ?s' = t'" by (simp add: table_of_def events_of_def obj_get_put)
    then show ?thesis
      using False c2 t' s1(2) by (auto simp: s' ev_ok_def ev_abs_def ev_spec_def Let_def obj_get_put split: option.splits)
  qed
qed

lemma ev_step_refines:
  assumes "ev_ok sp s"
  shows "ev_ok sp (ev_step sp needs check p s)"
    and "ev_abs (ev_step sp needs check p s) = ev_spec sp needs check p (ev_abs s)"
proof -
  have "ev_ok sp (ev_step sp needs check p s) \<and> ev_abs (ev_step sp needs check p s) = ev_spec sp needs check p (ev_abs s)"
  proof (cases p)
    case (EvAdd types h data sel)
    with event_add_ok [OF assms] show ?thesis by (simp add: ev_step_def)
  next
    case (EvRemove types h sel)
    with event_remove_ok [OF assms] show ?thesis by (simp add: ev_step_def)
  qed
  then show "ev_ok sp (ev_step sp needs check p s)"
    "ev_abs (ev_step sp needs check p s) = ev_spec sp needs check p (ev_abs s)"
    by simp_all
qed

end

text \<open>The special events of the library that only rename a type.\<close>

definition special_types :: "jstr \<Rightarrow> special" where
  "special_types t =
     (let fix = map_of
        [(lit ''mouseenter'', lit ''mouseover''), (lit ''mouseleave'', lit ''mouseout''),
         (lit ''pointerenter'', lit ''pointerover''), (lit ''pointerleave'', lit ''pointerout'')] t
      in \<lparr>sp_delegateType = fix, sp_bindType = fix, sp_listen = True, sp_unlisten = True\<rparr>)"

interpretation mouse: renaming special_types
proof
  fix t u
  assume "sp_bindType (special_types t) = Some u"
  then have "u \<in> {lit ''mouseover'', lit ''mouseout'', lit ''pointerover'', lit ''pointerout''}"
    by (auto simp: special_types_def Let_def split: if_splits)
  moreover have "plain_type (lit ''mouseover'')" "plain_type (lit ''mouseout'')"
    "plain_type (lit ''pointerover'')" "plain_type (lit ''pointerout'')"
    by code_simp+
  ultimately show "plain_type u \<and> sp_bindType (special_types u) = None"
    by (auto simp: special_types_def lit_def)
qed (simp_all add: special_types_def Let_def)

definition ev_init :: "('h, 'd) evstate" where
  "ev_init = \<lparr>ev_priv = None, ev_listening = [], ev_guids = [], ev_next = 1, ev_global = []\<rparr>"

interpretation handlers_of_element: simulation
  "ev_step special_types needs check" "ev_spec special_types needs check" ev_abs "ev_ok special_types" for needs check
  by unfold_locales (simp_all add: mouse.ev_step_refines)

lemma handlers_for_table:
  "handlers_for (ev_priv s) type =
     (case obj_get (table_of s) type of Some l \<Rightarrow> l | None \<Rightarrow> \<lparr>ev_handlers = [], delegateCount = 0\<rparr>)"
proof -
  have "camelCase (lit ''events'') = lit ''events''" by code_simp
  moreover have "lit ''events'' \<notin> set object_proto" by code_simp
  ultimately show ?thesis
    by (auto simp: handlers_for_def table_of_def data_get_def cache_get_def events_of_def obj_get_def
        split: option.splits epval.splits)
qed

section \<open>Properties\<close>


end
