(* ===== verification/JQ_Dispatch.thy ===== *)
theory JQ_Dispatch
  imports JQ_Event
begin

text \<open>
  \<open>jquery-3.5.1.js\<close>: the event object, \<open>jQuery.event.handlers\<close> and \<open>dispatch\<close>, on the tables of
  handlers of theory \<open>JQ_Event\<close>. Selectors are matched by the selector engine, a parameter.
\<close>

section \<open>Events\<close>

record ev_node =
  n_id :: nat
  n_nodeType :: int
  n_disabled :: bool

text \<open>
  \<open>e_chain\<close> is the target of the event followed by its ancestors, the nodes that \<open>parentNode\<close> leads to;
  \<open>e_button\<close> is 0 when the event has no button. \<open>e_log\<close> records the handlers that were called, with the
  node they were called on.
\<close>

record ('h, 'd) jq_event =
  e_type :: jstr
  e_button :: int
  e_chain :: "ev_node list"
  e_rnamespace :: "rx option"
  isDefaultPrevented :: bool
  isPropagationStopped :: bool
  isImmediatePropagationStopped :: bool
  e_result :: jsval
  e_log :: "(nat \<times> ('h, 'd) handleObj) list"

record native_event =
  ne_type :: jstr
  ne_button :: int
  ne_chain :: "ev_node list"
  ne_defaultPrevented :: bool

text \<open>\<open>new jQuery.Event( src )\<close> for a native event; a text node is replaced by its parent.\<close>

definition Event :: "native_event \<Rightarrow> ('h, 'd) jq_event" where
  "Event src =
     \<lparr>e_type = ne_type src, e_button = ne_button src,
      e_chain = (case ne_chain src of n # ns \<Rightarrow> if n_nodeType n = 3 then ns else n # ns | [] \<Rightarrow> []),
      e_rnamespace = None, isDefaultPrevented = ne_defaultPrevented src,
      isPropagationStopped = False, isImmediatePropagationStopped = False,
      e_result = VUndef, e_log = []\<rparr>"

definition preventDefault :: "('h, 'd) jq_event \<Rightarrow> ('h, 'd) jq_event" where
  "preventDefault e = e\<lparr>isDefaultPrevented := True\<rparr>"

definition stopPropagation :: "('h, 'd) jq_event \<Rightarrow> ('h, 'd) jq_event" where
  "stopPropagation e = e\<lparr>isPropagationStopped := True\<rparr>"

definition stopImmediatePropagation :: "('h, 'd) jq_event \<Rightarrow> ('h, 'd) jq_event" where
  "stopImmediatePropagation e = stopPropagation (e\<lparr>isImmediatePropagationStopped := True\<rparr>)"

section \<open>handlers\<close>

text \<open>
  The loop over the delegated handlers for one node, with the table \<open>matchedSelectors\<close>. \<open>selects sel
  needsContext n\<close> is the answer of the selector engine.
\<close>

fun matched_handlers ::
  "(jstr \<Rightarrow> bool \<Rightarrow> ev_node \<Rightarrow> bool) \<Rightarrow> ev_node \<Rightarrow> ('h, 'd) handleObj list \<Rightarrow> (jstr \<times> bool) list \<Rightarrow> ('h, 'd) handleObj list"
where
  "matched_handlers selects cur [] memo = []"
| "matched_handlers selects cur (ho # hos) memo =
     (let sel = ho_selector ho @ lit '' '';
          memo' = (if obj_get memo sel = None
                   then obj_put sel (selects sel (ho_needsContext ho) cur) memo else memo);
          rest = matched_handlers selects cur hos memo'
      in if obj_get memo' sel = Some True then ho # rest else rest)"

definition checked_node :: "('h, 'd) jq_event \<Rightarrow> ev_node \<Rightarrow> bool" where
  "checked_node e cur = (n_nodeType cur = 1 \<and> \<not> (e_type e = lit ''click'' \<and> n_disabled cur))"

definition event_handlers ::
  "(jstr \<Rightarrow> bool \<Rightarrow> ev_node \<Rightarrow> bool) \<Rightarrow> nat \<Rightarrow> ('h, 'd) jq_event \<Rightarrow> ('h, 'd) evlist \<Rightarrow> (nat \<times> ('h, 'd) handleObj list) list"
where
  "event_handlers selects this_id e l =
     (let k = nat (delegateCount l);
          delegated =
            (if delegateCount l \<noteq> 0 \<and> (case e_chain e of n # _ \<Rightarrow> n_nodeType n \<noteq> 0 | [] \<Rightarrow> False) \<and>
                \<not> (e_type e = lit ''click'' \<and> 1 \<le> e_button e)
             then
               concat (map (\<lambda>cur.
                   if checked_node e cur then
                     (case matched_handlers selects cur (take k (ev_handlers l)) [] of
                        [] \<Rightarrow> []
                      | matched \<Rightarrow> [(n_id cur, matched)])
                   else [])
                 (takeWhile (\<lambda>n. n_id n \<noteq> this_id) (e_chain e)))
             else [])
      in delegated @
         (if delegateCount l < int (length (ev_handlers l)) then [(this_id, drop k (ev_handlers l))] else []))"

section \<open>dispatch\<close>

text \<open>What a handler does with the event while it runs.\<close>

datatype ev_act = PreventDefault | StopPropagation | StopImmediatePropagation

fun do_act :: "ev_act \<Rightarrow> ('h, 'd) jq_event \<Rightarrow> ('h, 'd) jq_event" where
  "do_act PreventDefault e = preventDefault e"
| "do_act StopPropagation e = stopPropagation e"
| "do_act StopImmediatePropagation e = stopImmediatePropagation e"

text \<open>
  \<open>call\<close> gives, for a handler on a node and the event, the value it returns and its calls of the
  methods of the event. The queue of handlers is made before the first of them runs, so handlers
  that add or remove handlers do not change it.
\<close>

definition call_handler ::
  "(('h, 'd) handleObj \<Rightarrow> nat \<Rightarrow> ('h, 'd) jq_event \<Rightarrow> jsval \<times> ev_act list) \<Rightarrow> nat \<Rightarrow> ('h, 'd) handleObj \<Rightarrow>
   ('h, 'd) jq_event \<Rightarrow> ('h, 'd) jq_event"
where
  "call_handler call node ho e =
     (case call ho node e of
        (ret, acts) \<Rightarrow>
          let e1 = fold do_act acts (e\<lparr>e_log := e_log e @ [(node, ho)]\<rparr>);
              e2 = (if ret \<noteq> VUndef then e1\<lparr>e_result := ret\<rparr> else e1)
          in if ret = VBool False then stopPropagation (preventDefault e2) else e2)"

definition accepts :: "('h, 'd) jq_event \<Rightarrow> ('h, 'd) handleObj \<Rightarrow> bool" where
  "accepts e ho =
     (case e_rnamespace e of
        None \<Rightarrow> True
      | Some r \<Rightarrow> (case ho_namespace ho of None \<Rightarrow> True | Some n \<Rightarrow> re_test r n))"

fun run_handlers ::
  "(('h, 'd) handleObj \<Rightarrow> nat \<Rightarrow> ('h, 'd) jq_event \<Rightarrow> jsval \<times> ev_act list) \<Rightarrow> nat \<Rightarrow> ('h, 'd) handleObj list \<Rightarrow>
   ('h, 'd) jq_event \<Rightarrow> ('h, 'd) jq_event"
where
  "run_handlers call node [] e = e"
| "run_handlers call node (ho # hos) e =
     (if isImmediatePropagationStopped e then e
      else run_handlers call node hos (if accepts e ho then call_handler call node ho e else e))"

fun run_queue ::
  "(('h, 'd) handleObj \<Rightarrow> nat \<Rightarrow> ('h, 'd) jq_event \<Rightarrow> jsval \<times> ev_act list) \<Rightarrow>
   (nat \<times> ('h, 'd) handleObj list) list \<Rightarrow> ('h, 'd) jq_event \<Rightarrow> ('h, 'd) jq_event"
where
  "run_queue call [] e = e"
| "run_queue call ((node, hos) # q) e =
     (if isPropagationStopped e then e else run_queue call q (run_handlers call node hos e))"

text \<open>\<open>bails\<close> tells that the \<open>preDispatch\<close> hook of the type returned \<open>false\<close>.\<close>

definition event_dispatch ::
  "(('h, 'd) jq_event \<Rightarrow> bool) \<Rightarrow> (jstr \<Rightarrow> bool \<Rightarrow> ev_node \<Rightarrow> bool) \<Rightarrow>
   (('h, 'd) handleObj \<Rightarrow> nat \<Rightarrow> ('h, 'd) jq_event \<Rightarrow> jsval \<times> ev_act list) \<Rightarrow> nat \<Rightarrow> ('h, 'd) epval cache option \<Rightarrow>
   ('h, 'd) jq_event \<Rightarrow> ('h, 'd) jq_event"
where
  "event_dispatch bails selects call this_id priv e =
     (if bails e then e
      else run_queue call (event_handlers selects this_id e (handlers_for priv (e_type e))) e)"

section \<open>The order of the calls\<close>

lemma matched_handlers_filter:
  assumes "\<And>h. h \<in> set hos \<Longrightarrow> ho_needsContext h = needs (ho_selector h)"
    and "\<And>h v. h \<in> set hos \<Longrightarrow> obj_get memo (ho_selector h @ lit '' '') = Some v \<Longrightarrow>
           v = selects (ho_selector h @ lit '' '') (needs (ho_selector h)) cur"
  shows "matched_handlers selects cur hos memo =
    filter (\<lambda>h. selects (ho_selector h @ lit '' '') (needs (ho_selector h)) cur) hos"
  using assms
proof (induction selects cur hos memo rule: matched_handlers.induct)
  case (2 selects cur ho hos memo)
  let ?sel = "ho_selector ho @ lit '' ''"
  define memo' where "memo' = (if obj_get memo ?sel = None
                   then obj_put ?sel (selects ?sel (ho_needsContext ho) cur) memo else memo)"
  have m: "obj_get memo' ?sel = Some (selects ?sel (needs (ho_selector ho)) cur)"
    using 2(2,3) by (auto simp: memo'_def obj_get_put)
  have "matched_handlers selects cur hos memo' =
    filter (\<lambda>h. selects (ho_selector h @ lit '' '') (needs (ho_selector h)) cur) hos"
    using 2(2,3) by (intro 2(1) [OF refl memo'_def]) (auto simp: memo'_def obj_get_put split: if_splits)
  with m show ?case by (simp add: Let_def flip: memo'_def)
qed simp

text \<open>The calls that an event makes when nothing stops it.\<close>

definition planned :: "('h, 'd) jq_event \<Rightarrow> (nat \<times> ('h, 'd) handleObj list) list \<Rightarrow> (nat \<times> ('h, 'd) handleObj) list" where
  "planned e q = concat (map (\<lambda>(n, hos). map (Pair n) (filter (accepts e) hos)) q)"

lemma do_acts_keep:
  "e_log (fold do_act acts e) = e_log e" "e_rnamespace (fold do_act acts e) = e_rnamespace e"
  "isPropagationStopped e \<Longrightarrow> isPropagationStopped (fold do_act acts e)"
  "(isImmediatePropagationStopped e \<longrightarrow> isPropagationStopped e) \<Longrightarrow>
   isImmediatePropagationStopped (fold do_act acts e) \<longrightarrow> isPropagationStopped (fold do_act acts e)"
proof -
  have one: "e_log (do_act a e) = e_log e" "e_rnamespace (do_act a e) = e_rnamespace e"
    "isPropagationStopped e \<Longrightarrow> isPropagationStopped (do_act a e)"
    "(isImmediatePropagationStopped e \<longrightarrow> isPropagationStopped e) \<Longrightarrow>
      isImmediatePropagationStopped (do_act a e) \<longrightarrow> isPropagationStopped (do_act a e)" for a and e :: "('a, 'b) jq_event"
    by (cases a; simp add: preventDefault_def stopPropagation_def stopImmediatePropagation_def)+
  show "e_log (fold do_act acts e) = e_log e" "e_rnamespace (fold do_act acts e) = e_rnamespace e"
    "isPropagationStopped e \<Longrightarrow> isPropagationStopped (fold do_act acts e)"
    "(isImmediatePropagationStopped e \<longrightarrow> isPropagationStopped e) \<Longrightarrow>
      isImmediatePropagationStopped (fold do_act acts e) \<longrightarrow> isPropagationStopped (fold do_act acts e)"
    by (induction acts arbitrary: e) (simp_all add: one)
qed

text \<open>A stopped event is never resumed, and an event stopped at once does not propagate either.\<close>

definition stops_ok :: "('h, 'd) jq_event \<Rightarrow> bool" where
  "stops_ok e = (isImmediatePropagationStopped e \<longrightarrow> isPropagationStopped e)"

lemma call_handler_keep:
  "e_log (call_handler call n ho e) = e_log e @ [(n, ho)]"
  "e_rnamespace (call_handler call n ho e) = e_rnamespace e"
  "stops_ok e \<Longrightarrow> stops_ok (call_handler call n ho e)"
  using do_acts_keep(4) [of "e\<lparr>e_log := e_log e @ [(n, ho)]\<rparr>"]
  by (auto simp: call_handler_def Let_def do_acts_keep stopPropagation_def preventDefault_def stops_ok_def split: prod.splits)

lemma accepts_cong: "e_rnamespace e' = e_rnamespace e \<Longrightarrow> accepts e' = accepts e"
  by (simp add: accepts_def fun_eq_iff)

lemma run_handlers_log:
  assumes "stops_ok e"
  shows "\<exists>xs. e_log (run_handlers call n hos e) = e_log e @ map (Pair n) xs \<and>
    prefix xs (filter (accepts e) hos) \<and>
    (\<not> isImmediatePropagationStopped (run_handlers call n hos e) \<longrightarrow> xs = filter (accepts e) hos) \<and>
    e_rnamespace (run_handlers call n hos e) = e_rnamespace e \<and> stops_ok (run_handlers call n hos e)"
  using assms
proof (induction call n hos e rule: run_handlers.induct)
  case (2 call n ho hos e)
  show ?case
  proof (cases "isImmediatePropagationStopped e")
    case True
    with 2(2) show ?thesis by (auto intro: exI [of _ "[]"])
  next
    case False
    define e1 where "e1 = (if accepts e ho then call_handler call n ho e else e)"
    have e1: "stops_ok e1" "accepts e1 = accepts e" "e_rnamespace e1 = e_rnamespace e"
      "e_log e1 = e_log e @ (if accepts e ho then [(n, ho)] else [])"
      using 2(2) by (auto simp: e1_def call_handler_keep intro: accepts_cong)
    from 2(1) [OF False] e1 obtain xs where
      "e_log (run_handlers call n hos e1) = e_log e1 @ map (Pair n) xs" "prefix xs (filter (accepts e) hos)"
      "\<not> isImmediatePropagationStopped (run_handlers call n hos e1) \<longrightarrow> xs = filter (accepts e) hos"
      "e_rnamespace (run_handlers call n hos e1) = e_rnamespace e" "stops_ok (run_handlers call n hos e1)"
      unfolding e1_def by auto
    with False e1(4) show ?thesis
      by (intro exI [of _ "(if accepts e ho then [ho] else []) @ xs"]) (simp flip: e1_def)
  qed
qed (auto intro: exI [of _ "[]"])

lemma run_queue_log:
  assumes "stops_ok e"
  shows "\<exists>xs. e_log (run_queue call q e) = e_log e @ xs \<and> prefix xs (planned e q) \<and>
    (\<not> isPropagationStopped (run_queue call q e) \<longrightarrow> xs = planned e q)"
  using assms
proof (induction call q e rule: run_queue.induct)
  case (2 call n hos q e)
  show ?case
  proof (cases "isPropagationStopped e")
    case False
    define e1 where "e1 = run_handlers call n hos e"
    from run_handlers_log [OF 2(2), of call n hos] obtain xs where
      xs: "e_log e1 = e_log e @ map (Pair n) xs" "prefix xs (filter (accepts e) hos)"
      "\<not> isImmediatePropagationStopped e1 \<longrightarrow> xs = filter (accepts e) hos"
      "e_rnamespace e1 = e_rnamespace e" "stops_ok e1"
      unfolding e1_def by blast
    show ?thesis
    proof (cases "isPropagationStopped e1")
      case True
      then have "run_queue call q e1 = e1" by (cases q) auto
      moreover from xs(2) have "prefix (map (Pair n) xs) (planned e ((n, hos) # q))"
        by (auto simp: planned_def prefix_def)
      ultimately show ?thesis using False True xs(1) by (auto simp flip: e1_def)
    next
      case stop: False
      with xs(3,5) have all: "xs = filter (accepts e) hos" by (auto simp: stops_ok_def)
      from 2(1) [OF False] xs(5) obtain ys where
        "e_log (run_queue call q e1) = e_log e1 @ ys" "prefix ys (planned e1 q)"
        "\<not> isPropagationStopped (run_queue call q e1) \<longrightarrow> ys = planned e1 q"
        unfolding e1_def by blast
      moreover have "planned e1 q = planned e q" by (simp add: planned_def accepts_cong [OF xs(4)])
      ultimately show ?thesis using False xs(1) all
        by (intro exI [of _ "map (Pair n) xs @ ys"]) (simp add: planned_def flip: e1_def)
    qed
  qed (auto intro: exI [of _ "[]"])
qed (auto simp: planned_def)

lemma planned_append: "planned e (p @ q) = planned e p @ planned e q"
  by (simp add: planned_def)

lemma planned_concat: "planned e (concat (map f xs)) = concat (map (\<lambda>x. planned e (f x)) xs)"
  by (induction xs) (simp_all add: planned_append, simp add: planned_def)

lemma concat_map_if: "concat (map (\<lambda>x. if P x then f x else []) xs) = concat (map f (filter P xs))"
  by (induction xs) auto

lemma planned_group: "planned e (case hs of [] \<Rightarrow> [] | matched \<Rightarrow> [(n, matched)]) = map (Pair n) (filter (accepts e) hs)"
  by (cases hs) (simp_all add: planned_def)

lemma filter_both: "filter (\<lambda>x. P x \<and> Q x) xs = filter P (filter Q xs)"
  by (induction xs) auto

lemma event_handlers_ok:
  assumes "list_ok l" "\<And>h. h \<in> set (ev_handlers l) \<Longrightarrow> ho_needsContext h = needs (ho_selector h)"
    and "e_chain e = n # ns" "n_nodeType n \<noteq> 0" "\<not> (e_type e = lit ''click'' \<and> 1 \<le> e_button e)"
  shows "planned e (event_handlers selects this_id e l) =
    concat (map (\<lambda>cur. map (Pair (n_id cur))
        (filter (\<lambda>h. accepts e h \<and> selects (ho_selector h @ lit '' '') (needs (ho_selector h)) cur)
          (delegated (ev_handlers l))))
      (filter (checked_node e) (takeWhile (\<lambda>n. n_id n \<noteq> this_id) (e_chain e)))) @
    map (Pair this_id) (filter (accepts e) (direct (ev_handlers l)))"
proof -
  note k = list_okD [OF assms(1)]
  have m: "matched_handlers selects cur (delegated (ev_handlers l)) [] =
      filter (\<lambda>h. selects (ho_selector h @ lit '' '') (needs (ho_selector h)) cur) (delegated (ev_handlers l))" for cur
    using assms(2) by (intro matched_handlers_filter) (auto simp: obj_get_def)
  have count: "delegateCount l = 0 \<longleftrightarrow> delegated (ev_handlers l) = []"
    "delegateCount l < int (length (ev_handlers l)) \<longleftrightarrow> direct (ev_handlers l) \<noteq> []"
  proof -
    from assms(1) have d: "delegateCount l = int (length (delegated (ev_handlers l)))" by (simp add: list_ok_def)
    then show "delegateCount l = 0 \<longleftrightarrow> delegated (ev_handlers l) = []" by (simp only: d) simp
    have "length (ev_handlers l) = length (delegated (ev_handlers l)) + length (direct (ev_handlers l))"
      using sum_length_filter_compl [of "\<lambda>h. ho_selector h \<noteq> []" "ev_handlers l"] by simp
    with d show "delegateCount l < int (length (ev_handlers l)) \<longleftrightarrow> direct (ev_handlers l) \<noteq> []"
      by (simp only: d length_greater_0_conv [symmetric]) linarith
  qed
  let ?D = "delegated (ev_handlers l)"
  let ?sel = "\<lambda>cur h. selects (ho_selector h @ lit '' '') (needs (ho_selector h)) cur"
  have one: "planned e (case matched_handlers selects cur ?D [] of [] \<Rightarrow> [] | matched \<Rightarrow> [(n_id cur, matched)]) =
      map (Pair (n_id cur)) (filter (\<lambda>h. accepts e h \<and> ?sel cur h) ?D)" for cur
    unfolding m planned_group filter_both ..
  have if_planned: "planned e (if b then q else []) = (if b then planned e q else [])" for b and q :: "(nat \<times> ('a, 'b) handleObj list) list"
    by (simp add: planned_def)
  have direct: "planned e (if delegateCount l < int (length (ev_handlers l)) then [(this_id, direct (ev_handlers l))] else []) =
      map (Pair this_id) (filter (accepts e) (direct (ev_handlers l)))"
    using count(2) by (cases "direct (ev_handlers l)") (simp_all add: planned_def del: filter_filter)
  show ?thesis
  proof (cases "?D = []")
    case True
    then have "delegateCount l = 0" using count(1) by simp
    then show ?thesis
      unfolding event_handlers_def Let_def k planned_append direct True by (simp add: planned_def concat_eq_Nil_conv)
  next
    case False
    with count(1) assms(3-5) have "delegateCount l \<noteq> 0 \<and> (case e_chain e of n # _ \<Rightarrow> n_nodeType n \<noteq> 0 | [] \<Rightarrow> False) \<and>
        \<not> (e_type e = lit ''click'' \<and> 1 \<le> e_button e)" by simp
    then show ?thesis
      unfolding event_handlers_def Let_def k planned_append direct
      by (simp only: if_True planned_concat if_planned one concat_map_if not_False_eq_True simp_thms)
  qed
qed

section \<open>Properties\<close>

text \<open>
  C18. The handlers a dispatched event calls. With the delegated handlers in front, they are called from
  the target outwards, for each checked node below the element the delegated handlers whose
  selector matches it, in the order of their binding, then the direct handlers of the element;
  only those whose namespaces the event accepts. What is called is a first part of this sequence,
  and all of it unless the event was stopped.
\<close>

theorem dispatch_order:
  assumes "list_ok l" "handlers_for priv (e_type e) = l" "stops_ok e" "\<not> bails e"
    and "list_all (\<lambda>h. ho_needsContext h = needs (ho_selector h)) (ev_handlers l)"
    and "e_chain e = n # ns" "n_nodeType n \<noteq> 0" "\<not> (e_type e = lit ''click'' \<and> 1 \<le> e_button e)"
  shows "\<exists>xs. e_log (event_dispatch bails selects call this_id priv e) = e_log e @ xs \<and>
    (let calls =
        concat (map (\<lambda>cur. map (Pair (n_id cur))
            (filter (\<lambda>h. accepts e h \<and> selects (ho_selector h @ lit '' '') (needs (ho_selector h)) cur)
              (delegated (ev_handlers l))))
          (filter (checked_node e) (takeWhile (\<lambda>n. n_id n \<noteq> this_id) (e_chain e)))) @
        map (Pair this_id) (filter (accepts e) (direct (ev_handlers l)))
     in prefix xs calls \<and>
        (isPropagationStopped (event_dispatch bails selects call this_id priv e) \<or> xs = calls))"
proof -
  have nc: "ho_needsContext h = needs (ho_selector h)" if "h \<in> set (ev_handlers l)" for h
    using assms(5) that by (simp add: list_all_iff)
  have d: "event_dispatch bails selects call this_id priv e = run_queue call (event_handlers selects this_id e l) e"
    using assms(2,4) by (simp add: event_dispatch_def)
  note calls = event_handlers_ok [OF assms(1) nc assms(6-8), of selects this_id]
  obtain xs where "e_log (run_queue call (event_handlers selects this_id e l) e) = e_log e @ xs"
    "prefix xs (planned e (event_handlers selects this_id e l))"
    "isPropagationStopped (run_queue call (event_handlers selects this_id e l) e) \<or>
      xs = planned e (event_handlers selects this_id e l)"
    using run_queue_log [OF assms(3), of call "event_handlers selects this_id e l"] by blast
  then show ?thesis
    unfolding Let_def d by (intro exI [of _ xs] conjI) (simp_all only: calls)
qed

definition click_handler :: "nat \<Rightarrow> jstr \<Rightarrow> (nat, unit) handleObj" where
  "click_handler h sel =
     \<lparr>ho_type = lit ''click'', ho_origType = lit ''click'', ho_data = (), ho_handler = h, ho_guid = h,
      ho_selector = sel, ho_needsContext = False, ho_namespace = Some []\<rparr>"

definition click_list :: "(nat, unit) evlist" where
  "click_list = \<lparr>ev_handlers = [click_handler 1 (lit ''a''), click_handler 2 []], delegateCount = 1\<rparr>"

definition click_event :: "(nat, unit) jq_event" where
  "click_event = Event \<lparr>ne_type = lit ''click'', ne_button = 0,
     ne_chain = [\<lparr>n_id = 7, n_nodeType = 1, n_disabled = False\<rparr>, \<lparr>n_id = 3, n_nodeType = 1, n_disabled = False\<rparr>],
     ne_defaultPrevented = False\<rparr>"

theorem dispatch_order_witness:
  "prefix (e_log (event_dispatch (\<lambda>_. False) (\<lambda>sel _ n. sel = lit ''a '' \<and> n_id n = 7) (\<lambda>_ _ _. (VUndef, [])) 3
      (Some [(lit ''events'', PEvents [(lit ''click'', click_list)])]) click_event))
    [(7, click_handler 1 (lit ''a'')), (3, click_handler 2 [])]"
proof -
  let ?priv = "Some [(lit ''events'', PEvents [(lit ''click'', click_list)])]"
  have "camelCase (lit ''events'') = lit ''events''" by code_simp
  then have l: "handlers_for ?priv (e_type click_event) = click_list"
    by (simp add: handlers_for_def data_get_def cache_get_def obj_get_def click_event_def Event_def)
  have ok: "list_ok click_list"
    by (simp add: list_ok_def click_list_def click_handler_def lit_def)
  have rest: "stops_ok click_event" "\<not> (\<lambda>_. False) click_event"
    "list_all (\<lambda>h. ho_needsContext h = (\<lambda>_. False) (ho_selector h)) (ev_handlers click_list)"
    "e_chain click_event = \<lparr>n_id = 7, n_nodeType = 1, n_disabled = False\<rparr> # [\<lparr>n_id = 3, n_nodeType = 1, n_disabled = False\<rparr>]"
    "n_nodeType \<lparr>n_id = 7, n_nodeType = 1, n_disabled = False\<rparr> \<noteq> 0"
    "\<not> (e_type click_event = lit ''click'' \<and> 1 \<le> e_button click_event)"
    by (simp_all add: click_event_def Event_def stops_ok_def click_list_def click_handler_def)
  from dispatch_order [OF ok l rest, of "\<lambda>sel _ n. sel = lit ''a '' \<and> n_id n = 7" "\<lambda>_ _ _. (VUndef, [])" 3]
  show ?thesis
    by (auto simp: Let_def click_list_def click_handler_def click_event_def Event_def accepts_def checked_node_def lit_def)
qed

end
