(* ===== verification/JQ_Trigger.thy ===== *)
theory JQ_Trigger
  imports JQ_Dispatch
begin

text \<open>
  \<open>jquery-3.5.1.js\<close>: \<open>jQuery.event.trigger\<close> on the handler tables of \<open>JQ_Event\<close> and with \<open>dispatch\<close> of
  \<open>JQ_Dispatch\<close>. A node is a number; the target comes with the list of its ancestors, and the tables do not
  change while handlers run. What the browser and
  the page provide is the argument \<open>env\<close>; what the call changes outside the event is the state \<open>tstate\<close>:
  \<open>jQuery.event.triggered\<close>, which handlers \<open>on..\<close> are in place, who listens with \<open>stopPropagationCallback\<close>, and
  the calls of native methods with the state at that moment.
\<close>

section \<open>Surroundings\<close>

record ('h, 'd) tenv =
  tv_priv :: "nat \<Rightarrow> ('h, 'd) epval cache option"
  tv_on :: "nat \<Rightarrow> ('h, 'd) jq_event \<Rightarrow> jsval \<times> ev_act list"   \<comment> \<open>what \<open>cur[ ontype ]\<close> returns and does\<close>
  tv_accept :: "nat \<Rightarrow> bool"                                         \<comment> \<open>\<open>acceptData\<close>\<close>
  tv_method :: bool                                                   \<comment> \<open>\<open>isFunction( elem[ type ] )\<close>\<close>
  tv_document :: nat                                                  \<comment> \<open>\<open>elem.ownerDocument || document\<close>\<close>
  tv_window :: nat
  tv_selects :: "jstr \<Rightarrow> bool \<Rightarrow> ev_node \<Rightarrow> bool"
  tv_call :: "('h, 'd) handleObj \<Rightarrow> nat \<Rightarrow> ('h, 'd) jq_event \<Rightarrow> jsval \<times> ev_act list"
  tv_bails :: "('h, 'd) jq_event \<Rightarrow> bool"

text \<open>The parts of \<open>jQuery.event.special[ type ]\<close> that \<open>trigger\<close> reads; the hooks are given by whether they return \<open>false\<close>.\<close>

record tspecial =
  ts_delegateType :: "jstr option"
  ts_bindType :: "jstr option"
  ts_noBubble :: bool
  ts_trigger_false :: bool
  ts_default_blocks :: bool      \<comment> \<open>there is a hook \<open>_default\<close> and it does not return \<open>false\<close>\<close>

record tstate =
  t_triggered :: "jstr option"
  t_inline :: "nat \<Rightarrow> bool"
  t_stoppers :: "nat list"
  t_natives :: "(nat \<times> jstr option \<times> bool \<times> nat list) list"

section \<open>The event\<close>

text \<open>The event object for a type with namespaces, given as a text\<close>

definition trigger_event :: "jstr \<Rightarrow> ev_node list \<Rightarrow> ('h, 'd) jq_event" where
  "trigger_event s chain =
     (let parts = split_char 46 s;
          namespaces = js_sort str_cmp (tl parts)
      in \<lparr>e_type = (if 46 \<in> set s then parts ! 0 else s), e_button = 0, e_chain = chain,
          e_rnamespace = (if 46 \<in> set s \<and> namespaces \<noteq> [] \<and> namespaces \<noteq> [[]] then Some (ns_rx namespaces) else None),
          isDefaultPrevented = False, isPropagationStopped = False, isImmediatePropagationStopped = False,
          e_result = VUndef, e_log = []\<rparr>)"

section \<open>The path\<close>

definition rfocusMorph :: "jstr \<Rightarrow> bool" where
  "rfocusMorph s \<longleftrightarrow> s = lit ''focusinfocus'' \<or> s = lit ''focusoutblur''"

definition bubble_type :: "tspecial \<Rightarrow> jstr \<Rightarrow> jstr" where
  "bubble_type sp type = (case ts_delegateType sp of Some t \<Rightarrow> t | None \<Rightarrow> type)"

definition bind_type :: "tspecial \<Rightarrow> jstr \<Rightarrow> jstr" where
  "bind_type sp type = (case ts_bindType sp of Some t \<Rightarrow> t | None \<Rightarrow> type)"

definition event_path :: "nat \<Rightarrow> nat \<Rightarrow> tspecial \<Rightarrow> jstr \<Rightarrow> bool \<Rightarrow> nat \<Rightarrow> nat list \<Rightarrow> nat list" where
  "event_path document window sp type onlyHandlers elem parents =
     (if \<not> onlyHandlers \<and> \<not> ts_noBubble sp \<and> elem \<noteq> window then
        let above = (if rfocusMorph (bubble_type sp type @ type) then elem # parents else parents);
            tmp = last (elem # above)
        in elem # above @ (if tmp = document then [window] else [])
      else [elem])"

section \<open>Handlers along the path\<close>

definition has_ontype :: "jstr \<Rightarrow> bool" where
  "has_ontype type \<longleftrightarrow> 58 \<notin> set type"

text \<open>\<open>handle\<close> of the node, which dispatches unless \<open>jQuery.event.triggered\<close> is the type of the event\<close>

definition jq_handle :: "('h, 'd) tenv \<Rightarrow> tstate \<Rightarrow> nat \<Rightarrow> ('h, 'd) jq_event \<Rightarrow> ('h, 'd) jq_event" where
  "jq_handle env st cur e =
     (if ev_handlers (handlers_for (tv_priv env cur) (e_type e)) \<noteq> [] \<and> t_triggered st \<noteq> Some (e_type e)
      then event_dispatch (tv_bails env) (tv_selects env) (tv_call env) cur (tv_priv env cur) e
      else e)"

definition on_handle :: "('h, 'd) tenv \<Rightarrow> tstate \<Rightarrow> jstr \<Rightarrow> nat \<Rightarrow> ('h, 'd) jq_event \<Rightarrow> ('h, 'd) jq_event" where
  "on_handle env st type cur e =
     (if has_ontype type \<and> t_inline st cur \<and> tv_accept env cur then
        case tv_on env cur e of
          (ret, acts) \<Rightarrow>
            let e1 = (fold do_act acts e)\<lparr>e_result := ret\<rparr> in
            if ret = VBool False then preventDefault e1 else e1
      else e)"

text \<open>The loop over the path: \<open>first\<close> is the type at the target, \<open>then_type\<close> that of the rest; the result has \<open>lastElement\<close>.\<close>

fun fire_path ::
  "('h, 'd) tenv \<Rightarrow> tstate \<Rightarrow> jstr \<Rightarrow> jstr \<Rightarrow> jstr \<Rightarrow> nat list \<Rightarrow> nat \<Rightarrow> ('h, 'd) jq_event \<Rightarrow> nat \<times> ('h, 'd) jq_event" where
  "fire_path env st type first_type then_type [] lastElement e = (lastElement, e)"
| "fire_path env st type first_type then_type (cur # rest) lastElement e =
     (if isPropagationStopped e then (lastElement, e)
      else fire_path env st type then_type then_type rest cur
        (on_handle env st type cur (jq_handle env st cur (e\<lparr>e_type := first_type\<rparr>))))"

section \<open>The default action\<close>

definition native_method :: "jstr \<Rightarrow> nat \<Rightarrow> nat \<Rightarrow> bool \<Rightarrow> tstate \<Rightarrow> tstate" where
  "native_method type elem lastElement stopped st =
     (let tmp = t_inline st elem;
          st1 = (if tmp then st\<lparr>t_inline := (t_inline st)(elem := False)\<rparr> else st);
          st2 = st1\<lparr>t_triggered := Some type\<rparr>;
          st3 = (if stopped then st2\<lparr>t_stoppers := (if lastElement \<in> set (t_stoppers st2) then t_stoppers st2 else t_stoppers st2 @ [lastElement])\<rparr> else st2);
          st4 = st3\<lparr>t_natives := t_natives st3 @ [(elem, t_triggered st3, t_inline st3 elem, t_stoppers st3)]\<rparr>;
          st5 = (if stopped then st4\<lparr>t_stoppers := remove1 lastElement (t_stoppers st4)\<rparr> else st4);
          st6 = st5\<lparr>t_triggered := None\<rparr>
      in if tmp then st6\<lparr>t_inline := (t_inline st6)(elem := True)\<rparr> else st6)"

definition default_action ::
  "('h, 'd) tenv \<Rightarrow> tspecial \<Rightarrow> jstr \<Rightarrow> bool \<Rightarrow> nat \<Rightarrow> nat \<Rightarrow> ('h, 'd) jq_event \<Rightarrow> tstate \<Rightarrow> tstate" where
  "default_action env sp type onlyHandlers elem lastElement e st =
     (if \<not> onlyHandlers \<and> \<not> isDefaultPrevented e \<and> \<not> ts_default_blocks sp \<and> tv_accept env elem \<and>
         has_ontype type \<and> tv_method env \<and> elem \<noteq> tv_window env
      then native_method type elem lastElement (isPropagationStopped e) st
      else st)"

text \<open>
  \<open>trigger\<close> for an event given as a text \<open>s\<close>, on the node at the front of \<open>chain\<close>, which is followed by its
  ancestors; \<open>special\<close> is \<open>jQuery.event.special\<close>. The result has \<open>event.result\<close> in the event; it is \<open>None\<close> where
  the call returns before it fires anything.
\<close>

definition event_trigger ::
  "('h, 'd) tenv \<Rightarrow> (jstr \<Rightarrow> tspecial) \<Rightarrow> bool \<Rightarrow> jstr \<Rightarrow> ev_node \<Rightarrow> ev_node list \<Rightarrow> tstate \<Rightarrow> (('h, 'd) jq_event \<times> tstate) option" where
  "event_trigger env special onlyHandlers s node parents st =
     (let elem = n_id node;
          e = trigger_event s (node # parents);
          type = e_type e;
          sp = special type in
      if n_nodeType node = 3 \<or> n_nodeType node = 8 then None
      else if rfocusMorph (s @ (case t_triggered st of Some t \<Rightarrow> t | None \<Rightarrow> lit ''undefined'')) then None
      else if \<not> onlyHandlers \<and> ts_trigger_false sp then None
      else
        case fire_path env st type (bind_type sp type) (bubble_type sp type)
            (event_path (tv_document env) (tv_window env) sp type onlyHandlers elem (map n_id parents)) elem e of
          (lastElement, e1) \<Rightarrow>
            Some (e1\<lparr>e_type := type\<rparr>, default_action env sp type onlyHandlers elem lastElement e1 st))"

section \<open>What handlers leave alone\<close>

definition same_event :: "('h, 'd) jq_event \<Rightarrow> ('h, 'd) jq_event \<Rightarrow> bool" where
  "same_event e e' \<longleftrightarrow> e_chain e' = e_chain e \<and> e_button e' = e_button e \<and> e_rnamespace e' = e_rnamespace e \<and> e_type e' = e_type e"

lemma same_event_refl: "same_event e e"
  by (simp add: same_event_def)

lemma same_event_trans: "same_event a b \<Longrightarrow> same_event b c \<Longrightarrow> same_event a c"
  by (simp add: same_event_def)

lemma do_act_same: "same_event e (do_act a e)"
  by (cases a) (simp_all add: same_event_def preventDefault_def stopPropagation_def stopImmediatePropagation_def)

lemma do_acts_same: "same_event e (fold do_act acts e)"
  by (induction acts arbitrary: e) (auto intro: same_event_refl same_event_trans do_act_same)

lemma do_acts_fields [simp]:
  "e_chain (fold do_act acts e) = e_chain e" "e_button (fold do_act acts e) = e_button e"
  "e_rnamespace (fold do_act acts e) = e_rnamespace e" "e_type (fold do_act acts e) = e_type e"
  using do_acts_same [of e acts] by (simp_all add: same_event_def)

lemma call_handler_same: "same_event e (call_handler call n ho e)"
  by (auto simp: call_handler_def Let_def same_event_def preventDefault_def stopPropagation_def split: prod.splits)

lemma run_handlers_same: "same_event e (run_handlers call n hos e)"
  by (induction call n hos e rule: run_handlers.induct)
    (auto intro: same_event_refl same_event_trans call_handler_same)

lemma run_queue_same: "same_event e (run_queue call q e)"
  by (induction call q e rule: run_queue.induct) (auto intro: same_event_refl same_event_trans run_handlers_same)

lemma run_handlers_stops: "stops_ok e \<Longrightarrow> stops_ok (run_handlers call n hos e)"
  using run_handlers_log [of e call n hos] by blast

lemma run_queue_stops: "stops_ok e \<Longrightarrow> stops_ok (run_queue call q e)"
  by (induction call q e rule: run_queue.induct) (auto simp: run_handlers_stops)

lemma on_handle_keep:
  "e_log (on_handle env st type n e) = e_log e" "same_event e (on_handle env st type n e)"
  "stops_ok e \<Longrightarrow> stops_ok (on_handle env st type n e)"
  using do_acts_keep(4) [of e]
  by (auto simp: on_handle_def Let_def do_acts_keep(1) same_event_def preventDefault_def stops_ok_def split: prod.splits)

text \<open>The calls that a node makes for an event of a type when nothing stops it\<close>

definition node_calls :: "('h, 'd) tenv \<Rightarrow> ('h, 'd) jq_event \<Rightarrow> jstr \<Rightarrow> nat \<Rightarrow> (nat \<times> ('h, 'd) handleObj) list" where
  "node_calls env e t n =
     planned e (event_handlers (tv_selects env) n (e\<lparr>e_type := t\<rparr>) (handlers_for (tv_priv env n) t))"

lemma node_calls_same:
  assumes "e_chain e' = e_chain e" "e_button e' = e_button e" "e_rnamespace e' = e_rnamespace e"
  shows "node_calls env e' = node_calls env e"
proof -
  have "planned e' q = planned e q" for q by (simp add: planned_def accepts_cong [OF assms(3)])
  moreover have "event_handlers sel n (e'\<lparr>e_type := t\<rparr>) l = event_handlers sel n (e\<lparr>e_type := t\<rparr>) l" for sel n t l
  proof -
    have c: "checked_node (e'\<lparr>e_type := t\<rparr>) = checked_node (e\<lparr>e_type := t\<rparr>)" by (simp add: checked_node_def fun_eq_iff)
    have "e_chain (e'\<lparr>e_type := t\<rparr>) = e_chain (e\<lparr>e_type := t\<rparr>)" "e_button (e'\<lparr>e_type := t\<rparr>) = e_button (e\<lparr>e_type := t\<rparr>)"
      "e_type (e'\<lparr>e_type := t\<rparr>) = e_type (e\<lparr>e_type := t\<rparr>)" using assms by simp_all
    then show ?thesis unfolding event_handlers_def c by (simp only:)
  qed
  ultimately show ?thesis by (simp add: node_calls_def fun_eq_iff)
qed

lemma jq_handle_calls:
  assumes "stops_ok e" "\<forall>x. \<not> tv_bails env x" "t_triggered st \<noteq> Some (e_type e)"
  shows "\<exists>xs. e_log (jq_handle env st n e) = e_log e @ xs \<and> prefix xs (node_calls env e (e_type e) n) \<and>
    (\<not> isPropagationStopped (jq_handle env st n e) \<longrightarrow> xs = node_calls env e (e_type e) n) \<and>
    same_event e (jq_handle env st n e) \<and> stops_ok (jq_handle env st n e)"
proof (cases "ev_handlers (handlers_for (tv_priv env n) (e_type e)) = []")
  case True
  let ?l = "handlers_for (tv_priv env n) (e_type e)"
  have "event_handlers (tv_selects env) n e ?l = [] \<or> planned e (event_handlers (tv_selects env) n e ?l) = []"
    using True by (auto simp: event_handlers_def planned_def Let_def concat_eq_Nil_conv)
  then have "node_calls env e (e_type e) n = []" by (auto simp: node_calls_def planned_def)
  with True assms(1) show ?thesis by (auto simp: jq_handle_def same_event_refl)
next
  case False
  let ?q = "event_handlers (tv_selects env) n e (handlers_for (tv_priv env n) (e_type e))"
  have "jq_handle env st n e = run_queue (tv_call env) ?q e"
    using False assms(2,3) by (simp add: jq_handle_def event_dispatch_def)
  with run_queue_log [OF assms(1), of "tv_call env" ?q] run_queue_same [of e "tv_call env" ?q]
    run_queue_stops [OF assms(1), of "tv_call env" ?q] show ?thesis
    by (auto simp: node_calls_def)
qed

section \<open>The order of handlers and the default action\<close>

lemma do_acts_stopped: "isPropagationStopped e \<Longrightarrow> isPropagationStopped (fold do_act acts e)"
  by (rule do_acts_keep(3))

lemma inline_stop: "isPropagationStopped e \<Longrightarrow> isPropagationStopped (on_handle env st type n e)"
  by (auto simp: on_handle_def Let_def preventDefault_def do_acts_stopped split: prod.splits)

text \<open>The calls along a path when nothing stops them\<close>

fun path_calls :: "('h, 'd) tenv \<Rightarrow> ('h, 'd) jq_event \<Rightarrow> jstr \<Rightarrow> jstr \<Rightarrow> nat list \<Rightarrow> (nat \<times> ('h, 'd) handleObj) list" where
  "path_calls env e first_type then_type [] = []"
| "path_calls env e first_type then_type (n # ns) = node_calls env e first_type n @ concat (map (node_calls env e then_type) ns)"

lemma path_calls_same:
  "path_calls env e t t ns = concat (map (node_calls env e t) ns)"
  by (cases ns) simp_all

lemma fire_path_calls:
  assumes "stops_ok e" "\<forall>x. \<not> tv_bails env x" "t_triggered st \<noteq> Some t1" "t_triggered st \<noteq> Some t2"
  shows "\<exists>xs. e_log (snd (fire_path env st type t1 t2 path l e)) = e_log e @ xs \<and> prefix xs (path_calls env e t1 t2 path) \<and>
    (\<not> isPropagationStopped (snd (fire_path env st type t1 t2 path l e)) \<longrightarrow> xs = path_calls env e t1 t2 path)"
  using assms(1,3)
proof (induction path arbitrary: e l t1)
  case (Cons n path)
  show ?case
  proof (cases "isPropagationStopped e")
    case False
    let ?e1 = "jq_handle env st n (e\<lparr>e_type := t1\<rparr>)"
    let ?e2 = "on_handle env st type n ?e1"
    have s: "stops_ok (e\<lparr>e_type := t1\<rparr>)" using Cons.prems(1) by (simp add: stops_ok_def)
    have nc: "node_calls env (e\<lparr>e_type := t1\<rparr>) = node_calls env e" by (rule node_calls_same) simp_all
    from jq_handle_calls [OF s assms(2), of st n] Cons.prems(2) nc obtain xs where
      xs: "e_log ?e1 = e_log e @ xs" "prefix xs (node_calls env e t1 n)"
      "\<not> isPropagationStopped ?e1 \<longrightarrow> xs = node_calls env e t1 n" "same_event (e\<lparr>e_type := t1\<rparr>) ?e1" "stops_ok ?e1" by auto
    have same: "same_event (e\<lparr>e_type := t1\<rparr>) ?e2" using xs(4) on_handle_keep(2) same_event_trans by blast
    then have nc2: "node_calls env ?e2 = node_calls env e" by (intro node_calls_same) (simp_all add: same_event_def)
    from Cons.IH [OF on_handle_keep(3) [OF xs(5)] assms(4)] obtain ys where
      ys: "e_log (snd (fire_path env st type t2 t2 path n ?e2)) = e_log ?e2 @ ys" "prefix ys (path_calls env ?e2 t2 t2 path)"
      "\<not> isPropagationStopped (snd (fire_path env st type t2 t2 path n ?e2)) \<longrightarrow> ys = path_calls env ?e2 t2 t2 path" by blast
    have rest: "path_calls env ?e2 t2 t2 path = concat (map (node_calls env e t2) path)" by (simp add: path_calls_same nc2)
    show ?thesis
    proof (cases "isPropagationStopped ?e2")
      case True
      then have f: "fire_path env st type t2 t2 path n ?e2 = (n, ?e2)" by (cases path) simp_all
      from xs(2) have "prefix xs (path_calls env e t1 t2 (n # path))" by (auto simp: prefix_def)
      with False True f xs(1) show ?thesis by (auto simp: on_handle_keep(1))
    next
      case go: False
      have "\<not> isPropagationStopped ?e1" using go inline_stop by blast
      with xs(3) have "xs = node_calls env e t1 n" by blast
      with False ys xs(1) rest show ?thesis by (intro exI [of _ "xs @ ys"]) (auto simp: on_handle_keep(1))
    qed
  qed (auto intro: exI [of _ "[]"])
qed simp

lemma not_focus: "\<not> rfocusMorph (s @ lit ''undefined'')"
proof
  assume "rfocusMorph (s @ lit ''undefined'')"
  then have "last (s @ lit ''undefined'') \<in> {last (lit ''focusinfocus''), last (lit ''focusoutblur'')}"
    unfolding rfocusMorph_def by auto
  then show False by (simp add: lit_def)
qed

lemma trigger_event_stops: "stops_ok (trigger_event s chain)" "e_log (trigger_event s chain) = []"
  by (simp_all add: trigger_event_def stops_ok_def Let_def)

lemma default_action_state:
  assumes "t_stoppers st = []" "t_triggered st = None"
  shows "t_triggered (default_action env sp type only elem l e st) = None"
    "t_inline (default_action env sp type only elem l e st) = t_inline st"
    "t_stoppers (default_action env sp type only elem l e st) = []"
    "t_natives (default_action env sp type only elem l e st) = t_natives st @
      (if \<not> only \<and> \<not> isDefaultPrevented e \<and> \<not> ts_default_blocks sp \<and> tv_accept env elem \<and>
          has_ontype type \<and> tv_method env \<and> elem \<noteq> tv_window env
       then [(elem, Some type, False, if isPropagationStopped e then [l] else [])] else [])"
  using assms by (simp_all add: default_action_def native_method_def Let_def fun_upd_idem)

text \<open>The calls that fire nothing\<close>

lemma event_trigger_none:
  "event_trigger env special onlyHandlers s node parents st = None \<longleftrightarrow>
    n_nodeType node \<in> {3, 8} \<or>
    rfocusMorph (s @ (case t_triggered st of Some t \<Rightarrow> t | None \<Rightarrow> lit ''undefined'')) \<or>
    \<not> onlyHandlers \<and> ts_trigger_false (special (e_type (trigger_event s (node # parents) :: ('h, 'd) jq_event)))"
  for env :: "('h, 'd) tenv"
  by (auto simp: event_trigger_def Let_def split: prod.splits)

section \<open>Properties\<close>


text \<open>A click on a link below the document whose handlers are those of the dispatch example\<close>

definition click_env :: "(nat, unit) tenv" where
  "click_env = \<lparr>tv_priv = (\<lambda>n. if n = 3 then Some [(lit ''events'', PEvents [(lit ''click'', click_list)])] else None),
     tv_on = (\<lambda>_ _. (VUndef, [])), tv_accept = (\<lambda>_. True), tv_method = True, tv_document = 3, tv_window = 0,
     tv_selects = (\<lambda>sel _ n. sel = lit ''a '' \<and> n_id n = 7), tv_call = (\<lambda>_ _ _. (VUndef, [])), tv_bails = (\<lambda>_. False)\<rparr>"

definition plain_special :: tspecial where
  "plain_special = \<lparr>ts_delegateType = None, ts_bindType = None, ts_noBubble = False, ts_trigger_false = False, ts_default_blocks = False\<rparr>"

definition quiet :: tstate where
  "quiet = \<lparr>t_triggered = None, t_inline = (\<lambda>n. n = 7), t_stoppers = [], t_natives = []\<rparr>"


end
