(* ===== verification/JQ_Dom.thy ===== *)
theory JQ_Dom
  imports Underscore_Core "HOL-Library.List_Lexorder"
begin

text \<open>
  The part of the DOM that the selector engine of \<open>jquery-3.5.1.js\<close> (Sizzle) reads, and its functions on
  the tree: the walks along a property of a node, \<open>contains\<close>, \<open>siblingCheck\<close>, the order of the document
  and \<open>uniqueSort\<close>, \<open>getText\<close>.

  A forest holds the documents and the detached trees; a node is addressed by the number of its tree
  and the path from the root, so that two nodes are the same object exactly when their addresses are
  equal. The tree does not change while a selector is evaluated. \<open>sourceIndex\<close>, a property of old
  versions of Internet Explorer, is undefined.
\<close>

section \<open>Nodes\<close>

record ninfo =
  el_type :: int
  el_name :: jstr
  el_value :: jstr
  el_attrs :: "(jstr \<times> jstr) list"
  el_disabled :: "bool option"     \<comment> \<open>\<open>elem.disabled\<close>, \<open>None\<close> when undefined\<close>
  el_checked :: bool
  el_selected :: bool
  el_kind :: jstr                  \<comment> \<open>\<open>elem.type\<close>\<close>
  el_form :: bool                  \<comment> \<open>\<open>"form" in elem\<close>\<close>
  el_label :: bool                 \<comment> \<open>\<open>"label" in elem\<close>\<close>

datatype node = Node (info: ninfo) (kids: "node list")

type_synonym addr = "nat list"

fun node_at :: "node list \<Rightarrow> addr \<Rightarrow> node option" where
  "node_at ts [] = None"
| "node_at ts [i] = (if i < length ts then Some (ts ! i) else None)"
| "node_at ts (i # p) = (if i < length ts then node_at (kids (ts ! i)) p else None)"

definition valid :: "node list \<Rightarrow> addr \<Rightarrow> bool" where
  "valid ts a \<longleftrightarrow> node_at ts a \<noteq> None"

definition no_info :: ninfo where
  "no_info = \<lparr>el_type = 0, el_name = [], el_value = [], el_attrs = [], el_disabled = None, el_checked = False,
     el_selected = False, el_kind = [], el_form = False, el_label = False\<rparr>"

definition info_at :: "node list \<Rightarrow> addr \<Rightarrow> ninfo" where
  "info_at ts a = (case node_at ts a of Some n \<Rightarrow> info n | None \<Rightarrow> no_info)"

definition n_kids :: "node list \<Rightarrow> addr \<Rightarrow> nat" where
  "n_kids ts a = (case node_at ts a of Some n \<Rightarrow> length (kids n) | None \<Rightarrow> 0)"

datatype dir = ParentNode | PreviousSibling | NextSibling

definition step :: "node list \<Rightarrow> dir \<Rightarrow> addr \<Rightarrow> addr option" where
  "step ts d a =
     (if length a \<le> 1 then None
      else
        case d of
          ParentNode \<Rightarrow> Some (butlast a)
        | PreviousSibling \<Rightarrow> if 0 < last a then Some (butlast a @ [last a - 1]) else None
        | NextSibling \<Rightarrow> if Suc (last a) < n_kids ts (butlast a) then Some (butlast a @ [Suc (last a)]) else None)"

text \<open>The nodes that \<open>while ( ( elem = elem[ dir ] ) )\<close> visits.\<close>

function walk :: "node list \<Rightarrow> dir \<Rightarrow> addr \<Rightarrow> addr list" where
  "walk ts d a = (case step ts d a of None \<Rightarrow> [] | Some b \<Rightarrow> b # walk ts d b)"
  by pat_completeness auto
termination
  by (relation "measure (\<lambda>(ts, d, a). case d of ParentNode \<Rightarrow> length a | PreviousSibling \<Rightarrow> last a
      | NextSibling \<Rightarrow> n_kids ts (butlast a) - last a)")
    (auto simp: step_def split: if_splits dir.splits)

declare walk.simps [simp del]

definition parentNode :: "addr \<Rightarrow> addr option" where
  "parentNode a = step [] ParentNode a"

definition childNodes :: "node list \<Rightarrow> addr \<Rightarrow> addr list" where
  "childNodes ts a = map (\<lambda>i. a @ [i]) [0..<n_kids ts a]"

section \<open>Text\<close>

text \<open>The branch of \<open>getText\<close> for nodes without \<open>textContent\<close>.\<close>

fun getText :: "node \<Rightarrow> jstr" where
  "getText (Node i ks) =
     (if el_type i = 1 \<or> el_type i = 9 \<or> el_type i = 11 then concat (map getText ks)
      else if el_type i = 3 \<or> el_type i = 4 then el_value i
      else [])"

section \<open>Order\<close>

definition siblingCheck :: "node list \<Rightarrow> addr option \<Rightarrow> addr option \<Rightarrow> int" where
  "siblingCheck ts a b =
     (case (a, b) of
        (Some x, Some y) \<Rightarrow> if y \<in> set (walk ts NextSibling x) then - 1 else 1
      | (Some x, None) \<Rightarrow> 1
      | (None, _) \<Rightarrow> - 1)"

text \<open>\<open>while ( ap[ i ] === bp[ i ] ) i++\<close>, for different nodes\<close>

fun common :: "addr list \<Rightarrow> addr list \<Rightarrow> nat" where
  "common (x # xs) (y # ys) = (if x = y then Suc (common xs ys) else 0)"
| "common _ _ = 0"

definition at :: "'a list \<Rightarrow> nat \<Rightarrow> 'a option" where
  "at xs i = (if i < length xs then Some (xs ! i) else None)"

fun index_in :: "'a list \<Rightarrow> 'a \<Rightarrow> int" where
  "index_in [] x = - 1"
| "index_in (y # ys) x = (if y = x then 0 else if index_in ys x = - 1 then - 1 else index_in ys x + 1)"

definition ancestry :: "node list \<Rightarrow> addr \<Rightarrow> addr list" where
  "ancestry ts a = rev (walk ts ParentNode a) @ [a]"

text \<open>
  \<open>sortOrder\<close> for browsers without \<open>compareDocumentPosition\<close>; \<open>document\<close> and \<open>preferredDoc\<close> are addresses,
  \<open>sortInput\<close> the array before sorting, \<open>None\<close> when sorting is stable.
\<close>

definition sortOrder :: "node list \<Rightarrow> addr \<Rightarrow> addr \<Rightarrow> addr list option \<Rightarrow> addr \<Rightarrow> addr \<Rightarrow> int" where
  "sortOrder ts document preferredDoc sortInput a b =
     (if a = b then 0
      else
        let aup = parentNode a; bup = parentNode b in
        if aup = None \<or> bup = None then
          if a = document then - 1 else if b = document then 1 else if aup \<noteq> None then - 1 else if bup \<noteq> None then 1
          else (case sortInput of Some xs \<Rightarrow> index_in xs a - index_in xs b | None \<Rightarrow> 0)
        else if aup = bup then siblingCheck ts (Some a) (Some b)
        else
          let ap = ancestry ts a; bp = ancestry ts b; i = common ap bp in
          if i \<noteq> 0 then siblingCheck ts (at ap i) (at bp i)
          else if at ap i = Some preferredDoc then - 1 else if at bp i = Some preferredDoc then 1 else 0)"

text \<open>
  \<open>sortOrder\<close> for the others. \<open>compare\<close> is \<open>compareDocumentPosition\<close>, \<open>inside a\<close> says that \<open>a\<close> belongs to the
  preferred document and is contained in it, \<open>same_doc\<close> that two nodes have the same owner document;
  \<open>sortDetached\<close> is the support flag. Both arguments have the method.
\<close>

definition sortOrder_native ::
  "(addr \<Rightarrow> addr \<Rightarrow> int) \<Rightarrow> (addr \<Rightarrow> addr \<Rightarrow> bool) \<Rightarrow> (addr \<Rightarrow> bool) \<Rightarrow> bool \<Rightarrow> addr \<Rightarrow> addr list option \<Rightarrow>
   addr \<Rightarrow> addr \<Rightarrow> int" where
  "sortOrder_native compare same_doc inside sortDetached document sortInput a b =
     (if a = b then 0
      else
        let c = (if same_doc a b then compare a b else 1) in
        if odd c \<or> \<not> sortDetached \<and> compare b a = c then
          if a = document \<or> inside a then - 1
          else if b = document \<or> inside b then 1
          else (case sortInput of Some xs \<Rightarrow> index_in xs a - index_in xs b | None \<Rightarrow> 0)
        else if bit c 2 then - 1 else 1)"

text \<open>
  \<open>uniqueSort\<close>: the engine's sort, then the positions of elements that equal their successor, which are
  removed from the last one on. \<open>detects\<close> is \<open>support.detectDuplicates\<close>: the sort compares equal elements,
  if there are any.
\<close>

fun dup_positions :: "nat \<Rightarrow> 'a list \<Rightarrow> nat list" where
  "dup_positions i (x # y # ys) = (if x = y then Suc i # dup_positions (Suc i) (y # ys) else dup_positions (Suc i) (y # ys))"
| "dup_positions i _ = []"

definition splice_one :: "'a list \<Rightarrow> nat \<Rightarrow> 'a list" where
  "splice_one xs i = take i xs @ drop (Suc i) xs"

definition uniqueSort :: "bool \<Rightarrow> ('a \<Rightarrow> 'a \<Rightarrow> int) \<Rightarrow> 'a list \<Rightarrow> 'a list" where
  "uniqueSort detects cmp results =
     (let hasDuplicate = (\<not> detects \<or> \<not> distinct results);
          rs = js_sort cmp results
      in if hasDuplicate then foldl splice_one rs (rev (dup_positions 0 rs)) else rs)"

text \<open>\<open>contains\<close> without and with the browser's method, which also says that a node contains itself.\<close>

definition contains_walk :: "node list \<Rightarrow> addr \<Rightarrow> addr \<Rightarrow> bool" where
  "contains_walk ts a b = list_ex (\<lambda>c. c = a) (walk ts ParentNode b)"

definition contains_native :: "(addr \<Rightarrow> addr \<Rightarrow> bool) \<Rightarrow> node list \<Rightarrow> addr \<Rightarrow> addr \<Rightarrow> addr \<Rightarrow> bool" where
  "contains_native method ts documentElement a b =
     (let adown = (if el_type (info_at ts a) = 9 then documentElement else a) in
      case parentNode b of
        None \<Rightarrow> False
      | Some bup \<Rightarrow> a = bup \<or> el_type (info_at ts bup) = 1 \<and> method adown bup)"

section \<open>Walks\<close>

lemma walk_None: "step ts d a = None \<Longrightarrow> walk ts d a = []"
  and walk_Some: "step ts d a = Some b \<Longrightarrow> walk ts d a = b # walk ts d b"
  by (simp_all add: walk.simps [of ts d a])

lemma walk_parents: "walk ts ParentNode a = map (\<lambda>i. take i a) (rev [1..<length a])"
proof (induction a rule: rev_induct)
  case (snoc x a)
  show ?case
  proof (cases "a = []")
    case False
    have "step ts ParentNode (a @ [x]) = Some a" using False by (cases a) (simp_all add: step_def)
    moreover have "rev [1..<length (a @ [x])] = length a # rev [1..<length a]" using False by (cases a) simp_all
    ultimately show ?thesis using snoc by (simp add: walk_Some)
  qed (simp add: walk_None step_def)
qed (simp add: walk_None step_def)

lemma walk_next:
  "walk ts NextSibling (p @ [i]) = (if p = [] then [] else map (\<lambda>j. p @ [j]) [Suc i..<n_kids ts p])"
proof (cases "p = []")
  case False
  have "walk ts NextSibling (p @ [i]) = map (\<lambda>j. p @ [j]) [Suc i..<n_kids ts p]"
  proof (induction "n_kids ts p - i" arbitrary: i)
    case 0
    with False show ?case by (simp add: walk_None step_def Suc_le_eq)
  next
    case (Suc n)
    show ?case
    proof (cases "Suc i < n_kids ts p")
      case True
      with False have "step ts NextSibling (p @ [i]) = Some (p @ [Suc i])" by (cases p) (simp_all add: step_def)
      with True Suc.hyps(1) [of "Suc i"] Suc.hyps(2) show ?thesis
        by (simp add: walk_Some upt_conv_Cons)
    next
      case other: False
      then show ?thesis by (simp add: walk_None step_def)
    qed
  qed
  with False show ?thesis by simp
qed (simp add: walk_None step_def)

lemma walk_previous:
  "walk ts PreviousSibling (p @ [i]) = (if p = [] then [] else map (\<lambda>j. p @ [j]) (rev [0..<i]))"
proof (induction i)
  case (Suc i)
  then show ?case by (cases p) (simp_all add: walk_None walk_Some step_def)
qed (simp add: walk_None step_def)

lemma contains_walk_prefix: "a \<noteq> [] \<Longrightarrow> contains_walk ts a b \<longleftrightarrow> strict_prefix a b"
proof
  assume a: "a \<noteq> []" and "strict_prefix a b"
  then have "a = take (length a) b" "length a < length b" "1 \<le> length a"
    by (auto simp: strict_prefix_def prefix_def Suc_le_eq)
  then have "\<exists>i \<in> {1..<length b}. a = take i b" by force
  then show "contains_walk ts a b" by (auto simp: contains_walk_def walk_parents list_ex_iff)
next
  assume "contains_walk ts a b"
  then obtain i where "a = take i b" "i < length b" by (auto simp: contains_walk_def walk_parents list_ex_iff)
  then show "strict_prefix a b" by (auto simp: strict_prefix_def take_is_prefix)
qed

lemma contains_native_prefix:
  assumes "\<And>c d. method c d \<longleftrightarrow> prefix c d" "a \<noteq> []" "el_type (info_at ts a) = 1"
    and "\<And>c. strict_prefix a c \<Longrightarrow> strict_prefix c b \<Longrightarrow> el_type (info_at ts c) = 1"
  shows "contains_native method ts e a b \<longleftrightarrow> strict_prefix a b"
proof (cases "length b \<le> 1")
  case True
  then have "\<not> strict_prefix a b" using assms(2) by (cases a) (auto simp: strict_prefix_def prefix_def)
  with True show ?thesis by (simp add: contains_native_def parentNode_def step_def Let_def)
next
  case False
  then have p: "parentNode b = Some (butlast b)" "b = butlast b @ [last b]" by (cases b; simp add: parentNode_def step_def)+
  have "strict_prefix a (butlast b @ [last b]) \<longleftrightarrow> prefix a (butlast b)"
    by (auto simp: strict_prefix_def dest: prefix_length_le)
  with p(2) have sp: "strict_prefix a b \<longleftrightarrow> prefix a (butlast b)" by simp
  have el: "el_type (info_at ts (butlast b)) = 1" if "prefix a (butlast b)" "a \<noteq> butlast b"
  proof (rule assms(4))
    show "strict_prefix a (butlast b)" using that by (simp add: strict_prefix_def)
    show "strict_prefix (butlast b) b" using p(2) by (metis append_self_conv not_Cons_self2 prefixI strict_prefix_def)
  qed
  show ?thesis
    unfolding sp using assms(1,3) p(1) el by (auto simp: contains_native_def Let_def)
qed

section \<open>The order of the document\<close>

lemma node_at_append:
  "p \<noteq> [] \<Longrightarrow> q \<noteq> [] \<Longrightarrow> node_at ts (p @ q) = (case node_at ts p of None \<Rightarrow> None | Some n \<Rightarrow> node_at (kids n) q)"
proof (induction ts p rule: node_at.induct)
  case (2 ts i)
  then show ?case by (cases q) simp_all
qed simp_all

lemma valid_prefix: "valid ts (p @ q) \<Longrightarrow> p \<noteq> [] \<Longrightarrow> valid ts p"
  by (cases "q = []") (auto simp: valid_def node_at_append split: option.splits)

lemma valid_snoc: "p \<noteq> [] \<Longrightarrow> valid ts (p @ [i]) \<longleftrightarrow> i < n_kids ts p"
  by (auto simp: valid_def node_at_append n_kids_def split: option.splits)

lemma valid_child: "valid ts (p @ i # q) \<Longrightarrow> p \<noteq> [] \<Longrightarrow> i < n_kids ts p"
  using valid_prefix [of ts "p @ [i]" q] by (simp add: valid_snoc)

lemma ancestry_prefixes: "a \<noteq> [] \<Longrightarrow> ancestry ts a = map (\<lambda>i. take i a) [1..<Suc (length a)]"
  by (cases a) (simp_all add: ancestry_def walk_parents rev_map)

lemma common_append: "common (zs @ xs) (zs @ ys) = length zs + common xs ys"
  by (induction zs) simp_all

lemma common_prefix: "common zs zs = length zs" "common (zs @ xs) zs = length zs" "common zs (zs @ ys) = length zs"
  by (induction zs) simp_all

lemma common_diff: "xs = [] \<or> ys = [] \<or> xs ! 0 \<noteq> ys ! 0 \<Longrightarrow> common xs ys = 0"
  by (cases xs; cases ys) auto

lemma ancestry_append:
  "c \<noteq> [] \<Longrightarrow> ancestry ts (c @ a) = ancestry ts c @ map (\<lambda>i. c @ take (Suc i) a) [0..<length a]"
proof -
  assume c: "c \<noteq> []"
  have "[1..<Suc (length (c @ a))] = [1..<Suc (length c)] @ map (\<lambda>i. i + Suc (length c)) [0..<length a]"
    using upt_add_eq_append [of 1 "Suc (length c)" "length a"] map_add_upt [of "Suc (length c)" "length a"]
    by (simp add: add.commute del: upt_Suc)
  with c show ?thesis by (simp add: ancestry_prefixes del: upt_Suc)
qed

lemma length_ancestry: "c \<noteq> [] \<Longrightarrow> length (ancestry ts c) = length c"
  by (simp add: ancestry_prefixes del: upt_Suc)

lemma ancestry_split:
  assumes "c \<noteq> []" "a = [] \<or> b = [] \<or> a ! 0 \<noteq> b ! 0"
  shows "common (ancestry ts (c @ a)) (ancestry ts (c @ b)) = length c"
    and "at (ancestry ts (c @ a)) (length c) = (if a = [] then None else Some (c @ [a ! 0]))"
proof -
  show "common (ancestry ts (c @ a)) (ancestry ts (c @ b)) = length c"
    using assms by (cases a; cases b) (simp_all add: ancestry_append common_append common_prefix length_ancestry common_diff del: upt_Suc)
  show "at (ancestry ts (c @ a)) (length c) = (if a = [] then None else Some (c @ [a ! 0]))"
    using assms(1) by (cases a) (simp_all add: at_def ancestry_append length_ancestry nth_append del: upt_Suc)
qed

lemma siblingCheck_index:
  assumes "p \<noteq> []" "x \<noteq> y" "y < n_kids ts p"
  shows "siblingCheck ts (Some (p @ [x])) (Some (p @ [y])) = (if x < y then - 1 else 1)"
  using assms by (auto simp: siblingCheck_def walk_next)

text \<open>Two addresses of one tree part at the end of a common path.\<close>

lemma addr_split:
  assumes "a \<noteq> []" "b \<noteq> []" "a ! 0 = b ! 0"
  obtains c a' b' where "c \<noteq> []" "a = c @ a'" "b = c @ b'" "a' = [] \<or> b' = [] \<or> a' ! 0 \<noteq> b' ! 0"
proof -
  from longest_common_prefix [of a b] obtain c a' b' where
    c: "a = c @ a'" "b = c @ b'" "a' = [] \<or> b' = [] \<or> hd a' \<noteq> hd b'" by blast
  have "c \<noteq> []" using c assms by (cases a'; cases b') auto
  with c that show ?thesis by (cases a'; cases b') auto
qed

lemma less_addr_split:
  "a = [] \<or> b = [] \<or> a ! 0 \<noteq> b ! 0 \<Longrightarrow>
   c @ a < c @ (b :: addr) \<longleftrightarrow> (if a = [] then b \<noteq> [] else b \<noteq> [] \<and> a ! 0 < b ! 0)"
  by (induction c) (cases a; cases b; auto)+

lemma sortOrder_document:
  assumes "valid ts a" "valid ts b" "a ! 0 = r" "b ! 0 = r"
  shows "sortOrder ts [r] pref inp a b = (if a = b then 0 else if a < b then - 1 else 1)"
proof (cases "a = b")
  case False
  have ne: "a \<noteq> []" "b \<noteq> []" using assms(1,2) by (auto simp: valid_def)
  from addr_split [of a b] ne assms(3,4) obtain c a' b' where
    c: "c \<noteq> []" "a = c @ a'" "b = c @ b'" and d: "a' = [] \<or> b' = [] \<or> a' ! 0 \<noteq> b' ! 0" by auto
  have root: "parentNode x = None \<longleftrightarrow> x = [r]" if "x \<noteq> []" "x ! 0 = r" for x
    using that by (cases x rule: rev_cases) (auto simp: parentNode_def step_def nth_append neq_Nil_conv)
  show ?thesis
  proof (cases "a = [r] \<or> b = [r]")
    case True
    then show ?thesis using False ne assms(3,4) root
      by (cases a; cases b) (auto simp: sortOrder_def neq_Nil_conv)
  next
    case nr: False
    have up: "parentNode a = Some (butlast a)" "parentNode b = Some (butlast b)"
      using nr root [of a] root [of b] ne assms(3,4) by (auto simp: parentNode_def step_def split: if_splits)
    have same: "length a' = 1 \<and> length b' = 1" if e: "butlast a = butlast b"
    proof -
      have "length a - 1 = length b - 1" "0 < length a" "0 < length b" using arg_cong [OF e, of length] ne by simp_all
      then have "length a = length b" by linarith
      then have "length a' = length b'" using c by simp
      moreover have "a' \<noteq> []" using calculation c False by auto
      moreover have "\<not> 1 < length a'"
      proof
        assume "1 < length a'"
        with \<open>length a' = length b'\<close> obtain x u y v where "a' = x # u" "b' = y # v" "u \<noteq> []" "v \<noteq> []"
          by (cases a'; cases b') fastforce+
        with e c d show False by (simp add: butlast_append)
      qed
      ultimately show ?thesis by (cases a') auto
    qed
    have s: "sortOrder ts [r] pref inp a b =
        siblingCheck ts (if a' = [] then None else Some (c @ [a' ! 0])) (if b' = [] then None else Some (c @ [b' ! 0]))"
    proof (cases "butlast a = butlast b")
      case True
      from same [OF this] c have "a = c @ [a' ! 0]" "b = c @ [b' ! 0]" "a' \<noteq> []" "b' \<noteq> []"
        by (auto simp: length_Suc_conv)
      with True up False show ?thesis by (simp add: sortOrder_def)
    next
      case other: False
      have d': "b' = [] \<or> a' = [] \<or> b' ! 0 \<noteq> a' ! 0" using d by auto
      have "length c \<noteq> 0" using c(1) by simp
      with other up False c ancestry_split [OF c(1) d, of ts] ancestry_split(2) [OF c(1) d', of ts] show ?thesis
        by (simp add: sortOrder_def Let_def)
    qed
    have bk: "b' \<noteq> [] \<Longrightarrow> b' ! 0 < n_kids ts c" using valid_child [of ts c "b' ! 0" "tl b'"] assms(2) c by (cases b') auto
    have ab: "a' \<noteq> [] \<or> b' \<noteq> []" using False c by auto
    have "siblingCheck ts (if a' = [] then None else Some (c @ [a' ! 0])) (if b' = [] then None else Some (c @ [b' ! 0])) =
        (if a < b then - 1 else 1)"
    proof (cases "a' = [] \<or> b' = []")
      case True
      then show ?thesis using ab less_addr_split [OF d, of c] c(2,3) by (auto simp: siblingCheck_def)
    next
      case both: False
      with d siblingCheck_index [OF c(1) _ bk, of "a' ! 0"] less_addr_split [OF d, of c] c(2,3) show ?thesis by simp
    qed
    with s False show ?thesis by simp
  qed
qed (simp add: sortOrder_def)

text \<open>Nodes of the tree with number \<open>r\<close>, whose root is the document.\<close>

definition in_tree :: "node list \<Rightarrow> nat \<Rightarrow> addr \<Rightarrow> bool" where
  "in_tree ts r a \<longleftrightarrow> valid ts a \<and> a ! 0 = r"

lemma sortOrder_le: "in_tree ts r a \<Longrightarrow> in_tree ts r b \<Longrightarrow> sortOrder ts [r] pref inp a b \<le> 0 \<longleftrightarrow> a \<le> b"
  by (auto simp: in_tree_def sortOrder_document)

interpretation doc_order: comparator "sortOrder ts [r] pref inp" "in_tree ts r" for ts r pref inp
proof
  fix x y z
  assume "in_tree ts r x" "in_tree ts r y"
  then show "0 \<le> sortOrder ts [r] pref inp x y \<longleftrightarrow> sortOrder ts [r] pref inp y x \<le> 0"
    by (auto simp: in_tree_def sortOrder_document)
next
  fix x y z
  assume "in_tree ts r x" "in_tree ts r y" "in_tree ts r z"
    "sortOrder ts [r] pref inp x y \<le> 0" "sortOrder ts [r] pref inp y z \<le> 0"
  then show "sortOrder ts [r] pref inp x z \<le> 0" by (auto simp: sortOrder_le)
qed

text \<open>With \<open>compareDocumentPosition\<close> as the DOM standard defines it for nodes of one tree.\<close>

lemma sortOrder_native_document:
  assumes "same_doc a b" "a \<noteq> b \<Longrightarrow> \<not> odd (compare a b) \<and> (bit (compare a b) 2 \<longleftrightarrow> a < b)"
    and "a \<noteq> b \<Longrightarrow> compare b a \<noteq> compare a b"
  shows "sortOrder_native compare same_doc inside sd document inp a b = (if a = b then 0 else if a < b then - 1 else 1)"
  using assms by (auto simp: sortOrder_native_def)

section \<open>Sorting without repeats\<close>

lemma dup_positions_Suc: "dup_positions (Suc i) xs = map Suc (dup_positions i xs)"
  by (induction i xs rule: dup_positions.induct) simp_all

lemma foldl_splice_Suc: "foldl splice_one (x # xs) (map Suc ps) = x # foldl splice_one xs ps"
  by (induction ps arbitrary: xs) (simp_all add: splice_one_def)

lemma splice_duplicates: "foldl splice_one xs (rev (dup_positions 0 xs)) = remdups_adj xs"
proof (induction xs rule: remdups_adj.induct)
  case (3 x y xs)
  have d: "foldl splice_one (x # y # xs) (rev (dup_positions (Suc 0) (y # xs))) =
      x # foldl splice_one (y # xs) (rev (dup_positions 0 (y # xs)))"
    by (simp only: dup_positions_Suc rev_map foldl_splice_Suc)
  show ?case
  proof (cases "x = y")
    case True
    obtain t where t: "remdups_adj (y # xs) = y # t" by (cases "remdups_adj (y # xs)") (simp_all add: remdups_adj_Cons split: list.splits if_splits)
    have "foldl splice_one (x # y # xs) (rev (dup_positions 0 (x # y # xs))) = splice_one (x # remdups_adj (y # xs)) 1"
      using True d 3(1) by simp
    also have "\<dots> = remdups_adj (x # y # xs)" using t True by (simp add: splice_one_def)
    finally show ?thesis .
  next
    case False
    with d 3(2) show ?thesis by simp
  qed
qed simp_all

lemma remdups_adj_sorted_set:
  "sorted (xs :: 'a :: linorder list) \<Longrightarrow> remdups_adj xs = sorted_list_of_set (set xs)"
proof -
  assume "sorted xs"
  then have "sorted (remdups_adj xs)" "distinct (remdups_adj xs)"
    by (induction xs rule: remdups_adj.induct) (auto split: if_splits)
  then show ?thesis by (metis remdups_adj_set sorted_list_of_set.idem_if_sorted_distinct)
qed

lemma uniqueSort_in_tree:
  assumes "\<forall>a \<in> set results. valid ts a \<and> a ! 0 = r"
  shows "uniqueSort detects (sortOrder ts [r] pref inp) results = sorted_list_of_set (set results)"
proof -
  let ?s = "js_sort (sortOrder ts [r] pref inp) results"
  have dom: "list_all (in_tree ts r) results" using assms by (simp add: list_all_iff in_tree_def)
  have mset: "mset ?s = mset results" by (rule doc_order.mset_js_sort)
  then have set: "set ?s = set results" by (rule mset_eq_setD)
  have "sorted ?s"
  proof (rule sorted_wrt_mono_rel [OF _ doc_order.sorted_js_sort [OF dom, of pref inp]])
    fix x y
    assume "x \<in> set ?s" "y \<in> set ?s" "sortOrder ts [r] pref inp x y \<le> 0"
    moreover from calculation dom set have "in_tree ts r x" "in_tree ts r y" by (simp_all add: list_all_iff)
    ultimately show "x \<le> y" by (simp add: sortOrder_le)
  qed
  then have "remdups_adj ?s = sorted_list_of_set (set results)" by (simp add: remdups_adj_sorted_set set)
  moreover have "?s = sorted_list_of_set (set results)" if "distinct results"
    using that \<open>sorted ?s\<close> by (metis mset mset_eq_imp_distinct_iff set sorted_list_of_set.idem_if_sorted_distinct)
  ultimately show ?thesis by (simp add: uniqueSort_def splice_duplicates Let_def)
qed



end
