(* ===== verification/JQ_Sel_Text.thy ===== *)
theory JQ_Sel_Text
  imports JS_Regex
begin

text \<open>
  \<open>jquery-3.5.1.js\<close>, the selector engine: the regular expressions of identifiers and white space, CSS
  escapes (\<open>runescape\<close>, \<open>funescape\<close>) and \<open>Sizzle.escape\<close>.
\<close>

unbundle bit_operations_syntax

section \<open>Replacing all matches\<close>

text \<open>
  \<open>s.replace( re, f )\<close> with the global flag: \<open>i\<close> is the position and \<open>s\<close> the rest of the text; \<open>f\<close> gets the
  matched text and the captures. After an empty match one character is copied.
\<close>

function replace_from :: "rx \<Rightarrow> (jstr \<Rightarrow> (nat \<rightharpoonup> jstr) \<Rightarrow> jstr) \<Rightarrow> nat \<Rightarrow> jstr \<Rightarrow> jstr" where
  "replace_from r f i s =
     (case ms r (MS i s []) of
        st # _ \<Rightarrow>
          if length (m_rest st) < length s then
            f (take (length s - length (m_rest st)) s) (map_of (m_caps st)) @ replace_from r f (m_pos st) (m_rest st)
          else f [] (map_of (m_caps st)) @ (case s of [] \<Rightarrow> [] | c # cs \<Rightarrow> c # replace_from r f (Suc i) cs)
      | [] \<Rightarrow> (case s of [] \<Rightarrow> [] | c # cs \<Rightarrow> c # replace_from r f (Suc i) cs))"
  by pat_completeness auto
termination
  by (relation "measure (\<lambda>(r, f, i, s). length s)") auto

declare replace_from.simps [simp del]

definition replace_all :: "rx \<Rightarrow> (jstr \<Rightarrow> (nat \<rightharpoonup> jstr) \<Rightarrow> jstr) \<Rightarrow> jstr \<Rightarrow> jstr" where
  "replace_all r f s = replace_from r f 0 s"

section \<open>Matches of literals and runs\<close>

lemma ms_RLit: "ms (RLit w) st = (if prefix w (m_rest st) then [advance (length w) st] else [])"
proof (induction w arbitrary: st)
  case (Cons c w)
  show ?case
  proof (cases "m_rest st")
    case (Cons d ds)
    have "advance (length w) (advance 1 st) = advance (Suc (length w)) st" using Cons by (simp add: advance_def)
    with Cons Cons.IH [of "advance 1 st"] show ?thesis
      by (cases "w = []") (auto simp: in_class_def advance_def)
  qed (cases "w = []"; simp)
qed (simp add: advance_def)

text \<open>A greedy run of characters of a class takes as many as there are.\<close>

lemma star_set_first:
  assumes "length s \<le> n"
  shows "\<exists>sts. star True [] (ms (RSet neg rs)) n (MS i s caps) =
    MS (i + length (takeWhile (in_class neg rs) s)) (dropWhile (in_class neg rs) s) caps # sts"
  using assms
proof (induction n arbitrary: i s)
  case (Suc n)
  show ?case
  proof (cases "s \<noteq> [] \<and> in_class neg rs (s ! 0)")
    case True
    then obtain c t where s: "s = c # t" "in_class neg rs c" by (cases s) auto
    with Suc.prems have "length t \<le> n" by simp
    from Suc.IH [OF this, of "Suc i"] s show ?thesis by (auto simp: advance_def)
  next
    case False
    then show ?thesis by (cases s) auto
  qed
qed simp

section \<open>Expressions\<close>

definition rx_space :: rx where
  "rx_space = RSet False [(32, 32), (9, 9), (13, 13), (10, 10), (12, 12)]"

definition rx_hex :: rx where
  "rx_hex = RSet False [(48, 57), (97, 102), (65, 70)]"

fun up_to :: "nat \<Rightarrow> rx \<Rightarrow> rx" where
  "up_to 0 r = REmpty"
| "up_to (Suc n) r = ROpt (RSeq r (up_to n r))"

definition rx_hex_escape :: rx where
  "rx_hex_escape = RSeq (RLit [92]) (RSeq rx_hex (RSeq (up_to 5 rx_hex) (ROpt rx_space)))"

definition rx_not_newline :: rx where
  "rx_not_newline = RSet True [(13, 13), (10, 10), (12, 12)]"

definition rx_ident_char :: rx where
  "rx_ident_char =
     RAlts [rx_hex_escape, RSeq (RLit [92]) rx_not_newline,
       RSet False [(48, 57), (65, 90), (95, 95), (97, 122), (45, 45)], RSet True [(0, 127)]]"

definition css_identifier :: rx where
  "css_identifier = RPlus True rx_ident_char"

definition ridentifier :: rx where
  "ridentifier = RSeq RBol (RSeq css_identifier REol)"

definition rwhitespace :: rx where
  "rwhitespace = RPlus True rx_space"

section \<open>Escapes\<close>

definition runescape :: rx where
  "runescape = RAlt rx_hex_escape (RSeq (RLit [92]) (RGroup 1 rx_not_newline))"

definition digit_value :: "int \<Rightarrow> int" where
  "digit_value c = (if c \<le> 57 then c - 48 else if c \<le> 70 then c - 55 else c - 87)"

text \<open>\<open>"0x" + text\<close> as a number: white space at the end is ignored.\<close>

definition hex_number :: "jstr \<Rightarrow> int" where
  "hex_number t = foldl (\<lambda>n c. 16 * n + digit_value c) 0 (filter (\<lambda>c. c \<notin> {32, 9, 13, 10, 12}) t)"

definition fromCharCode :: "int list \<Rightarrow> jstr" where
  "fromCharCode cs = map (\<lambda>c. c mod 65536) cs"

definition funescape :: "jstr \<Rightarrow> (nat \<rightharpoonup> jstr) \<Rightarrow> jstr" where
  "funescape escape caps =
     (let high = hex_number (drop 1 escape) - 65536 in
      case caps 1 of
        Some nonHex \<Rightarrow> nonHex
      | None \<Rightarrow>
          if high < 0 then fromCharCode [high + 65536]
          else fromCharCode [drop_bit 10 high OR 0xD800, (high AND 0x3FF) OR 0xDC00])"

definition unescape_sel :: "jstr \<Rightarrow> jstr" where
  "unescape_sel s = replace_all runescape funescape s"

definition rcssescape :: rx where
  "rcssescape =
     RAlts [RGroup 1 (RAlt (RSet False [(0, 31), (127, 127)]) (RSeq RBol (RSeq (ROpt (RLit [45])) (RSet False [(48, 57)])))),
       RSeq RBol (RSeq (RLit [45]) REol),
       RSet True [(0, 31), (127, 65535), (48, 57), (65, 90), (95, 95), (97, 122), (45, 45)]]"

text \<open>\<open>n.toString( 16 )\<close>\<close>

fun hex_string :: "nat \<Rightarrow> jstr" where
  "hex_string n = (if n < 16 then [] else hex_string (n div 16)) @ [let d = int (n mod 16) in if d < 10 then d + 48 else d + 87]"

declare hex_string.simps [simp del]

definition fcssescape :: "jstr \<Rightarrow> (nat \<rightharpoonup> jstr) \<Rightarrow> jstr" where
  "fcssescape ch caps =
     (case caps 1 of
        Some _ \<Rightarrow>
          if ch = [0] then [0xFFFD]
          else butlast ch @ [92] @ hex_string (nat (last ch)) @ [32]
      | None \<Rightarrow> 92 # ch)"

definition escape_sel :: "jstr \<Rightarrow> jstr" where
  "escape_sel sel = replace_all rcssescape fcssescape sel"

section \<open>The escape of a character\<close>

text \<open>What \<open>escape\<close> writes for a character that is not at the start.\<close>

definition ident_unit :: "int \<Rightarrow> bool" where
  "ident_unit c \<longleftrightarrow> 48 \<le> c \<and> c \<le> 57 \<or> 65 \<le> c \<and> c \<le> 90 \<or> c = 95 \<or> 97 \<le> c \<and> c \<le> 122 \<or> c = 45 \<or> 128 \<le> c \<and> c \<le> 65535"

definition esc_code :: "int \<Rightarrow> jstr" where
  "esc_code c = (if c = 0 then [0xFFFD] else [92] @ hex_string (nat c) @ [32])"

definition esc_unit :: "int \<Rightarrow> jstr" where
  "esc_unit c = (if 0 \<le> c \<and> c \<le> 31 \<or> c = 127 then esc_code c else if ident_unit c then [c] else [92, c])"

lemma replace_Nil: "ms r (MS i [] []) = [] \<Longrightarrow> replace_from r f i [] = []"
  by (simp add: replace_from.simps [of r f i "[]"])

lemma replace_skip: "ms r (MS i (c # cs) []) = [] \<Longrightarrow> replace_from r f i (c # cs) = c # replace_from r f (Suc i) cs"
  by (simp add: replace_from.simps [of r f i "c # cs"])

lemma replace_hit:
  "ms r (MS i (u @ s) []) = MS j s caps # sts \<Longrightarrow> u \<noteq> [] \<Longrightarrow>
   replace_from r f i (u @ s) = f u (map_of caps) @ replace_from r f j s"
  by (simp add: replace_from.simps [of r f i "u @ s"])

lemmas ms_eval = in_class_def advance_def capture_def

lemma escape_later:
  "0 < i \<Longrightarrow> 0 \<le> c \<Longrightarrow> c < 65536 \<Longrightarrow>
   replace_from rcssescape fcssescape i (c # cs) = esc_unit c @ replace_from rcssescape fcssescape (Suc i) cs"
proof -
  assume i: "0 < i" and c: "0 \<le> c" "c < 65536"
  consider (code) "c \<le> 31 \<or> c = 127" | (plain) "ident_unit c" "\<not> (c \<le> 31 \<or> c = 127)"
    | (other) "\<not> ident_unit c" "\<not> (c \<le> 31 \<or> c = 127)" by blast
  then show ?thesis
  proof cases
    case code
    then have "ms rcssescape (MS i ([c] @ cs) []) = [MS (Suc i) cs [(1, [c])]]"
      using i c by (auto simp: rcssescape_def ms_eval)
    from replace_hit [OF this, of fcssescape] code c show ?thesis by (simp add: fcssescape_def esc_unit_def esc_code_def)
  next
    case plain
    then have "ms rcssescape (MS i (c # cs) []) = []"
      using i c by (auto simp: rcssescape_def ms_eval ident_unit_def)
    with plain c show ?thesis by (auto simp: replace_skip esc_unit_def)
  next
    case other
    then have "ms rcssescape (MS i ([c] @ cs) []) = [MS (Suc i) cs []]"
      using i c by (auto simp: rcssescape_def ms_eval ident_unit_def)
    from replace_hit [OF this, of fcssescape] other c show ?thesis by (simp add: fcssescape_def esc_unit_def)
  qed
qed

lemma escape_rest:
  "0 < i \<Longrightarrow> units s \<Longrightarrow> replace_from rcssescape fcssescape i s = concat (map esc_unit s)"
proof (induction s arbitrary: i)
  case Nil
  then show ?case by (simp add: replace_Nil rcssescape_def)
next
  case (Cons c cs)
  then show ?case by (simp add: escape_later units_def)
qed

definition is_digit :: "int \<Rightarrow> bool" where
  "is_digit c \<longleftrightarrow> 48 \<le> c \<and> c \<le> 57"

text \<open>What \<open>escape\<close> writes: digits at the start, also after a dash, and a lone dash are escaped.\<close>

fun esc_text :: "jstr \<Rightarrow> jstr" where
  "esc_text [] = []"
| "esc_text [c] = (if c = 45 then [92, 45] else if is_digit c then esc_code c else esc_unit c)"
| "esc_text (c # d # s) =
     (if is_digit c then esc_code c @ concat (map esc_unit (d # s))
      else if c = 45 \<and> is_digit d then 45 # esc_code d @ concat (map esc_unit s)
      else esc_unit c @ concat (map esc_unit (d # s)))"

lemma escape_first:
  assumes "0 \<le> c" "c < 65536" "\<not> is_digit c" "c \<noteq> 45"
  shows "replace_from rcssescape fcssescape 0 (c # cs) = esc_unit c @ replace_from rcssescape fcssescape 1 cs"
proof -
  consider (code) "c \<le> 31 \<or> c = 127" | (plain) "ident_unit c" "\<not> (c \<le> 31 \<or> c = 127)"
    | (other) "\<not> ident_unit c" "\<not> (c \<le> 31 \<or> c = 127)" by blast
  then show ?thesis
  proof cases
    case code
    then have "ms rcssescape (MS 0 ([c] @ cs) []) = [MS 1 cs [(1, [c])]]"
      using assms by (auto simp: rcssescape_def ms_eval is_digit_def)
    from replace_hit [OF this, of fcssescape] code assms show ?thesis
      by (simp add: fcssescape_def esc_unit_def esc_code_def)
  next
    case plain
    then have "ms rcssescape (MS 0 (c # cs) []) = []"
      using assms by (auto simp: rcssescape_def ms_eval ident_unit_def is_digit_def)
    with plain assms show ?thesis by (auto simp: replace_skip esc_unit_def)
  next
    case other
    then have "ms rcssescape (MS 0 ([c] @ cs) []) = [MS 1 cs []]"
      using assms by (auto simp: rcssescape_def ms_eval ident_unit_def is_digit_def)
    from replace_hit [OF this, of fcssescape] other assms show ?thesis by (simp add: fcssescape_def esc_unit_def)
  qed
qed

lemma escape_digit:
  assumes "is_digit d"
  shows "replace_from rcssescape fcssescape 0 (d # cs) = esc_code d @ replace_from rcssescape fcssescape 1 cs"
    and "replace_from rcssescape fcssescape 0 (45 # d # cs) = 45 # esc_code d @ replace_from rcssescape fcssescape 2 cs"
proof -
  have "ms rcssescape (MS 0 ([d] @ cs) []) = [MS 1 cs [(1, [d])]]"
    using assms by (auto simp: rcssescape_def ms_eval is_digit_def)
  from replace_hit [OF this, of fcssescape] assms
  show "replace_from rcssescape fcssescape 0 (d # cs) = esc_code d @ replace_from rcssescape fcssescape 1 cs"
    by (simp add: fcssescape_def esc_code_def is_digit_def)
  have "ms rcssescape (MS 0 ([45, d] @ cs) []) = [MS 2 cs [(1, [45, d])]]"
    using assms by (auto simp: rcssescape_def ms_eval is_digit_def)
  from replace_hit [OF this, of fcssescape] assms
  show "replace_from rcssescape fcssescape 0 (45 # d # cs) = 45 # esc_code d @ replace_from rcssescape fcssescape 2 cs"
    by (simp add: fcssescape_def esc_code_def is_digit_def)
qed

lemma escape_dash:
  "replace_from rcssescape fcssescape 0 [45] = [92, 45]"
  "\<not> is_digit d \<Longrightarrow> replace_from rcssescape fcssescape 0 (45 # d # cs) = 45 # replace_from rcssescape fcssescape 1 (d # cs)"
proof -
  have "ms rcssescape (MS 0 ([45] @ []) []) = [MS 1 [] []]" by (auto simp: rcssescape_def ms_eval)
  from replace_hit [OF this, of fcssescape] show "replace_from rcssescape fcssescape 0 [45] = [92, 45]"
    by (simp add: fcssescape_def replace_Nil rcssescape_def)
  assume "\<not> is_digit d"
  then have "ms rcssescape (MS 0 (45 # d # cs) []) = []" by (auto simp: rcssescape_def ms_eval is_digit_def)
  then show "replace_from rcssescape fcssescape 0 (45 # d # cs) = 45 # replace_from rcssescape fcssescape 1 (d # cs)"
    by (simp add: replace_skip)
qed

lemma escape_text: "units s \<Longrightarrow> escape_sel s = esc_text s"
proof (induction s rule: esc_text.induct)
  case 1
  show ?case by (simp add: escape_sel_def replace_all_def replace_Nil rcssescape_def)
next
  case (2 c)
  then have "0 \<le> c" "c < 65536" by (simp_all add: units_def)
  then show ?case
    using escape_first [of c "[]"] escape_digit(1) [of c "[]"] escape_dash(1) escape_rest [of 1 "[]"]
    by (auto simp: escape_sel_def replace_all_def units_def)
next
  case (3 c d s)
  then have u: "0 \<le> c" "c < 65536" "units (d # s)" "units s" by (simp_all add: units_def)
  have dash: "esc_unit 45 = [45]" by (simp add: esc_unit_def ident_unit_def)
  consider "is_digit c" | "c = 45" "is_digit d" | "c = 45" "\<not> is_digit d" | "\<not> is_digit c" "c \<noteq> 45" by blast
  then show ?case
  proof cases
    case 1
    then show ?thesis using u escape_digit(1) [of c "d # s"] escape_rest [of 1 "d # s"]
      by (simp add: escape_sel_def replace_all_def)
  next
    case 2
    then show ?thesis using u escape_digit(2) [of d s] escape_rest [of 2 s]
      by (simp add: escape_sel_def replace_all_def is_digit_def)
  next
    case 3
    moreover have "\<not> is_digit 45" by (simp add: is_digit_def)
    ultimately show ?thesis using u escape_dash(2) [of d s] escape_rest [of 1 "d # s"] dash
      by (simp add: escape_sel_def replace_all_def)
  next
    case 4
    then show ?thesis using u escape_first [of c "d # s"] escape_rest [of 1 "d # s"]
      by (simp add: escape_sel_def replace_all_def)
  qed
qed

section \<open>Reading escapes\<close>

definition unesc :: "nat \<Rightarrow> jstr \<Rightarrow> jstr" where
  "unesc i s = replace_from runescape funescape i s"

definition coded :: "int \<Rightarrow> bool" where
  "coded c \<longleftrightarrow> 1 \<le> c \<and> c \<le> 31 \<or> c = 127 \<or> is_digit c"

definition hex_char :: "int \<Rightarrow> bool" where
  "hex_char h \<longleftrightarrow> 48 \<le> h \<and> h \<le> 57 \<or> 97 \<le> h \<and> h \<le> 102 \<or> 65 \<le> h \<and> h \<le> 70"

lemma hex_string_small:
  assumes "1 \<le> c" "c \<le> 255"
  shows "\<exists>hs. hex_string (nat c) = hs \<and> (length hs = 1 \<or> length hs = 2) \<and> list_all hex_char hs \<and> hex_number (hs @ [32]) = c"
proof (cases "c < 16")
  case True
  then have "hex_string (nat c) = [if c < 10 then c + 48 else c + 87]"
    using assms by (subst hex_string.simps) (simp add: Let_def nat_less_iff)
  with True assms show ?thesis by (auto simp: hex_char_def hex_number_def digit_value_def)
next
  case False
  define h where "h = c div 16"
  define l where "l = c mod 16"
  have c: "c = 16 * h + l" "1 \<le> h" "h < 16" "0 \<le> l" "l < 16" using False assms by (auto simp: h_def l_def)
  have "hex_string (nat c) = hex_string (nat h) @ [if l < 10 then l + 48 else l + 87]"
  proof -
    have n: "nat c div 16 = nat h" "int (nat c mod 16) = l" "\<not> nat c < 16"
      using False assms by (simp_all add: h_def l_def nat_div_distrib zmod_int)
    show ?thesis by (subst hex_string.simps) (simp add: Let_def n)
  qed
  moreover have "hex_string (nat h) = [if h < 10 then h + 48 else h + 87]"
    using c by (subst hex_string.simps) (simp add: Let_def nat_less_iff)
  ultimately show ?thesis using c by (auto simp: hex_char_def hex_number_def digit_value_def)
qed

lemma unesc_code:
  assumes "coded c"
  shows "\<exists>j. unesc i (esc_code c @ t) = c # unesc j t"
proof -
  have c: "1 \<le> c" "c \<le> 255" using assms by (auto simp: coded_def is_digit_def)
  from hex_string_small [OF this] obtain hs where hs: "hex_string (nat c) = hs" "length hs = 1 \<or> length hs = 2"
    "list_all hex_char hs" "hex_number (hs @ [32]) = c" by blast
  have "\<exists>j sts. ms runescape (MS i (([92] @ hs @ [32]) @ t) []) = MS j t [] # sts"
    using hs(2,3) by (auto simp: length_Suc_conv numeral_2_eq_2 runescape_def rx_hex_escape_def rx_hex_def rx_space_def
        hex_char_def ms_eval eval_nat_numeral)
  then obtain j sts where "ms runescape (MS i (([92] @ hs @ [32]) @ t) []) = MS j t [] # sts" by blast
  from replace_hit [OF this, of funescape] c hs show ?thesis
    by (auto simp: unesc_def esc_code_def funescape_def fromCharCode_def)
qed

lemma unesc_unit:
  assumes "0 < c" "c < 65536"
  shows "\<exists>j. unesc i (esc_unit c @ t) = c # unesc j t"
proof -
  consider (code) "coded c" "esc_unit c = esc_code c" | (plain) "ident_unit c" "esc_unit c = [c]"
    | (other) "\<not> ident_unit c" "esc_unit c = [92, c]" "31 < c" "c < 127"
  proof -
    have "c \<le> 31 \<or> c = 127 \<or> ident_unit c \<and> \<not> (c \<le> 31 \<or> c = 127) \<or> \<not> ident_unit c \<and> 31 < c \<and> c < 127"
      using assms by (auto simp: ident_unit_def)
    with assms that show thesis by (auto simp: esc_unit_def coded_def)
  qed
  then show ?thesis
  proof cases
    case code
    then show ?thesis using unesc_code by simp
  next
    case plain
    then have "ms runescape (MS i (c # t) []) = []"
      by (auto simp: runescape_def rx_hex_escape_def ms_eval ident_unit_def)
    with plain show ?thesis by (auto simp: unesc_def replace_skip)
  next
    case other
    then have "ms runescape (MS i ([92, c] @ t) []) = [MS (i + 2) t [(1, [c])]]"
      by (auto simp: runescape_def rx_hex_escape_def rx_hex_def rx_not_newline_def ms_eval ident_unit_def)
    from replace_hit [OF this, of funescape] other show ?thesis by (auto simp: unesc_def funescape_def Let_def)
  qed
qed

lemma unesc_Nil: "unesc i [] = []"
  by (simp add: unesc_def replace_Nil runescape_def rx_hex_escape_def)

lemma unesc_units: "units s \<Longrightarrow> 0 \<notin> set s \<Longrightarrow> unesc i (concat (map esc_unit s)) = s"
proof (induction s arbitrary: i)
  case (Cons c s)
  then have "0 < c" "c < 65536" "units s" "0 \<notin> set s" by (auto simp: units_def order_less_le)
  with Cons.IH unesc_unit [of c i "concat (map esc_unit s)"] show ?case by auto
qed (simp add: unesc_Nil)

lemma unesc_text:
  assumes "units s" "0 \<notin> set s"
  shows "unesc 0 (esc_text s) = s"
  using assms
proof (cases s rule: esc_text.cases)
  case (2 c)
  with assms have c: "0 < c" "c < 65536" by (auto simp: units_def order_less_le)
  have "unesc 0 ([92, 45] @ []) = [45]"
  proof -
    have "ms runescape (MS 0 ([92, 45] @ []) []) = [MS 2 [] [(1, [45])]]"
      by (auto simp: runescape_def rx_hex_escape_def rx_hex_def rx_not_newline_def ms_eval)
    from replace_hit [OF this, of funescape] show ?thesis
      using unesc_Nil [of 2] by (simp add: unesc_def funescape_def Let_def)
  qed
  then show ?thesis
    using 2 c unesc_unit [OF c, of 0 "[]"] unesc_code [of c 0 "[]"] by (auto simp: unesc_Nil coded_def)
next
  case (3 c d t)
  with assms have u: "0 < c" "c < 65536" "units (d # t)" "0 \<notin> set (d # t)" "units t" "0 \<notin> set t"
    by (auto simp: units_def order_less_le)
  note rest = unesc_units [OF u(3,4)]
  have dash: "\<exists>j. unesc 0 (45 # w) = 45 # unesc j w" for w
    using unesc_unit [of 45 0 w] by (simp add: esc_unit_def ident_unit_def)
  consider "is_digit c" | "\<not> is_digit c" "c = 45" "is_digit d" | "\<not> is_digit c" "\<not> (c = 45 \<and> is_digit d)" by blast
  then show ?thesis
  proof cases
    case 1
    then show ?thesis using 3 rest unesc_code [of c 0 "concat (map esc_unit (d # t))"] by (auto simp: coded_def)
  next
    case 2
    from dash obtain j where "unesc 0 (45 # esc_code d @ concat (map esc_unit t)) = 45 # unesc j (esc_code d @ concat (map esc_unit t))"
      by blast
    then show ?thesis using 2 3 unesc_units [OF u(5,6)] unesc_code [of d j "concat (map esc_unit t)"] by (auto simp: coded_def)
  next
    case other: 3
    then have "esc_text s = esc_unit c @ concat (map esc_unit (d # t))" using 3 by auto
    then show ?thesis using 3 rest unesc_unit [OF u(1,2), of 0 "concat (map esc_unit (d # t))"] by auto
  qed
qed (simp_all add: unesc_Nil)

section \<open>Escaped texts are identifiers\<close>

lemma star_append: "word (RStar g r) u \<Longrightarrow> word (RStar g r) v \<Longrightarrow> word (RStar g r) (u @ v)"
  by (induction "RStar g r" u rule: word.induct) (auto intro: w_star)

lemma star_one: "word r u \<Longrightarrow> word (RStar g r) u"
  using w_star [of r u g "[]"] w_star0 by (cases "u = []") auto

lemma ident_code: "coded c \<Longrightarrow> word rx_ident_char (esc_code c)"
proof -
  assume "coded c"
  then have c: "1 \<le> c" "c \<le> 255" by (auto simp: coded_def is_digit_def)
  from hex_string_small [OF this] obtain hs where hs: "hex_string (nat c) = hs" "length hs = 1 \<or> length hs = 2"
    "list_all hex_char hs" by blast
  have five: "word (up_to 5 rx_hex) w" if "w = [] \<or> (\<exists>h. w = [h] \<and> hex_char h)" for w
    using that by (auto simp: eval_nat_numeral rx_hex_def hex_char_def word_simps in_class_def)
  have "word rx_hex_escape ([92] @ hs @ [32])"
  proof -
    obtain h w where h: "hs = h # w" "hex_char h" "w = [] \<or> (\<exists>h. w = [h] \<and> hex_char h)"
      using hs(2,3) by (auto simp: length_Suc_conv numeral_2_eq_2)
    have "word (RSeq rx_hex (RSeq (up_to 5 rx_hex) (ROpt rx_space))) ([h] @ w @ [32])"
    proof (rule w_seq)
      show "word rx_hex [h]" using h(2) by (auto simp: rx_hex_def hex_char_def word_simps in_class_def)
      have "word (ROpt rx_space) [32]" by (simp add: rx_space_def word_simps in_class_def)
      with five [OF h(3)] show "word (RSeq (up_to 5 rx_hex) (ROpt rx_space)) (w @ [32])" by (rule w_seq)
    qed
    then have "word rx_hex_escape ([92] @ ([h] @ w @ [32]))"
      unfolding rx_hex_escape_def by (rule w_seq [rotated]) (simp add: word_simps in_class_def)
    then show ?thesis by (simp add: h(1))
  qed
  then show ?thesis using c hs by (simp add: esc_code_def rx_ident_char_def word_simps)
qed

lemma ident_char_unit: "ident_unit c \<Longrightarrow> word rx_ident_char [c]"
  by (auto simp: rx_ident_char_def ident_unit_def word_simps in_class_def)

lemma ident_char_escaped: "c \<notin> {10, 12, 13} \<Longrightarrow> word rx_ident_char [92, c]"
  using w_seq [of "RLit [92]" "[92]" rx_not_newline "[c]"]
  by (simp add: rx_ident_char_def rx_not_newline_def word_simps in_class_def)

lemma ident_esc_unit: "0 < c \<Longrightarrow> c < 65536 \<Longrightarrow> word rx_ident_char (esc_unit c)"
  using ident_code [of c] ident_char_unit [of c] ident_char_escaped [of c]
  by (auto simp: esc_unit_def coded_def)

lemma ident_units: "units s \<Longrightarrow> 0 \<notin> set s \<Longrightarrow> word (RStar True rx_ident_char) (concat (map esc_unit s))"
proof (induction s)
  case (Cons c s)
  then have "0 < c" "c < 65536" "units s" "0 \<notin> set s" by (auto simp: units_def order_less_le)
  with Cons.IH ident_esc_unit [of c] show ?case by (auto intro: star_append star_one)
qed (simp add: w_star0)

lemma ident_text:
  assumes "units s" "0 \<notin> set s" "s \<noteq> []"
  shows "word css_identifier (esc_text s)"
  using assms
proof (cases s rule: esc_text.cases)
  case (2 c)
  with assms have c: "0 < c" "c < 65536" by (auto simp: units_def order_less_le)
  have "word rx_ident_char (esc_text s)"
    using 2 ident_esc_unit [OF c] ident_code [of c] ident_char_escaped [of 45] by (auto simp: coded_def)
  from w_seq [OF this w_star0] show ?thesis by (simp add: css_identifier_def)
next
  case (3 c d t)
  with assms have u: "0 < c" "c < 65536" "units (d # t)" "0 \<notin> set (d # t)" "units t" "0 \<notin> set t"
    by (auto simp: units_def order_less_le)
  have plus: "word css_identifier (v @ w)" if "word rx_ident_char v" "word (RStar True rx_ident_char) w" for v w
    unfolding css_identifier_def using that by (rule w_seq)
  have dash: "word css_identifier ([45] @ esc_code d @ concat (map esc_unit t))" if "is_digit d"
  proof (rule plus)
    show "word rx_ident_char [45]" by (rule ident_char_unit) (simp add: ident_unit_def)
    show "word (RStar True rx_ident_char) (esc_code d @ concat (map esc_unit t))"
      by (rule star_append [OF star_one [OF ident_code] ident_units [OF u(5,6)]]) (simp add: that coded_def)
  qed
  show ?thesis
    using 3 plus [OF ident_code ident_units [OF u(3,4)]] plus [OF ident_esc_unit [OF u(1,2)] ident_units [OF u(3,4)]] dash
    by (simp add: coded_def)
qed simp_all

lemma plain_up_to: "plain r \<Longrightarrow> plain (up_to n r)"
  by (induction n) simp_all

lemma plain_identifier: "plain css_identifier"
  by (simp add: css_identifier_def rx_ident_char_def rx_hex_escape_def rx_hex_def rx_space_def rx_not_newline_def plain_up_to)

text \<open>
  C23. \<open>Sizzle.escape\<close> makes a text usable in a selector: the result is one CSS identifier, and the engine's
  unescaping, which every token goes through, gives the text back. A text must not contain
  \<open>U+0000\<close>, which is replaced.
\<close>

theorem escape_round_trip:
  assumes "units s" "0 \<notin> set s"
  shows "unescape_sel (escape_sel s) = s \<and> (s = [] \<or> re_test ridentifier (escape_sel s))"
  using unesc_text [OF assms] ident_text [OF assms] assms(1)
  by (auto simp: escape_text unescape_sel_def replace_all_def unesc_def ridentifier_def re_test_whole plain_identifier)

theorem escape_round_trip_witness:
  "unescape_sel (escape_sel (lit ''-1 a.b#c'')) = lit ''-1 a.b#c''"
  using escape_round_trip [of "lit ''-1 a.b#c''"] by (simp add: units_def lit_def)

end
