(* ===== verification/JQ_Sel_Filter.thy ===== *)
theory JQ_Sel_Filter
  imports JQ_Dom JQ_Sel_Text JQ_Attributes
begin

text \<open>
  \<open>jquery-3.5.1.js\<close>, the selector engine: \<open>Expr.filter\<close> (tag, class, attribute and child filters) and
  \<open>Expr.pseudos\<close>. A filter is a test of the node at an address; the child filter reads and writes the
  indexes that it caches on nodes.

  \<open>lower\<close> is \<open>toLowerCase\<close>. The class filter is modelled for class names without escapes, whose text is
  a regular expression for itself. An attribute is stored under the name that \<open>getAttribute\<close> compares,
  and \<open>className\<close> is the attribute \<open>class\<close>.
\<close>

section \<open>Tags, classes and attributes\<close>

definition filter_TAG :: "(jstr \<Rightarrow> jstr) \<Rightarrow> node list \<Rightarrow> jstr \<Rightarrow> addr \<Rightarrow> bool" where
  "filter_TAG lower ts nodeNameSelector a =
     (nodeNameSelector = lit ''*'' \<or>
      el_name (info_at ts a) \<noteq> [] \<and> lower (el_name (info_at ts a)) = lower (unescape_sel nodeNameSelector))"

definition class_rx :: "jstr \<Rightarrow> rx" where
  "class_rx className = RSeq (RGroup 1 (RAlt RBol rx_space)) (RSeq (RLit className) (RGroup 2 (RAlt rx_space REol)))"

definition class_attr :: "node list \<Rightarrow> addr \<Rightarrow> jstr" where
  "class_attr ts a = (case map_of (el_attrs (info_at ts a)) (lit ''class'') of Some v \<Rightarrow> v | None \<Rightarrow> [])"

definition filter_CLASS :: "node list \<Rightarrow> jstr \<Rightarrow> addr \<Rightarrow> bool" where
  "filter_CLASS ts className a = re_test (class_rx className) (class_attr ts a)"

text \<open>\<open>Sizzle.attr\<close>; \<open>attrHandle\<close> gives the hook for a name in lower case, which may answer undefined.\<close>

definition sizzle_attr ::
  "(jstr \<Rightarrow> jstr) \<Rightarrow> (jstr \<Rightarrow> (addr \<Rightarrow> jstr \<Rightarrow> jstr option option) option) \<Rightarrow> node list \<Rightarrow> addr \<Rightarrow> jstr \<Rightarrow> jstr option" where
  "sizzle_attr lower attrHandle ts a name =
     (case (case attrHandle (lower name) of Some fn \<Rightarrow> fn a name | None \<Rightarrow> None) of
        Some val \<Rightarrow> val
      | None \<Rightarrow> map_of (el_attrs (info_at ts a)) name)"

definition ends_with :: "jstr \<Rightarrow> jstr \<Rightarrow> bool" where
  "ends_with s t \<longleftrightarrow> drop (length s - length t) s = t"

definition attr_test :: "jstr \<Rightarrow> jstr \<Rightarrow> jstr option \<Rightarrow> bool" where
  "attr_test operator check res =
     (case res of
        None \<Rightarrow> operator = lit ''!=''
      | Some result \<Rightarrow>
          operator = [] \<or>
          (if operator = lit ''='' then result = check
           else if operator = lit ''!='' then result \<noteq> check
           else if operator = lit ''^='' then check \<noteq> [] \<and> indexOf result check = 0
           else if operator = lit ''*='' then check \<noteq> [] \<and> indexOf result check > - 1
           else if operator = lit ''$='' then check \<noteq> [] \<and> ends_with result check
           else if operator = lit ''~='' then indexOf (lit '' '' @ replace_all rwhitespace (\<lambda>_ _. lit '' '') result @ lit '' '') check > - 1
           else if operator = lit ''|='' then result = check \<or> take (length check + 1) result = check @ lit ''-''
           else False))"

definition filter_ATTR ::
  "(jstr \<Rightarrow> jstr) \<Rightarrow> (jstr \<Rightarrow> (addr \<Rightarrow> jstr \<Rightarrow> jstr option option) option) \<Rightarrow> node list \<Rightarrow> jstr \<Rightarrow> jstr \<Rightarrow> jstr \<Rightarrow> addr \<Rightarrow> bool" where
  "filter_ATTR lower attrHandle ts name operator check a = attr_test operator check (sizzle_attr lower attrHandle ts a name)"

section \<open>Children\<close>

datatype ctype = Only | First | Last | Nth | NthLast

text \<open>
  What is cached on nodes: for \<open>nth\<close> on the parent the run, the index of a child among the child nodes and
  its number among the elements; for \<open>nth-last\<close> on an element the run and its number from the end.
\<close>

record child_cache =
  cc_parent :: "addr \<Rightarrow> (int \<times> nat \<times> int) option"
  cc_elem :: "addr \<Rightarrow> (int \<times> int) option"

definition counts :: "(jstr \<Rightarrow> jstr) \<Rightarrow> node list \<Rightarrow> bool \<Rightarrow> addr \<Rightarrow> addr \<Rightarrow> bool" where
  "counts lower ts ofType a n =
     (if ofType then lower (el_name (info_at ts n)) = lower (el_name (info_at ts a)) else el_type (info_at ts n) = 1)"

text \<open>\<open>first\<close>, \<open>last\<close> and \<open>only\<close>\<close>

definition simple_child :: "(jstr \<Rightarrow> jstr) \<Rightarrow> node list \<Rightarrow> ctype \<Rightarrow> bool \<Rightarrow> addr \<Rightarrow> bool" where
  "simple_child lower ts type ofType a =
     (let none = (\<lambda>d. \<not> list_ex (counts lower ts ofType a) (walk ts d a)) in
      case type of
        Only \<Rightarrow> none PreviousSibling \<and> none NextSibling
      | Last \<Rightarrow> none NextSibling
      | _ \<Rightarrow> none PreviousSibling)"

text \<open>The loop over the nodes from one on, up to \<open>elem\<close>: its index and its number.\<close>

fun seek :: "node list \<Rightarrow> addr \<Rightarrow> nat \<Rightarrow> int \<Rightarrow> addr list \<Rightarrow> (nat \<times> int) option" where
  "seek ts a i diff [] = None"
| "seek ts a i diff (n # ns) =
     (if el_type (info_at ts n) = 1 then
        if n = a then Some (i, diff + 1) else seek ts a (Suc i) (diff + 1) ns
      else seek ts a (Suc i) diff ns)"

definition seek_cached :: "node list \<Rightarrow> int \<Rightarrow> addr \<Rightarrow> addr \<Rightarrow> child_cache \<Rightarrow> (nat \<times> int) option" where
  "seek_cached ts dirruns parent a c =
     (let kids = childNodes ts parent;
          again = seek ts a 0 0 kids
      in case cc_parent c parent of
           Some (run, i, d) \<Rightarrow>
             if run = dirruns \<and> i \<noteq> 0 then
               (case seek ts a (Suc i) d (drop (Suc i) kids) of Some r \<Rightarrow> Some r | None \<Rightarrow> again)
             else again
         | None \<Rightarrow> again)"

text \<open>The other loop, which caches the number of every element that it meets when \<open>useCache\<close> is set.\<close>

fun seek_number ::
  "(addr \<Rightarrow> bool) \<Rightarrow> bool \<Rightarrow> int \<Rightarrow> addr \<Rightarrow> int \<Rightarrow> addr list \<Rightarrow> child_cache \<Rightarrow> int \<times> child_cache" where
  "seek_number P useCache dirruns a diff [] c = (0, c)"
| "seek_number P useCache dirruns a diff (n # ns) c =
     (if P n then
        let c1 = (if useCache then c\<lparr>cc_elem := (cc_elem c)(n \<mapsto> (dirruns, diff + 1))\<rparr> else c) in
        if n = a then (diff + 1, c1) else seek_number P useCache dirruns a (diff + 1) ns c1
      else seek_number P useCache dirruns a diff ns c)"

definition cycle :: "int \<Rightarrow> int \<Rightarrow> int \<Rightarrow> bool" where
  "cycle first offset diff0 =
     (let diff = diff0 - offset in diff = first \<or> first \<noteq> 0 \<and> first dvd diff \<and> 0 \<le> diff * first)"

definition filter_CHILD ::
  "(jstr \<Rightarrow> jstr) \<Rightarrow> node list \<Rightarrow> ctype \<Rightarrow> bool \<Rightarrow> int \<Rightarrow> int \<Rightarrow> bool \<Rightarrow> int \<Rightarrow> addr \<Rightarrow> child_cache \<Rightarrow> bool \<times> child_cache" where
  "filter_CHILD lower ts type ofType first offset xml dirruns a c =
     (let simple = (type \<noteq> Nth \<and> type \<noteq> NthLast); forward = (type \<noteq> Last \<and> type \<noteq> NthLast); useCache = (\<not> xml \<and> \<not> ofType) in
      case parentNode a of
        None \<Rightarrow> (False, c)
      | Some parent \<Rightarrow>
          if simple then (simple_child lower ts type ofType a, c)
          else if first = 1 \<and> offset = 0 then (True, c)
          else if forward \<and> useCache then
            (case seek_cached ts dirruns parent a c of
               Some (i, d) \<Rightarrow> (cycle first offset d, c\<lparr>cc_parent := (cc_parent c)(parent \<mapsto> (dirruns, i, d))\<rparr>)
             | None \<Rightarrow> (cycle first offset 0, c))
          else
            let nodes = (if forward then childNodes ts parent else rev (childNodes ts parent)) in
            case (if useCache then cc_elem c a else None) of
              Some (run, d) \<Rightarrow>
                if run = dirruns then (cycle first offset d, c)
                else (case seek_number (counts lower ts ofType a) useCache dirruns a 0 nodes c of (d, c1) \<Rightarrow> (cycle first offset d, c1))
            | None \<Rightarrow>
                (case seek_number (counts lower ts ofType a) useCache dirruns a 0 nodes c of (d, c1) \<Rightarrow> (cycle first offset d, c1)))"

section \<open>Pseudos\<close>

definition pseudo_contains :: "node list \<Rightarrow> jstr \<Rightarrow> addr \<Rightarrow> bool" where
  "pseudo_contains ts tx a =
     (case node_at ts a of Some n \<Rightarrow> indexOf (getText n) (unescape_sel tx) > - 1 | None \<Rightarrow> False)"

text \<open>
  \<open>:lang\<close>: the error for a text that is no identifier, otherwise the test of the nearest element, the
  start included, that has a language; \<open>elem_lang\<close> reads the language of an element.
\<close>

fun lang_loop :: "(addr \<Rightarrow> jstr) \<Rightarrow> (jstr \<Rightarrow> jstr) \<Rightarrow> node list \<Rightarrow> jstr \<Rightarrow> addr list \<Rightarrow> bool" where
  "lang_loop elem_lang lower ts lang [] = False"
| "lang_loop elem_lang lower ts lang (e # es) =
     (if elem_lang e \<noteq> [] then lower (elem_lang e) = lang \<or> indexOf (lower (elem_lang e)) (lang @ lit ''-'') = 0
      else case es of
        [] \<Rightarrow> False
      | p # _ \<Rightarrow> if el_type (info_at ts p) = 1 then lang_loop elem_lang lower ts lang es else False)"

definition pseudo_lang ::
  "(addr \<Rightarrow> jstr) \<Rightarrow> (jstr \<Rightarrow> jstr) \<Rightarrow> node list \<Rightarrow> jstr \<Rightarrow> js_error + (addr \<Rightarrow> bool)" where
  "pseudo_lang elem_lang lower ts lang =
     (if \<not> re_test ridentifier lang then
        Inl (PlainError (lit ''Syntax error, unrecognized expression: unsupported lang: '' @ lang))
      else Inr (\<lambda>a. lang_loop elem_lang lower ts (lower (unescape_sel lang)) (a # walk ts ParentNode a)))"

definition pseudo_checked :: "(jstr \<Rightarrow> jstr) \<Rightarrow> node list \<Rightarrow> addr \<Rightarrow> bool" where
  "pseudo_checked lower ts a =
     (let n = info_at ts a; nodeName = lower (el_name n) in
      nodeName = lit ''input'' \<and> el_checked n \<or> nodeName = lit ''option'' \<and> el_selected n)"

definition pseudo_selected :: "node list \<Rightarrow> addr \<Rightarrow> bool" where
  "pseudo_selected ts a = el_selected (info_at ts a)"

definition pseudo_root :: "addr \<Rightarrow> addr \<Rightarrow> bool" where
  "pseudo_root docElem a \<longleftrightarrow> a = docElem"

definition pseudo_empty :: "node list \<Rightarrow> addr \<Rightarrow> bool" where
  "pseudo_empty ts a = list_all (\<lambda>n. \<not> el_type (info_at ts n) < 6) (childNodes ts a)"

definition pseudo_parent :: "node list \<Rightarrow> addr \<Rightarrow> bool" where
  "pseudo_parent ts a \<longleftrightarrow> \<not> pseudo_empty ts a"

definition pseudo_header :: "(jstr \<Rightarrow> jstr) \<Rightarrow> node list \<Rightarrow> addr \<Rightarrow> bool" where
  "pseudo_header lower ts a = re_test (RSeq RBol (RSeq (RLit (lit ''h'')) (RSeq (RSet False [(48, 57)]) REol))) (lower (el_name (info_at ts a)))"

definition pseudo_input :: "(jstr \<Rightarrow> jstr) \<Rightarrow> node list \<Rightarrow> addr \<Rightarrow> bool" where
  "pseudo_input lower ts a \<longleftrightarrow>
     lower (el_name (info_at ts a)) \<in> {lit ''input'', lit ''select'', lit ''textarea'', lit ''button''}"

definition pseudo_button :: "(jstr \<Rightarrow> jstr) \<Rightarrow> node list \<Rightarrow> addr \<Rightarrow> bool" where
  "pseudo_button lower ts a =
     (let n = info_at ts a; name = lower (el_name n) in
      name = lit ''input'' \<and> el_kind n = lit ''button'' \<or> name = lit ''button'')"

definition pseudo_text :: "(jstr \<Rightarrow> jstr) \<Rightarrow> node list \<Rightarrow> addr \<Rightarrow> bool" where
  "pseudo_text lower ts a =
     (let n = info_at ts a in
      lower (el_name n) = lit ''input'' \<and> el_kind n = lit ''text'' \<and>
      (case map_of (el_attrs n) (lit ''type'') of None \<Rightarrow> True | Some attr \<Rightarrow> lower attr = lit ''text''))"

definition createInputPseudo :: "(jstr \<Rightarrow> jstr) \<Rightarrow> node list \<Rightarrow> jstr \<Rightarrow> addr \<Rightarrow> bool" where
  "createInputPseudo lower ts type a \<longleftrightarrow> lower (el_name (info_at ts a)) = lit ''input'' \<and> el_kind (info_at ts a) = type"

definition createButtonPseudo :: "(jstr \<Rightarrow> jstr) \<Rightarrow> node list \<Rightarrow> jstr \<Rightarrow> addr \<Rightarrow> bool" where
  "createButtonPseudo lower ts type a =
     (let name = lower (el_name (info_at ts a)) in
      (name = lit ''input'' \<or> name = lit ''button'') \<and> el_kind (info_at ts a) = type)"

text \<open>
  \<open>isDisabled\<close>, a property of Internet Explorer, is undefined; \<open>inDisabledFieldset\<close> is the test of that
  name.
\<close>

definition createDisabledPseudo :: "(addr \<Rightarrow> bool) \<Rightarrow> node list \<Rightarrow> bool \<Rightarrow> addr \<Rightarrow> bool" where
  "createDisabledPseudo inDisabledFieldset ts disabled a =
     (let n = info_at ts a in
      if el_form n then
        case parentNode a of
          Some p \<Rightarrow>
            if el_disabled n = Some False then
              if el_label n then
                if el_label (info_at ts p) then el_disabled (info_at ts p) = Some disabled
                else el_disabled n = Some disabled
              else inDisabledFieldset a = disabled
            else el_disabled n = Some disabled
        | None \<Rightarrow> el_disabled n = Some disabled
      else if el_label n then el_disabled n = Some disabled
      else False)"

section \<open>Positions\<close>

text \<open>
  The indexes of the positional pseudos for a set of the given size; the argument is a whole number.
  \<open>createPositionalPseudo\<close> moves the nodes at these indexes from the seed to the matches; a place
  that holds no node is \<open>None\<close>.
\<close>

definition pos_first :: "int \<Rightarrow> int \<Rightarrow> int list" where "pos_first len arg = [0]"

definition pos_last :: "int \<Rightarrow> int \<Rightarrow> int list" where "pos_last len arg = [len - 1]"

definition pos_eq :: "int \<Rightarrow> int \<Rightarrow> int list" where "pos_eq len arg = [if arg < 0 then arg + len else arg]"

fun pos_step :: "nat \<Rightarrow> int \<Rightarrow> int \<Rightarrow> int list" where
  "pos_step 0 i len = []"
| "pos_step (Suc n) i len = (if i < len then i # pos_step n (i + 2) len else [])"

definition pos_even :: "int \<Rightarrow> int \<Rightarrow> int list" where "pos_even len arg = pos_step (nat len) 0 len"

definition pos_odd :: "int \<Rightarrow> int \<Rightarrow> int list" where "pos_odd len arg = pos_step (nat len) 1 len"

definition pos_lt :: "int \<Rightarrow> int \<Rightarrow> int list" where
  "pos_lt len arg = (let i = (if arg < 0 then arg + len else if arg > len then len else arg) in rev [0..i - 1])"

definition pos_gt :: "int \<Rightarrow> int \<Rightarrow> int list" where
  "pos_gt len arg = (let i = (if arg < 0 then arg + len else arg) in [i + 1..len - 1])"

fun move_matches :: "int list \<Rightarrow> 'a option list \<times> 'a option list \<Rightarrow> 'a option list \<times> 'a option list" where
  "move_matches [] sm = sm"
| "move_matches (j # js) (seed, matches) =
     (if 0 \<le> j \<and> nat j < length seed \<and> seed ! nat j \<noteq> None
      then move_matches js (seed[nat j := None], matches[nat j := seed ! nat j])
      else move_matches js (seed, matches))"

definition createPositionalPseudo ::
  "(int \<Rightarrow> int \<Rightarrow> int list) \<Rightarrow> int \<Rightarrow> 'a option list \<Rightarrow> 'a option list \<times> 'a option list" where
  "createPositionalPseudo fn arg seed =
     move_matches (rev (fn (int (length seed)) arg)) (seed, replicate (length seed) None)"

section \<open>The number of a child\<close>

text \<open>The number of \<open>a\<close> among the nodes of a list that satisfy \<open>P\<close>, counted from 1.\<close>

definition number_in :: "(addr \<Rightarrow> bool) \<Rightarrow> addr list \<Rightarrow> addr \<Rightarrow> int" where
  "number_in P ns a = int (length (filter P (takeWhile (\<lambda>n. n \<noteq> a) ns))) + 1"

lemma number_in_Cons:
  "number_in P (n # ns) a = (if n = a then 1 else (if P n then 1 else 0) + number_in P ns a)"
  by (simp add: number_in_def)

lemma number_in_append:
  "a \<notin> set us \<Longrightarrow> number_in P (us @ ns) a = int (length (filter P us)) + number_in P ns a"
  by (induction us) (auto simp: number_in_Cons)

abbreviation is_element :: "node list \<Rightarrow> addr \<Rightarrow> bool" where
  "is_element ts n \<equiv> el_type (info_at ts n) = 1"

lemma seek_found:
  "is_element ts a \<Longrightarrow> a \<in> set ns \<Longrightarrow>
   seek ts a i diff ns = Some (i + length (takeWhile (\<lambda>n. n \<noteq> a) ns), diff + number_in (is_element ts) ns a)"
  by (induction ts a i diff ns rule: seek.induct) (auto simp: number_in_Cons)

lemma seek_missing: "a \<notin> set ns \<Longrightarrow> seek ts a i diff ns = None"
  by (induction ts a i diff ns rule: seek.induct) auto

lemma seek_number_result:
  "P a \<Longrightarrow> a \<in> set ns \<Longrightarrow> fst (seek_number P u run a diff ns c) = diff + number_in P ns a"
  by (induction P u run a diff ns c rule: seek_number.induct) (auto simp: number_in_Cons Let_def)

lemma cycle_iff: "cycle first offset d \<longleftrightarrow> (\<exists>n :: nat. d = first * int n + offset)"
proof
  assume c: "cycle first offset d"
  show "\<exists>n :: nat. d = first * int n + offset"
  proof (cases "d - offset = first")
    case True
    then show ?thesis by (intro exI [of _ 1]) simp
  next
    case False
    with c obtain k where k: "d - offset = first * k" "0 \<le> (first * k) * first" "first \<noteq> 0"
      by (auto simp: cycle_def Let_def)
    have "0 \<le> k * (first * first)" using k(2) by (simp add: algebra_simps)
    moreover have "0 < first * first" using k(3) by (auto simp: zero_less_mult_iff)
    ultimately have "0 \<le> k" by (simp add: zero_le_mult_iff)
    with k show ?thesis by (intro exI [of _ "nat k"]) (simp add: algebra_simps)
  qed
next
  assume "\<exists>n :: nat. d = first * int n + offset"
  then obtain n where "d = first * int n + offset" ..
  then have "d - offset = first * int n" by simp
  then show "cycle first offset d"
    using mult_nonneg_nonneg [of "first * first" "int n"]
    by (auto simp: cycle_def Let_def mult.assoc mult.commute mult.left_commute)
qed

text \<open>The cached numbers of the current run are right.\<close>

definition cc_ok :: "node list \<Rightarrow> int \<Rightarrow> child_cache \<Rightarrow> bool" where
  "cc_ok ts run c \<longleftrightarrow>
     (\<forall>p i d. cc_parent c p = Some (run, i, d) \<longrightarrow>
        i < n_kids ts p \<and> d = int (length (filter (is_element ts) (take (Suc i) (childNodes ts p))))) \<and>
     (\<forall>n d. cc_elem c n = Some (run, d) \<longrightarrow>
        (\<exists>p. parentNode n = Some p \<and> d = number_in (is_element ts) (rev (childNodes ts p)) n))"

lemma parent_child:
  assumes "parentNode a = Some p" "valid ts a"
  shows "a = p @ [last a]" "last a < n_kids ts p" "a \<in> set (childNodes ts p)" "p \<noteq> []"
proof -
  have p: "length a > 1" "p = butlast a" using assms(1) by (auto simp: parentNode_def step_def split: if_splits)
  then show ne: "p \<noteq> []" by (cases a) auto
  from p show a: "a = p @ [last a]" by (cases a rule: rev_cases) auto
  with assms(2) ne show k: "last a < n_kids ts p" by (metis valid_snoc)
  from k have "p @ [last a] \<in> set (childNodes ts p)" by (auto simp: childNodes_def)
  with a show "a \<in> set (childNodes ts p)" by simp
qed

lemma distinct_childNodes: "distinct (childNodes ts p)"
  by (simp add: childNodes_def distinct_map inj_on_def)

lemma child_before: "k < n_kids ts p \<Longrightarrow> takeWhile (\<lambda>n. n \<noteq> p @ [k]) (childNodes ts p) = take k (childNodes ts p)"
proof -
  assume k: "k < n_kids ts p"
  have c: "childNodes ts p = take k (childNodes ts p) @ (p @ [k]) # drop (Suc k) (childNodes ts p)"
  proof -
    have "k < length (childNodes ts p)" "childNodes ts p ! k = p @ [k]" using k by (simp_all add: childNodes_def)
    with id_take_nth_drop [of k "childNodes ts p"] show ?thesis by metis
  qed
  have "\<forall>n \<in> set (take k (childNodes ts p)). n \<noteq> p @ [k]"
    using k by (auto simp: childNodes_def take_map)
  then show ?thesis by (subst c) (simp add: takeWhile_append2)
qed

lemma number_child:
  assumes "k < n_kids ts p" "P (p @ [k])"
  shows "number_in P (childNodes ts p) (p @ [k]) = int (length (filter P (take (Suc k) (childNodes ts p))))"
proof -
  have "take (Suc k) (childNodes ts p) = take k (childNodes ts p) @ [p @ [k]]"
    using assms(1) by (simp add: childNodes_def take_map)
  with assms show ?thesis by (simp add: number_in_def child_before)
qed

lemma seek_cached_ok:
  assumes "cc_ok ts run c" "parentNode a = Some p" "valid ts a" "is_element ts a"
  shows "seek_cached ts run p a c = Some (last a, number_in (is_element ts) (childNodes ts p) a)"
proof -
  note a = parent_child [OF assms(2,3)]
  let ?kids = "childNodes ts p"
  have k: "length (takeWhile (\<lambda>n. n \<noteq> a) ?kids) = last a"
    using a(2) child_before [OF a(2)] a(1) by (simp add: childNodes_def)
  have again: "seek ts a 0 0 ?kids = Some (last a, number_in (is_element ts) ?kids a)"
    using seek_found [OF assms(4) a(3), of 0 0] k by simp
  have ahead: "seek ts a (Suc i) d (drop (Suc i) ?kids) = Some (last a, number_in (is_element ts) ?kids a)"
    if "cc_parent c p = Some (run, i, d)" "a \<in> set (drop (Suc i) ?kids)" for i d
  proof -
    have d: "d = int (length (filter (is_element ts) (take (Suc i) ?kids)))" "i < n_kids ts p"
      using assms(1) that(1) by (auto simp: cc_ok_def)
    have out: "a \<notin> set (take (Suc i) ?kids)"
      using that(2) distinct_childNodes [of ts p] by (metis append_take_drop_id disjoint_iff distinct_append)
    have "number_in (is_element ts) ?kids a = d + number_in (is_element ts) (drop (Suc i) ?kids) a"
      using number_in_append [OF out, of "is_element ts" "drop (Suc i) ?kids"] d(1) by simp
    moreover have "length (takeWhile (\<lambda>n. n \<noteq> a) ?kids) =
        Suc i + length (takeWhile (\<lambda>n. n \<noteq> a) (drop (Suc i) ?kids))"
    proof -
      have "takeWhile (\<lambda>n. n \<noteq> a) (take (Suc i) ?kids @ drop (Suc i) ?kids) =
          take (Suc i) ?kids @ takeWhile (\<lambda>n. n \<noteq> a) (drop (Suc i) ?kids)"
        using out by (intro takeWhile_append2) auto
      with d(2) show ?thesis by (simp add: childNodes_def)
    qed
    ultimately show ?thesis using seek_found [OF assms(4) that(2)] k by simp
  qed
  show ?thesis
  proof (cases "cc_parent c p")
    case None
    then show ?thesis by (simp add: seek_cached_def again)
  next
    case (Some e)
    obtain r i d where e: "e = (r, i, d)" by (cases e)
    show ?thesis
    proof (cases "r = run \<and> a \<in> set (drop (Suc i) ?kids)")
      case True
      with Some e ahead show ?thesis by (auto simp: seek_cached_def again Let_def)
    next
      case False
      with Some e seek_missing [of a "drop (Suc i) ?kids"] show ?thesis by (auto simp: seek_cached_def again Let_def)
    qed
  qed
qed

lemma seek_number_keeps: "cc_parent (snd (seek_number P u run a diff ns c)) = cc_parent c"
  by (induction P u run a diff ns c rule: seek_number.induct) (simp_all add: Let_def)

lemma seek_number_no_cache: "snd (seek_number P False run a diff ns c) = c"
  by (induction ns arbitrary: diff) simp_all

lemma seek_number_entries:
  assumes "distinct (us @ ns)" "diff = int (length (filter P us))"
    and "cc_elem (snd (seek_number P u run a diff ns c)) n = Some (r, d)"
  shows "cc_elem c n = Some (r, d) \<or> n \<in> set ns \<and> d = number_in P (us @ ns) n \<and> r = run"
  using assms
proof (induction P u run a diff ns c arbitrary: us rule: seek_number.induct)
  case (2 P u run a diff m ns c)
  have split: "us @ m # ns = (us @ [m]) @ ns" by simp
  have m: "number_in P (us @ m # ns) m = int (length (filter P us)) + 1"
    using 2(3) number_in_append [of m us P "m # ns"] by (simp add: number_in_Cons)
  show ?case
  proof (cases "P m")
    case True
    show ?thesis
    proof (cases "m = a")
      case eq: True
      with True 2(4,5) m show ?thesis by (auto simp: Let_def split: if_splits)
    next
      case False
      with True 2(5) 2(1) [OF True refl False, of "us @ [m]"] 2(3,4) m show ?thesis
        by (auto simp: Let_def split: if_splits)
    qed
  next
    case False
    with 2(5) 2(2) [OF False, of "us @ [m]"] 2(3,4) show ?thesis by auto
  qed
qed simp

lemma child_entry:
  assumes "n \<in> set (rev (childNodes ts p))" "p \<noteq> []"
  shows "parentNode n = Some p"
  using assms by (cases p) (auto simp: childNodes_def parentNode_def step_def)

lemma nth_child_number:
  assumes "valid ts e" "el_type (info_at ts e) = 1" "parentNode e = Some p" "cc_ok ts run c"
    and "type = Nth \<or> type = NthLast"
  shows "(fst (filter_CHILD lower ts type ofType a b xml run e c) \<longleftrightarrow>
      (\<exists>n :: nat. number_in (counts lower ts ofType e)
         (if type = Nth then childNodes ts p else rev (childNodes ts p)) e = a * int n + b)) \<and>
    cc_ok ts run (snd (filter_CHILD lower ts type ofType a b xml run e c))"
proof -
  let ?P = "counts lower ts ofType e"
  let ?ns = "if type = Nth then childNodes ts p else rev (childNodes ts p)"
  let ?u = "\<not> xml \<and> \<not> ofType"
  note e = parent_child [OF assms(3,1)]
  have Pe: "?P e" and Pel: "\<not> ofType \<Longrightarrow> ?P = is_element ts" using assms(2) by (auto simp: counts_def fun_eq_iff)
  have in_ns: "e \<in> set ?ns" using e(3) by simp
  have plain: "fst (seek_number ?P ?u run e 0 ?ns c) = number_in ?P ?ns e"
    using seek_number_result [of ?P e ?ns ?u run 0 c] Pe in_ns by simp
  have ok: "cc_ok ts run (snd (seek_number ?P ?u run e 0 ?ns c))" if "type = NthLast \<or> \<not> ?u"
  proof (cases ?u)
    case True
    with that have t: "type = NthLast" "?P = is_element ts" using Pel by auto
    have "cc_elem c n = Some (run, d) \<or> n \<in> set ?ns \<and> d = number_in (is_element ts) ?ns n"
      if "cc_elem (snd (seek_number ?P ?u run e 0 ?ns c)) n = Some (run, d)" for n d
      using seek_number_entries [of "[]" ?ns 0 ?P ?u run e c n run d] that t distinct_childNodes [of ts p] by auto
    then show ?thesis
      using assms(4) t(1) child_entry [OF _ e(4), of _ ts] unfolding cc_ok_def seek_number_keeps by fastforce
  next
    case False
    then show ?thesis using assms(4) by (simp only: seek_number_no_cache)
  qed
  show ?thesis
  proof (cases "a = 1 \<and> b = 0")
    case True
    have "0 \<le> number_in ?P ?ns e" by (simp add: number_in_def)
    then have "\<exists>n :: nat. number_in ?P ?ns e = int n" by (metis zero_le_imp_eq_int)
    with True assms show ?thesis by (auto simp: filter_CHILD_def Let_def)
  next
    case general: False
    show ?thesis
    proof (cases "type = Nth \<and> ?u")
      case True
      then have f: "filter_CHILD lower ts type ofType a b xml run e c =
          (cycle a b (number_in ?P ?ns e), c\<lparr>cc_parent := (cc_parent c)(p \<mapsto> (run, last e, number_in ?P ?ns e))\<rparr>)"
        using general assms(3) seek_cached_ok [OF assms(4,3,1,2)] Pel by (auto simp: filter_CHILD_def Let_def)
      have "number_in ?P ?ns e = int (length (filter (is_element ts) (take (Suc (last e)) (childNodes ts p))))"
        using True Pel number_child [OF e(2), of "is_element ts"] e(1) assms(2) by simp
      then show ?thesis using assms(4) e(2) by (simp add: f cycle_iff cc_ok_def)
    next
      case False
      with assms(5) have nl: "type = NthLast \<or> \<not> ?u" by auto
      have s: "filter_CHILD lower ts type ofType a b xml run e c =
          (case (if ?u then cc_elem c e else None) of
             Some (r, d) \<Rightarrow> if r = run then (cycle a b d, c) else map_prod (cycle a b) id (seek_number ?P ?u run e 0 ?ns c)
           | None \<Rightarrow> map_prod (cycle a b) id (seek_number ?P ?u run e 0 ?ns c))"
        using False general assms(3,5)
        by (auto simp: filter_CHILD_def Let_def map_prod_def split: option.splits prod.splits)
      have hit: "d = number_in ?P ?ns e" if "?u" "cc_elem c e = Some (run, d)" for d
        using assms(3,4) that Pel nl by (fastforce simp: cc_ok_def)
      let ?r = "map_prod (cycle a b) id (seek_number ?P ?u run e 0 ?ns c)"
      have r: "fst ?r = cycle a b (number_in ?P ?ns e)" "cc_ok ts run (snd ?r)"
        using plain ok [OF nl] by (simp_all only: fst_map_prod snd_map_prod id_apply)
      have "fst (filter_CHILD lower ts type ofType a b xml run e c) = cycle a b (number_in ?P ?ns e) \<and>
          cc_ok ts run (snd (filter_CHILD lower ts type ofType a b xml run e c))"
      proof (cases "?u \<and> (\<exists>d. cc_elem c e = Some (run, d))")
        case True
        then obtain d where "?u" "cc_elem c e = Some (run, d)" by blast
        with hit [OF this] assms(4) show ?thesis unfolding s by simp
      next
        case False
        then have "filter_CHILD lower ts type ofType a b xml run e c = ?r"
          unfolding s by (cases "cc_elem c e") auto
        with r show ?thesis by simp
      qed
      then show ?thesis by (simp only: cycle_iff simp_thms)
    qed
  qed
qed



section \<open>Class and attribute tests\<close>

lemma in_class_space: "in_class False [(32, 32), (9, 9), (13, 13), (10, 10), (12, 12)] = html_white"
  by (auto simp: in_class_def html_white_def fun_eq_iff)

definition starts :: "jstr \<Rightarrow> jstr \<Rightarrow> bool" where
  "starts c t \<longleftrightarrow> (\<exists>v. t = c @ v \<and> (v = [] \<or> html_white (hd v)))"

lemma ms_class_tail:
  "ms (RSeq (RLit c) (RGroup 2 (RAlt rx_space REol))) (MS i t caps) \<noteq> [] \<longleftrightarrow> starts c t"
proof (cases "prefix c t")
  case True
  then obtain v where v: "t = c @ v" by (auto simp: prefix_def)
  then show ?thesis
    by (cases v) (auto simp: ms_RLit starts_def advance_def rx_space_def in_class_space)
next
  case False
  then show ?thesis by (auto simp: ms_RLit starts_def)
qed

lemma ms_class_rx:
  "ms (class_rx c) (MS i s []) \<noteq> [] \<longleftrightarrow> i = 0 \<and> starts c s \<or> (\<exists>d t. s = d # t \<and> html_white d \<and> starts c t)"
proof -
  let ?r = "RSeq (RLit c) (RGroup 2 (RAlt rx_space REol))"
  have "ms (RGroup 1 (RAlt RBol rx_space)) (MS i s []) =
      (if i = 0 then [MS 0 s [(1, [])]] else []) @
      (case s of d # t \<Rightarrow> if html_white d then [MS (Suc i) t [(1, [d])]] else [] | [] \<Rightarrow> [])"
    by (auto simp: rx_space_def in_class_space advance_def capture_def split: list.splits)
  then have "ms (class_rx c) (MS i s []) =
      (if i = 0 then ms ?r (MS 0 s [(1, [])]) else []) @
      (case s of d # t \<Rightarrow> if html_white d then ms ?r (MS (Suc i) t [(1, [d])]) else [] | [] \<Rightarrow> [])"
    unfolding class_rx_def ms.simps(3) [of "RGroup 1 (RAlt RBol rx_space)"]
    by (auto simp del: ms.simps split: list.splits)
  then show ?thesis using ms_class_tail [of c] by (auto simp del: ms.simps split: list.splits)
qed

lemma words_split:
  "html_white d \<Longrightarrow> words_of html_white (a @ d # b) = words_of html_white a @ words_of html_white b"
proof (induction a rule: length_induct)
  case (1 a)
  show ?case
  proof (cases a)
    case (Cons x xs)
    show ?thesis
    proof (cases "html_white x")
      case True
      with 1 Cons show ?thesis by simp
    next
      case False
      have "dropWhile (\<lambda>x. \<not> html_white x) (xs @ d # b) = dropWhile (\<lambda>x. \<not> html_white x) xs @ d # b"
        "takeWhile (\<lambda>x. \<not> html_white x) (xs @ d # b) = takeWhile (\<lambda>x. \<not> html_white x) xs"
        using 1(2) by (induction xs) auto
      moreover have "length (dropWhile (\<lambda>x. \<not> html_white x) xs) < length a"
        using Cons length_dropWhile_le [of "\<lambda>x. \<not> html_white x" xs] by simp
      ultimately show ?thesis using 1 Cons False by (simp add: words_of_word)
    qed
  qed (use 1 in simp)
qed

lemma word_between:
  assumes "class_word c" "u = [] \<or> html_white (last u)" "v = [] \<or> html_white (hd v)"
  shows "c \<in> set (nothtmlwhite (u @ c @ v))"
proof -
  have "c \<in> set (nothtmlwhite (c @ v))"
  proof (cases v)
    case Nil
    then show ?thesis using words_word [OF assms(1)] by simp
  next
    case (Cons d w)
    then show ?thesis using assms(3) words_split [of d c w] words_word [OF assms(1)] by (simp add: nothtmlwhite_def)
  qed
  then show ?thesis
    using assms(2) words_split by (cases u rule: rev_cases) (simp_all add: nothtmlwhite_def)
qed

text \<open>The class filter tests whether the name is one of the class names of the element.\<close>

theorem class_filter_names:
  assumes "class_word c"
  shows "filter_CLASS ts c a \<longleftrightarrow> c \<in> set (nothtmlwhite (class_attr ts a))"
proof -
  let ?s = "class_attr ts a"
  have "filter_CLASS ts c a \<longleftrightarrow> (\<exists>u t. ?s = u @ t \<and> (u = [] \<and> starts c t \<or> (\<exists>d t'. t = d # t' \<and> html_white d \<and> starts c t')))"
    unfolding filter_CLASS_def re_test_def re_exec_def re_exec_from_iff ms_class_rx by simp
  also have "\<dots> \<longleftrightarrow> (\<exists>u v. ?s = u @ c @ v \<and> (u = [] \<or> html_white (last u)) \<and> (v = [] \<or> html_white (hd v)))"
  proof
    assume "\<exists>u t. ?s = u @ t \<and> (u = [] \<and> starts c t \<or> (\<exists>d t'. t = d # t' \<and> html_white d \<and> starts c t'))"
    then consider v where "?s = [] @ c @ v" "v = [] \<or> html_white (hd v)"
      | u d v where "?s = (u @ [d]) @ c @ v" "html_white d" "v = [] \<or> html_white (hd v)"
      by (auto simp: starts_def)
    then show "\<exists>u v. ?s = u @ c @ v \<and> (u = [] \<or> html_white (last u)) \<and> (v = [] \<or> html_white (hd v))"
      by cases (blast, metis last_snoc)
  next
    assume "\<exists>u v. ?s = u @ c @ v \<and> (u = [] \<or> html_white (last u)) \<and> (v = [] \<or> html_white (hd v))"
    then obtain u v where s: "?s = u @ c @ v" "u = [] \<or> html_white (last u)" "v = [] \<or> html_white (hd v)" by blast
    show "\<exists>u t. ?s = u @ t \<and> (u = [] \<and> starts c t \<or> (\<exists>d t'. t = d # t' \<and> html_white d \<and> starts c t'))"
    proof (cases "u = []")
      case True
      with s show ?thesis by (auto simp: starts_def)
    next
      case False
      with s have "?s = butlast u @ (last u # c @ v)" by simp
      moreover have "starts c (c @ v)" using s(3) by (auto simp: starts_def)
      ultimately show ?thesis using s(2) False by blast
    qed
  qed
  also have "\<dots> \<longleftrightarrow> c \<in> set (nothtmlwhite ?s)"
  proof
    assume "\<exists>u v. ?s = u @ c @ v \<and> (u = [] \<or> html_white (last u)) \<and> (v = [] \<or> html_white (hd v))"
    then obtain u v where "?s = u @ c @ v" "u = [] \<or> html_white (last u)" "v = [] \<or> html_white (hd v)" by blast
    with word_between [OF assms, of u v] show "c \<in> set (nothtmlwhite ?s)" by simp
  qed (rule words_of_in, simp only: nothtmlwhite_def)
  finally show ?thesis .
qed

theorem class_filter_names_witness:
  "filter_CLASS [Node (no_info\<lparr>el_attrs := [(lit ''class'', lit ''a b'')]\<rparr>) []] (lit ''b'') [0]"
proof -
  let ?ts = "[Node (no_info\<lparr>el_attrs := [(lit ''class'', lit ''a b'')]\<rparr>) []]"
  have "class_word (lit ''b'')" "lit ''b'' \<in> set (nothtmlwhite (class_attr ?ts [0]))" by code_simp+
  with class_filter_names [of "lit ''b''" ?ts "[0]"] show ?thesis by simp
qed

text \<open>White space runs become single spaces; the words stay.\<close>

definition collapse :: "jstr \<Rightarrow> jstr" where
  "collapse s = replace_all rwhitespace (\<lambda>_ _. lit '' '') s"

lemma collapse_words:
  "words_of html_white (u @ replace_from rwhitespace (\<lambda>_ _. lit '' '') i s) = words_of html_white (u @ s) \<and>
   (\<forall>c \<in> set (replace_from rwhitespace (\<lambda>_ _. lit '' '') i s). html_white c \<longrightarrow> c = 32)"
proof (induction s arbitrary: i u rule: length_induct)
  case (1 s)
  let ?f = "\<lambda>_ _. lit '' '' :: jstr"
  show ?case
  proof (cases s)
    case Nil
    then show ?thesis by (simp add: replace_Nil rwhitespace_def rx_space_def)
  next
    case (Cons c t)
    show ?thesis
    proof (cases "html_white c")
      case True
      let ?w = "c # takeWhile html_white t" and ?r = "dropWhile html_white t"
      have "\<exists>sts. ms rwhitespace (MS i (?w @ ?r) []) = MS (Suc i + length (takeWhile html_white t)) ?r [] # sts"
        using True star_set_first [of t "length t" False "[(32, 32), (9, 9), (13, 13), (10, 10), (12, 12)]" "Suc i" "[]"]
        by (simp add: rwhitespace_def rx_space_def in_class_space advance_def)
      then obtain j sts where "ms rwhitespace (MS i (?w @ ?r) []) = MS j ?r [] # sts" by blast
      from replace_hit [OF this, of ?f] have r: "replace_from rwhitespace ?f i s = 32 # replace_from rwhitespace ?f j ?r"
        using Cons by (simp add: lit_def)
      have "length ?r < length s" using Cons length_dropWhile_le [of html_white t] by simp
      from 1 [rule_format, OF this, of "[]" j]
      have ih: "words_of html_white (replace_from rwhitespace ?f j ?r) = words_of html_white ?r"
        "\<forall>c \<in> set (replace_from rwhitespace ?f j ?r). html_white c \<longrightarrow> c = 32" by simp_all
      have "words_of html_white ?r = words_of html_white t" by (induction t) simp_all
      then show ?thesis
        unfolding r using Cons True ih words_split [of c u t] words_split [of 32 u "replace_from rwhitespace ?f j ?r"]
        by simp
    next
      case False
      then have "ms rwhitespace (MS i (c # t) []) = []" by (simp add: rwhitespace_def rx_space_def in_class_space)
      with Cons have r: "replace_from rwhitespace ?f i s = c # replace_from rwhitespace ?f (Suc i) t" by (simp add: replace_skip)
      from 1 [rule_format, of t "u @ [c]" "Suc i"] Cons False show ?thesis unfolding r by simp
    qed
  qed
qed

lemma spaced_collapse: "spaced_out (padded (collapse s))" "nothtmlwhite (padded (collapse s)) = nothtmlwhite s"
  using collapse_words [of "[]" 0 s]
  by (simp_all add: spaced_out_def collapse_def replace_all_def padded_def)
    (simp add: nothtmlwhite_def words_split [of 32 "_ :: jstr" "[]", simplified])

section \<open>Attribute selectors\<close>

text \<open>The meaning of \<open>[name op "v"]\<close> for the value of the attribute, in terms of the operators of CSS and \<open>!=\<close>.\<close>

definition css_attr :: "jstr \<Rightarrow> jstr \<Rightarrow> jstr option \<Rightarrow> bool" where
  "css_attr operator v res =
     (if operator = lit ''!='' then res \<noteq> Some v
      else
        case res of
          None \<Rightarrow> False
        | Some u \<Rightarrow>
            if operator = [] then True
            else if operator = lit ''='' then u = v
            else if operator = lit ''^='' then v \<noteq> [] \<and> prefix v u
            else if operator = lit ''*='' then v \<noteq> [] \<and> sublist v u
            else if operator = lit ''$='' then v \<noteq> [] \<and> suffix v u
            else if operator = lit ''~='' then v \<in> set (nothtmlwhite u)
            else if operator = lit ''|='' then u = v \<or> prefix (v @ lit ''-'') u
            else False)"

text \<open>The value that the token of an attribute selector carries: the prefilter pads a word for \<open>~=\<close>.\<close>

definition attr_check :: "jstr \<Rightarrow> jstr \<Rightarrow> jstr" where
  "attr_check operator v = (if operator = lit ''~='' then lit '' '' @ v @ lit '' '' else v)"

lemma indexOf_0: "indexOf s p = 0 \<longleftrightarrow> prefix p s"
proof (cases "str_find p s")
  case None
  then show ?thesis using str_find_None_iff [of p s] by (auto simp: indexOf_def)
next
  case (Some i)
  then show ?thesis using str_find_SomeD [OF Some] by (cases i) (auto simp: indexOf_def)
qed

lemma ends_with_suffix: "v \<noteq> [] \<Longrightarrow> ends_with s v \<longleftrightarrow> suffix v s"
  by (metis append_eq_conv_conj append_take_drop_id drop_append ends_with_def suffix_def suffix_drop
      diff_diff_cancel length_append length_drop add_diff_cancel_right')

lemma take_prefix_dash: "take (length v + 1) u = v @ lit ''-'' \<longleftrightarrow> prefix (v @ lit ''-'') u"
  using take_is_prefix [of "length v + 1" u] by (auto simp: prefix_def lit_def)

text \<open>
  An attribute selector tests what CSS says of its operator. For \<open>~=\<close> the value must be a word: a value
  that is empty or has white space, which matches nothing in CSS, is compared with the padded text.
\<close>

theorem attr_filter_css:
  assumes "operator \<in> {[], lit ''='', lit ''!='', lit ''^='', lit ''*='', lit ''$='', lit ''~='', lit ''|=''}"
    and "operator = lit ''~='' \<longrightarrow> class_word v"
  shows "filter_ATTR lower attrHandle ts name operator (attr_check operator v) a \<longleftrightarrow>
    css_attr operator v (sizzle_attr lower attrHandle ts a name)"
proof (cases "sizzle_attr lower attrHandle ts a name")
  case None
  then show ?thesis by (simp add: filter_ATTR_def attr_test_def css_attr_def)
next
  case (Some u)
  have d: "lit ''~='' \<noteq> []" "lit ''~='' \<notin> {lit ''='', lit ''!='', lit ''^='', lit ''*='', lit ''$=''}"
    by (simp_all add: lit_def)
  have pad: "indexOf (lit '' '' @ replace_all rwhitespace (\<lambda>_ _. lit '' '') u @ lit '' '') (lit '' '' @ v @ lit '' '') > - 1 \<longleftrightarrow>
      v \<in> set (nothtmlwhite u)" if "class_word v"
    using occurs_iff [OF that spaced_collapse(1), of u] spaced_collapse(2) [of u]
    by (simp add: indexOf_gt_minus_one_iff collapse_def padded_def lit_def)
  show ?thesis
  proof (cases "operator = lit ''~=''")
    case True
    with assms(2) pad d Some show ?thesis
      by (simp add: filter_ATTR_def attr_test_def css_attr_def attr_check_def)
  next
    case False
    note laws = indexOf_0 indexOf_gt_minus_one_iff ends_with_suffix take_prefix_dash
    have f: "filter_ATTR lower attrHandle ts name operator (attr_check operator v) a = attr_test operator v (Some u)"
      using False Some by (simp add: filter_ATTR_def attr_check_def)
    from False assms(1) show ?thesis
      unfolding f Some attr_test_def css_attr_def option.case laws
      by (elim insertE emptyE) (auto simp: lit_def ends_with_suffix)
  qed
qed

lemma attr_word_empty:
  "attr_test (lit ''~='') (attr_check (lit ''~='') []) (Some [])" "\<not> css_attr (lit ''~='') [] (Some [])"
  by code_simp+

theorem attr_filter_css_witness:
  "filter_ATTR id (\<lambda>_. None)
     [Node (no_info\<lparr>el_attrs := [(lit ''rel'', lit ''a b'')]\<rparr>) []] (lit ''rel'') (lit ''~='') (attr_check (lit ''~='') (lit ''b'')) [0]"
proof -
  let ?ts = "[Node (no_info\<lparr>el_attrs := [(lit ''rel'', lit ''a b'')]\<rparr>) []]"
  have "css_attr (lit ''~='') (lit ''b'') (sizzle_attr id (\<lambda>_. None) ?ts [0] (lit ''rel''))" by code_simp
  moreover have "class_word (lit ''b'')" by code_simp
  ultimately show ?thesis using attr_filter_css [of "lit ''~=''" "lit ''b''" id "\<lambda>_. None" ?ts "lit ''rel''" "[0]"] by simp
qed

section \<open>Positional pseudos\<close>

lemma move_matches_nth:
  "length matches = length seed \<Longrightarrow> k < length seed \<Longrightarrow>
   fst (move_matches js (seed, matches)) ! k = (if int k \<in> set js then None else seed ! k) \<and>
   snd (move_matches js (seed, matches)) ! k =
     (if int k \<in> set js \<and> seed ! k \<noteq> None then seed ! k else matches ! k) \<and>
   length (fst (move_matches js (seed, matches))) = length seed"
proof (induction js arbitrary: seed matches)
  case (Cons j js)
  show ?case
  proof (cases "0 \<le> j \<and> nat j < length seed \<and> seed ! nat j \<noteq> None")
    case True
    with Cons.IH [of "matches[nat j := seed ! nat j]" "seed[nat j := None]"] Cons.prems show ?thesis
      by (cases "j = int k") (auto simp: nth_list_update)
  next
    case False
    with Cons.IH [of matches seed] Cons.prems show ?thesis by (cases "j = int k") auto
  qed
qed simp

lemma move_matches_length:
  "length (fst (move_matches js sm)) = length (fst sm)" "length (snd (move_matches js sm)) = length (snd sm)"
  by (induction js sm rule: move_matches.induct) simp_all

lemma positional_result:
  "createPositionalPseudo fn arg (map Some xs) =
     (map (\<lambda>k. if int k \<in> set (fn (int (length xs)) arg) then None else Some (xs ! k)) [0..<length xs],
      map (\<lambda>k. if int k \<in> set (fn (int (length xs)) arg) then Some (xs ! k) else None) [0..<length xs])"
proof -
  let ?r = "createPositionalPseudo fn arg (map Some xs)"
  have "fst ?r ! k = (if int k \<in> set (fn (int (length xs)) arg) then None else Some (xs ! k))"
    "snd ?r ! k = (if int k \<in> set (fn (int (length xs)) arg) then Some (xs ! k) else None)" if "k < length xs" for k
    using that move_matches_nth [of "replicate (length xs) None" "map Some xs" k "rev (fn (int (length xs)) arg)"]
    by (simp_all add: createPositionalPseudo_def)
  moreover have "length (fst ?r) = length xs" "length (snd ?r) = length xs"
    by (simp_all add: createPositionalPseudo_def move_matches_length)
  ultimately show ?thesis by (intro prod_eqI nth_equalityI) simp_all
qed

lemma set_pos_step: "len \<le> i + 2 * int n \<Longrightarrow> set (pos_step n i len) = {j. j < len \<and> (\<exists>k :: nat. j = i + 2 * int k)}"
proof (induction n arbitrary: i)
  case (Suc n)
  have "(\<exists>k :: nat. j = i + 2 * int k) \<longleftrightarrow> j = i \<or> (\<exists>k :: nat. j = i + 2 + 2 * int k)" for j
  proof
    assume "\<exists>k :: nat. j = i + 2 * int k"
    then obtain k :: nat where "j = i + 2 * int k" ..
    then show "j = i \<or> (\<exists>k :: nat. j = i + 2 + 2 * int k)" by (cases k) auto
  next
    assume "j = i \<or> (\<exists>k :: nat. j = i + 2 + 2 * int k)"
    then show "\<exists>k :: nat. j = i + 2 * int k" by (auto intro: exI [of _ 0] exI [of _ "Suc _"])
  qed
  with Suc show ?case by auto
qed auto

text \<open>
  The positional pseudos pick from a set of nodes, in its order, the first, the last, the one with a
  number, those with even or odd numbers, those before and those after a number; numbers start at 0
  and negative ones count from the end. What is not picked stays in the seed.
\<close>

theorem positional_pseudos:
  "createPositionalPseudo fn arg (map Some xs) =
     (map (\<lambda>k. if int k \<in> set (fn (int (length xs)) arg) then None else Some (xs ! k)) [0..<length xs],
      map (\<lambda>k. if int k \<in> set (fn (int (length xs)) arg) then Some (xs ! k) else None) [0..<length xs]) \<and>
   (k < length xs \<longrightarrow>
     (let n = int (length xs); i = int k; at = (if arg < 0 then arg + n else arg) in
      (i \<in> set (pos_first n arg) \<longleftrightarrow> k = 0) \<and> (i \<in> set (pos_last n arg) \<longleftrightarrow> Suc k = length xs) \<and>
      (i \<in> set (pos_eq n arg) \<longleftrightarrow> i = at) \<and> (i \<in> set (pos_even n arg) \<longleftrightarrow> even k) \<and> (i \<in> set (pos_odd n arg) \<longleftrightarrow> odd k) \<and>
      (i \<in> set (pos_lt n arg) \<longleftrightarrow> i < at) \<and> (i \<in> set (pos_gt n arg) \<longleftrightarrow> i > at)))"
proof -
  have "int k \<in> set (pos_even (int (length xs)) arg) \<longleftrightarrow> even k" if "k < length xs"
    using that by (simp add: pos_even_def set_pos_step) presburger
  moreover have "int k \<in> set (pos_odd (int (length xs)) arg) \<longleftrightarrow> odd k" if "k < length xs"
    using that by (simp add: pos_odd_def set_pos_step) presburger
  ultimately show ?thesis
    by (auto simp: positional_result Let_def pos_first_def pos_last_def pos_eq_def pos_lt_def pos_gt_def)
qed

theorem positional_pseudos_witness:
  "createPositionalPseudo pos_odd 0 (map Some [7, 8, 9 :: nat]) = ([Some 7, None, Some 9], [None, Some 8, None]) \<and>
   (1 :: int) \<in> set (pos_odd 3 0)"
  using positional_pseudos [of pos_odd 0 "[7, 8, 9 :: nat]" 0] positional_pseudos [of pos_odd 0 "[7, 8, 9 :: nat]" 1]
    positional_pseudos [of pos_odd 0 "[7, 8, 9 :: nat]" 2]
  by (simp add: upt_rec Let_def)

end
