(* ===== verification/JQ_Sel_Match.thy ===== *)
theory JQ_Sel_Match
  imports JQ_Sel_Filter
begin

text \<open>
  \<open>jquery-3.5.1.js\<close>, the selector engine: matching from right to left. \<open>addCombinator\<close> walks from an element
  to those it is related to and caches on the nodes it passes whether the walk succeeds; the cached
  array is shared by all nodes of one walk, so that a result found later is seen from all of them.
  \<open>matcherFromTokens\<close> composes filters and combinators, the matcher of a group list tests the elements
  of a seed.

  A matcher is a function on the address of a node and the caches. A token is a combinator or a filter;
  what a filter does is a parameter, given for the filters of \<open>JQ_Sel_Filter\<close> at the end. Tokens are not
  positional: those select by sets (\<open>setMatcher\<close>), which is not modelled.
\<close>

section \<open>Caches\<close>

datatype ckey = KDir dir | KNext jstr

text \<open>A cell is a cached array \<open>[ dirruns, doneName, result ]\<close>; nodes refer to cells by number.\<close>

record sstate =
  ss_cells :: "(int \<times> nat \<times> bool option) list"
  ss_at :: "addr \<Rightarrow> ckey \<Rightarrow> nat option"
  ss_child :: child_cache

type_synonym elem_matcher = "addr \<Rightarrow> sstate \<Rightarrow> bool \<times> sstate"

definition set_cell :: "nat \<Rightarrow> bool option \<Rightarrow> sstate \<Rightarrow> sstate" where
  "set_cell i v st =
     st\<lparr>ss_cells := (ss_cells st)[i := (fst (ss_cells st ! i), fst (snd (ss_cells st ! i)), v)]\<rparr>"

definition set_ref :: "addr \<Rightarrow> ckey \<Rightarrow> nat \<Rightarrow> sstate \<Rightarrow> sstate" where
  "set_ref x k i st = st\<lparr>ss_at := (ss_at st)(x := (ss_at st x)(k \<mapsto> i))\<rparr>"

section \<open>Combinators\<close>

record combinator =
  c_dir :: dir
  c_first :: bool
  c_next :: "jstr option"

definition c_key :: "combinator \<Rightarrow> ckey" where
  "c_key co = (case c_next co of Some n \<Rightarrow> KNext n | None \<Rightarrow> KDir (c_dir co))"

datatype comb = Child | Descendant | Adjacent | Sibling

primrec relative :: "comb \<Rightarrow> combinator" where
  "relative Child = \<lparr>c_dir = ParentNode, c_first = True, c_next = None\<rparr>"
| "relative Descendant = \<lparr>c_dir = ParentNode, c_first = False, c_next = None\<rparr>"
| "relative Adjacent = \<lparr>c_dir = PreviousSibling, c_first = True, c_next = None\<rparr>"
| "relative Sibling = \<lparr>c_dir = PreviousSibling, c_first = False, c_next = None\<rparr>"

definition eligible :: "node list \<Rightarrow> combinator \<Rightarrow> bool \<Rightarrow> addr \<Rightarrow> bool" where
  "eligible ts co base x \<longleftrightarrow> el_type (info_at ts x) = 1 \<or> base \<and> c_key co = KDir ParentNode"

definition skips :: "(jstr \<Rightarrow> jstr) \<Rightarrow> node list \<Rightarrow> combinator \<Rightarrow> addr \<Rightarrow> bool" where
  "skips lower ts co x \<longleftrightarrow> (case c_next co of Some n \<Rightarrow> n \<noteq> [] \<and> n = lower (el_name (info_at ts x)) | None \<Rightarrow> False)"

definition left_to_go :: "node list \<Rightarrow> dir \<Rightarrow> addr \<Rightarrow> nat" where
  "left_to_go ts d a =
     (case d of ParentNode \<Rightarrow> length a | PreviousSibling \<Rightarrow> last a | NextSibling \<Rightarrow> n_kids ts (butlast a) - last a)"

lemma step_less: "step ts d a = Some b \<Longrightarrow> left_to_go ts d b < left_to_go ts d a"
  by (auto simp: step_def left_to_go_def split: if_splits dir.splits)

definition beyond :: "node list \<Rightarrow> dir \<Rightarrow> addr \<Rightarrow> addr" where
  "beyond ts d x = (case step ts d x of Some y \<Rightarrow> y | None \<Rightarrow> x)"

lemma beyond_le: "left_to_go ts d (beyond ts d x) \<le> left_to_go ts d x"
  using step_less [of ts d x] by (auto simp: beyond_def less_imp_le split: option.splits)

text \<open>The closest related node\<close>

function comb_first :: "node list \<Rightarrow> combinator \<Rightarrow> bool \<Rightarrow> elem_matcher \<Rightarrow> elem_matcher" where
  "comb_first ts co base M e st =
     (case step ts (c_dir co) e of
        None \<Rightarrow> (False, st)
      | Some x \<Rightarrow> if eligible ts co base x then M x st else comb_first ts co base M x st)"
  by pat_completeness auto
termination
  by (relation "measure (\<lambda>(ts, co, base, M, e, st). left_to_go ts (c_dir co) e)") (auto dest: step_less)

text \<open>All related nodes, in XML without and otherwise with caches\<close>

function comb_xml :: "node list \<Rightarrow> combinator \<Rightarrow> bool \<Rightarrow> elem_matcher \<Rightarrow> elem_matcher" where
  "comb_xml ts co base M e st =
     (case step ts (c_dir co) e of
        None \<Rightarrow> (False, st)
      | Some x \<Rightarrow>
          if eligible ts co base x then
            case M x st of (b, st1) \<Rightarrow> if b then (True, st1) else comb_xml ts co base M x st1
          else comb_xml ts co base M x st)"
  by pat_completeness auto
termination
  by (relation "measure (\<lambda>(ts, co, base, M, e, st). left_to_go ts (c_dir co) e)") (auto dest: step_less)

definition cached :: "int \<Rightarrow> nat \<Rightarrow> addr \<Rightarrow> ckey \<Rightarrow> sstate \<Rightarrow> bool option option" where
  "cached run name x k st =
     (case ss_at st x k of
        Some i \<Rightarrow> (case ss_cells st ! i of (r, n, v) \<Rightarrow> if r = run \<and> n = name then Some v else None)
      | None \<Rightarrow> None)"

function comb_loop ::
  "(jstr \<Rightarrow> jstr) \<Rightarrow> node list \<Rightarrow> combinator \<Rightarrow> bool \<Rightarrow> int \<Rightarrow> nat \<Rightarrow> nat \<Rightarrow> elem_matcher \<Rightarrow> elem_matcher" where
  "comb_loop lower ts co base run name cell M e st =
     (case step ts (c_dir co) e of
        None \<Rightarrow> (False, st)
      | Some x \<Rightarrow>
          if eligible ts co base x then
            if skips lower ts co x then comb_loop lower ts co base run name cell M (beyond ts (c_dir co) x) st
            else
              case cached run name x (c_key co) st of
                Some v \<Rightarrow> (v = Some True, set_cell cell v st)
              | None \<Rightarrow>
                  (case M x (set_ref x (c_key co) cell st) of
                     (b, st1) \<Rightarrow>
                       if b then (True, set_cell cell (Some True) st1)
                       else comb_loop lower ts co base run name cell M x (set_cell cell (Some False) st1))
          else comb_loop lower ts co base run name cell M x st)"
  by pat_completeness auto
termination
  by (relation "measure (\<lambda>(lower, ts, co, base, run, name, cell, M, e, st). left_to_go ts (c_dir co) e)")
    (auto dest: step_less intro: le_less_trans [OF beyond_le])

declare comb_first.simps [simp del] comb_xml.simps [simp del] comb_loop.simps [simp del]

definition addCombinator ::
  "(jstr \<Rightarrow> jstr) \<Rightarrow> node list \<Rightarrow> bool \<Rightarrow> int \<Rightarrow> elem_matcher \<Rightarrow> combinator \<Rightarrow> bool \<Rightarrow> nat \<Rightarrow> elem_matcher" where
  "addCombinator lower ts xml run M co base name e st =
     (if c_first co then comb_first ts co base M e st
      else if xml then comb_xml ts co base M e st
      else comb_loop lower ts co base run name (length (ss_cells st)) M e
        (st\<lparr>ss_cells := ss_cells st @ [(run, name, None)]\<rparr>))"

section \<open>Matchers\<close>

fun all_matchers :: "elem_matcher list \<Rightarrow> elem_matcher" where
  "all_matchers [] e st = (True, st)"
| "all_matchers (M # Ms) e st = (case M e st of (b, st1) \<Rightarrow> if b then all_matchers Ms e st1 else (False, st1))"

definition elementMatcher :: "elem_matcher list \<Rightarrow> elem_matcher" where
  "elementMatcher matchers = all_matchers (rev matchers)"

datatype 'f token = Comb comb | Filter 'f

datatype contexts = One addr | Many "addr list"

definition in_contexts :: "contexts \<Rightarrow> addr \<Rightarrow> bool" where
  "in_contexts ctx x = (case ctx of One c \<Rightarrow> x = c | Many cs \<Rightarrow> x \<in> set cs)"

fun leading :: "'f token list \<Rightarrow> comb option" where
  "leading (Comb c # _) = Some c"
| "leading _ = None"

text \<open>
  The foundational matcher: \<open>outermost\<close> says that the context is the outermost one, so that an element
  must be reachable from it.
\<close>

definition context_matcher ::
  "(jstr \<Rightarrow> jstr) \<Rightarrow> node list \<Rightarrow> bool \<Rightarrow> int \<Rightarrow> contexts \<Rightarrow> bool \<Rightarrow> comb option \<Rightarrow> nat \<Rightarrow> elem_matcher" where
  "context_matcher lower ts xml run ctx outermost lead done e st =
     (let implicitRelative = relative (case lead of Some c \<Rightarrow> c | None \<Rightarrow> Descendant) in
      if lead = None \<and> (xml \<or> \<not> outermost) then (True, st)
      else
        case ctx of
          One c \<Rightarrow> addCombinator lower ts xml run (\<lambda>x st. (x = c, st)) implicitRelative True done e st
        | Many cs \<Rightarrow> addCombinator lower ts xml run (\<lambda>x st. (index_in cs x > - 1, st)) implicitRelative True (done + 1) e st)"

fun build_matchers ::
  "(jstr \<Rightarrow> jstr) \<Rightarrow> node list \<Rightarrow> bool \<Rightarrow> int \<Rightarrow> ('f \<Rightarrow> elem_matcher) \<Rightarrow> nat \<Rightarrow> elem_matcher list \<Rightarrow> 'f token list \<Rightarrow> elem_matcher list \<times> nat" where
  "build_matchers lower ts xml run flt done matchers [] = (matchers, done)"
| "build_matchers lower ts xml run flt done matchers (Comb c # tokens) =
     build_matchers lower ts xml run flt (done + 1)
       [addCombinator lower ts xml run (elementMatcher matchers) (relative c) False done] tokens"
| "build_matchers lower ts xml run flt done matchers (Filter f # tokens) =
     build_matchers lower ts xml run flt done (matchers @ [flt f]) tokens"

definition matcherFromTokens ::
  "(jstr \<Rightarrow> jstr) \<Rightarrow> node list \<Rightarrow> bool \<Rightarrow> int \<Rightarrow> contexts \<Rightarrow> bool \<Rightarrow> ('f \<Rightarrow> elem_matcher) \<Rightarrow> nat \<Rightarrow> 'f token list \<Rightarrow> elem_matcher \<times> nat" where
  "matcherFromTokens lower ts xml run ctx outermost flt done tokens =
     (let lead = leading tokens;
          (Ms, done1) = build_matchers lower ts xml run flt (done + 2)
            [context_matcher lower ts xml run ctx outermost lead done]
            (if lead = None then tokens else tl tokens)
      in (elementMatcher Ms, done1))"

text \<open>The groups of a selector list are compiled from the last to the first.\<close>

fun compile_groups ::
  "(jstr \<Rightarrow> jstr) \<Rightarrow> node list \<Rightarrow> bool \<Rightarrow> int \<Rightarrow> contexts \<Rightarrow> bool \<Rightarrow> ('f \<Rightarrow> elem_matcher) \<Rightarrow> nat \<Rightarrow> 'f token list list \<Rightarrow> elem_matcher list" where
  "compile_groups lower ts xml run ctx outermost flt done [] = []"
| "compile_groups lower ts xml run ctx outermost flt done (g # gs) =
     (case matcherFromTokens lower ts xml run ctx outermost flt done g of
        (M, done1) \<Rightarrow> M # compile_groups lower ts xml run ctx outermost flt done1 gs)"

fun any_matcher :: "elem_matcher list \<Rightarrow> elem_matcher" where
  "any_matcher [] e st = (False, st)"
| "any_matcher (M # Ms) e st = (case M e st of (b, st1) \<Rightarrow> if b then (True, st1) else any_matcher Ms e st1)"

text \<open>The loop of \<open>superMatcher\<close> over the elements, when there are no set matchers.\<close>

fun superMatcher :: "elem_matcher list \<Rightarrow> addr list \<Rightarrow> sstate \<Rightarrow> addr list \<times> sstate" where
  "superMatcher Ms [] st = ([], st)"
| "superMatcher Ms (e # es) st =
     (case any_matcher Ms e st of
        (b, st1) \<Rightarrow> (case superMatcher Ms es st1 of (rs, st2) \<Rightarrow> (if b then e # rs else rs, st2)))"

definition compile_run ::
  "(jstr \<Rightarrow> jstr) \<Rightarrow> node list \<Rightarrow> bool \<Rightarrow> int \<Rightarrow> contexts \<Rightarrow> bool \<Rightarrow> ('f \<Rightarrow> elem_matcher) \<Rightarrow> nat \<Rightarrow> 'f token list list \<Rightarrow>
   addr list \<Rightarrow> sstate \<Rightarrow> addr list \<times> sstate" where
  "compile_run lower ts xml run ctx outermost flt done match seed st =
     superMatcher (compile_groups lower ts xml run ctx outermost flt done (rev match)) seed st"

section \<open>What selectors mean\<close>

text \<open>
  A selector is read from right to left. \<open>sat\<close> says which elements satisfy a filter; \<open>start\<close> is the condition
  on the element that the leftmost part matches.
\<close>

definition element_siblings :: "node list \<Rightarrow> addr \<Rightarrow> addr list" where
  "element_siblings ts a = filter (\<lambda>x. el_type (info_at ts x) = 1) (walk ts PreviousSibling a)"

definition related :: "node list \<Rightarrow> comb \<Rightarrow> addr \<Rightarrow> addr \<Rightarrow> bool" where
  "related ts c a x =
     (case c of
        Child \<Rightarrow> parentNode a = Some x
      | Descendant \<Rightarrow> x \<noteq> [] \<and> strict_prefix x a
      | Adjacent \<Rightarrow> element_siblings ts a \<noteq> [] \<and> x = hd (element_siblings ts a)
      | Sibling \<Rightarrow> x \<in> set (element_siblings ts a))"

fun css_rev :: "node list \<Rightarrow> ('f \<Rightarrow> addr \<Rightarrow> bool) \<Rightarrow> (addr \<Rightarrow> bool) \<Rightarrow> 'f token list \<Rightarrow> addr \<Rightarrow> bool" where
  "css_rev ts sat start [] a = start a"
| "css_rev ts sat start (Filter f # ks) a = (sat f a \<and> css_rev ts sat start ks a)"
| "css_rev ts sat start (Comb c # ks) a =
     (\<exists>x. related ts c a x \<and> el_type (info_at ts x) = 1 \<and> css_rev ts sat start ks x)"

definition css_start :: "node list \<Rightarrow> bool \<Rightarrow> contexts \<Rightarrow> bool \<Rightarrow> comb option \<Rightarrow> addr \<Rightarrow> bool" where
  "css_start ts xml ctx outermost lead a =
     (case lead of
        Some c \<Rightarrow> (\<exists>x. related ts c a x \<and> in_contexts ctx x)
      | None \<Rightarrow> xml \<or> \<not> outermost \<or> (\<exists>x. related ts Descendant a x \<and> in_contexts ctx x))"

definition css_matches ::
  "node list \<Rightarrow> ('f \<Rightarrow> addr \<Rightarrow> bool) \<Rightarrow> bool \<Rightarrow> contexts \<Rightarrow> bool \<Rightarrow> 'f token list \<Rightarrow> addr \<Rightarrow> bool" where
  "css_matches ts sat xml ctx outermost tokens a =
     css_rev ts sat (css_start ts xml ctx outermost (leading tokens))
       (rev (if leading tokens = None then tokens else tl tokens)) a"

section \<open>Caches and walks\<close>

text \<open>The result of a walk without caches\<close>

function sem_loop :: "(jstr \<Rightarrow> jstr) \<Rightarrow> node list \<Rightarrow> combinator \<Rightarrow> bool \<Rightarrow> (addr \<Rightarrow> bool) \<Rightarrow> addr \<Rightarrow> bool" where
  "sem_loop lower ts co base P e =
     (case step ts (c_dir co) e of
        None \<Rightarrow> False
      | Some x \<Rightarrow>
          if eligible ts co base x then
            if skips lower ts co x then sem_loop lower ts co base P (beyond ts (c_dir co) x)
            else P x \<or> sem_loop lower ts co base P x
          else sem_loop lower ts co base P x)"
  by pat_completeness auto
termination
  by (relation "measure (\<lambda>(lower, ts, co, base, P, e). left_to_go ts (c_dir co) e)")
    (auto dest: step_less intro: le_less_trans [OF beyond_le])

declare sem_loop.simps [simp del]

text \<open>
  The names of combinators stand for predicates: \<open>N n\<close> is what the combinator with name \<open>n\<close> should have
  cached on a node. Names that \<open>N\<close> leaves out are those of walks in progress.
\<close>

definition sinv :: "node list \<Rightarrow> int \<Rightarrow> (nat \<rightharpoonup> (addr \<Rightarrow> bool)) \<Rightarrow> sstate \<Rightarrow> bool" where
  "sinv ts run N st \<longleftrightarrow>
     (\<forall>x k i. ss_at st x k = Some i \<longrightarrow> i < length (ss_cells st)) \<and>
     (\<forall>x k i n v Q. ss_at st x k = Some i \<and> ss_cells st ! i = (run, n, v) \<and> N n = Some Q \<longrightarrow> v = Some (Q x)) \<and>
     cc_ok ts run (ss_child st)"

definition carries :: "nat set \<Rightarrow> sstate \<Rightarrow> sstate \<Rightarrow> bool" where
  "carries D st st' \<longleftrightarrow>
     length (ss_cells st) \<le> length (ss_cells st') \<and>
     (\<forall>i < length (ss_cells st). ss_cells st' ! i = ss_cells st ! i) \<and>
     (\<forall>x k i. ss_at st' x k = Some i \<longrightarrow>
        ss_at st x k = Some i \<or> length (ss_cells st) \<le> i \<and> fst (snd (ss_cells st' ! i)) \<in> D)"

definition mok ::
  "node list \<Rightarrow> int \<Rightarrow> (nat \<rightharpoonup> (addr \<Rightarrow> bool)) \<Rightarrow> (addr \<Rightarrow> bool) \<Rightarrow> elem_matcher \<Rightarrow> (addr \<Rightarrow> bool) \<Rightarrow> bool" where
  "mok ts run N G M P \<longleftrightarrow>
     (\<forall>N' st e. N \<subseteq>\<^sub>m N' \<and> sinv ts run N' st \<and> G e \<longrightarrow>
        fst (M e st) = P e \<and> sinv ts run N' (snd (M e st)) \<and> carries (dom N) st (snd (M e st)))"

lemma sinvD:
  "sinv ts run N st \<Longrightarrow> ss_at st x k = Some i \<Longrightarrow> ss_cells st ! i = (run, n, v) \<Longrightarrow> N n = Some Q \<Longrightarrow> v = Some (Q x)"
  unfolding sinv_def by blast

lemma carries_refl: "carries D st st"
  by (simp add: carries_def)

lemma carries_trans:
  assumes "carries D st st1" "carries E st1 st2" "D \<subseteq> F" "E \<subseteq> F" "\<And>x k i. ss_at st1 x k = Some i \<Longrightarrow> i < length (ss_cells st1)"
  shows "carries F st st2"
  unfolding carries_def
proof (intro conjI allI impI)
  show "length (ss_cells st) \<le> length (ss_cells st2)" using assms(1,2) by (simp add: carries_def)
  show "ss_cells st2 ! i = ss_cells st ! i" if "i < length (ss_cells st)" for i
    using assms(1,2) that unfolding carries_def by (metis order.strict_trans2)
  show "ss_at st x k = Some i \<or> length (ss_cells st) \<le> i \<and> fst (snd (ss_cells st2 ! i)) \<in> F"
    if a: "ss_at st2 x k = Some i" for x k i
  proof (cases "ss_at st1 x k = Some i")
    case True
    with assms show ?thesis unfolding carries_def by (metis subsetD)
  next
    case False
    with a assms(1,2,4) show ?thesis unfolding carries_def by (metis order.trans subsetD)
  qed
qed

lemma mok_mono: "mok ts run N G M P \<Longrightarrow> N \<subseteq>\<^sub>m N1 \<Longrightarrow> mok ts run N1 G M P"
proof -
  assume m: "mok ts run N G M P" and n: "N \<subseteq>\<^sub>m N1"
  have "dom N \<subseteq> dom N1" using n by (rule map_le_implies_dom_le)
  then have "carries (dom N) st st' \<Longrightarrow> carries (dom N1) st st'" for st st' unfolding carries_def by blast
  with m n show ?thesis unfolding mok_def using map_le_trans by blast
qed

lemma mok_pure: "mok ts run N G (\<lambda>x st. (P x, st)) P"
  by (simp add: mok_def carries_refl)

text \<open>
  The state of a walk that started in \<open>st0\<close> and has reached \<open>e\<close>: all passed nodes refer to its cell and
  should say \<open>r\<close>, the result of the walk, while the cell says that nothing was found yet (\<open>v\<close>).
\<close>

definition loop_inv ::
  "node list \<Rightarrow> int \<Rightarrow> (nat \<rightharpoonup> (addr \<Rightarrow> bool)) \<Rightarrow> nat \<Rightarrow> (addr \<Rightarrow> bool) \<Rightarrow> combinator \<Rightarrow> nat set \<Rightarrow> bool \<Rightarrow> sstate \<Rightarrow>
   addr \<Rightarrow> bool \<Rightarrow> sstate \<Rightarrow> bool" where
  "loop_inv ts run N n Q co D r st0 e v st \<longleftrightarrow>
     sinv ts run (N(n := None)) st \<and> carries (insert n D) st0 st \<and> length (ss_cells st0) < length (ss_cells st) \<and>
     (\<exists>w. ss_cells st ! length (ss_cells st0) = (run, n, w)) \<and>
     (\<forall>x k i w. ss_at st x k = Some i \<and> i \<noteq> length (ss_cells st0) \<and> ss_cells st ! i = (run, n, w) \<longrightarrow> w = Some (Q x)) \<and>
     (\<forall>x k. ss_at st x k = Some (length (ss_cells st0)) \<longrightarrow>
        left_to_go ts (c_dir co) e \<le> left_to_go ts (c_dir co) x \<and> Q x = r \<and>
        ss_cells st ! length (ss_cells st0) = (run, n, Some v))"

lemma loop_inv_move:
  "loop_inv ts run N n Q co D r st0 e v st \<Longrightarrow> left_to_go ts (c_dir co) x \<le> left_to_go ts (c_dir co) e \<Longrightarrow>
   loop_inv ts run N n Q co D r st0 x v st"
  unfolding loop_inv_def by (meson order.trans)

lemma loop_inv_end:
  assumes "loop_inv ts run N n Q co D r st0 e r st" "N n = Some Q"
  shows "sinv ts run N st" "carries (insert n D) st0 st"
proof -
  show "carries (insert n D) st0 st" using assms(1) by (simp add: loop_inv_def)
  have ok: "w = Some (R x)" if a: "ss_at st x k = Some i" "ss_cells st ! i = (run, m, w)" "N m = Some R" for x k i m w R
  proof (cases "m = n")
    case True
    show ?thesis
    proof (cases "i = length (ss_cells st0)")
      case True
      with a assms \<open>m = n\<close> show ?thesis unfolding loop_inv_def by auto
    next
      case False
      with a assms \<open>m = n\<close> show ?thesis unfolding loop_inv_def by auto
    qed
  next
    case False
    have "sinv ts run (N(n := None)) st" using assms(1) by (simp add: loop_inv_def)
    from sinvD [OF this a(1,2)] a(3) False show ?thesis by simp
  qed
  have "\<forall>x k i. ss_at st x k = Some i \<longrightarrow> i < length (ss_cells st)" "cc_ok ts run (ss_child st)"
    using assms(1) unfolding loop_inv_def sinv_def by blast+
  then show "sinv ts run N st" unfolding sinv_def by (intro conjI allI impI) (simp, elim conjE, rule ok)
qed

lemma set_cell_sel [simp]:
  "ss_at (set_cell i v st) = ss_at st" "ss_child (set_cell i v st) = ss_child st"
  "length (ss_cells (set_cell i v st)) = length (ss_cells st)"
  "j \<noteq> i \<Longrightarrow> ss_cells (set_cell i v st) ! j = ss_cells st ! j"
  "i < length (ss_cells st) \<Longrightarrow> ss_cells (set_cell i v st) ! i = (fst (ss_cells st ! i), fst (snd (ss_cells st ! i)), v)"
  by (simp_all add: set_cell_def)

lemma set_ref_sel [simp]:
  "ss_at (set_ref x k i st) y j = (if y = x \<and> j = k then Some i else ss_at st y j)"
  "ss_cells (set_ref x k i st) = ss_cells st" "ss_child (set_ref x k i st) = ss_child st"
  by (simp_all add: set_ref_def)

lemma loop_inv_set:
  assumes "loop_inv ts run N n Q co D r st0 e v st"
  shows "loop_inv ts run N n Q co D r st0 e w (set_cell (length (ss_cells st0)) (Some w) st)"
proof -
  let ?c = "length (ss_cells st0)"
  obtain u where u: "ss_cells st ! ?c = (run, n, u)" and l: "?c < length (ss_cells st)"
    using assms by (auto simp: loop_inv_def)
  have c: "ss_cells (set_cell ?c (Some w) st) ! i = (if i = ?c then (run, n, Some w) else ss_cells st ! i)" for i
    using u l by simp
  have "sinv ts run (N(n := None)) (set_cell ?c (Some w) st)"
    using assms unfolding loop_inv_def sinv_def c by (auto split: if_splits)
  moreover have "carries (insert n D) st0 (set_cell ?c (Some w) st)"
    using assms unfolding loop_inv_def carries_def c by auto
  ultimately show ?thesis using assms l unfolding loop_inv_def c by auto
qed

lemma loop_inv_match:
  assumes inv: "loop_inv ts run N n Q co D r st0 e v st"
    and M: "mok ts run Nm G M P" "dom Nm = D" "Nm \<subseteq>\<^sub>m N(n := None)" "n \<notin> D" "G x"
    and x: "left_to_go ts (c_dir co) x \<le> left_to_go ts (c_dir co) e" "Q x = r"
    and st2: "snd (M x (set_ref x k (length (ss_cells st0)) st)) = st2"
  shows "loop_inv ts run N n Q co D r st0 x w (set_cell (length (ss_cells st0)) (Some w) st2)"
proof -
  let ?c = "length (ss_cells st0)"
  let ?st1 = "set_ref x k ?c st"
  obtain u where u: "ss_cells st ! ?c = (run, n, u)" and l: "?c < length (ss_cells st)"
    using inv by (auto simp: loop_inv_def)
  have s1: "sinv ts run (N(n := None)) ?st1"
    using inv u l unfolding loop_inv_def sinv_def by (auto split: if_splits)
  with M have s2: "sinv ts run (N(n := None)) st2" and k2: "carries D ?st1 st2"
    unfolding mok_def st2 [symmetric] by blast+
  have len: "length (ss_cells st) \<le> length (ss_cells st2)" and
    same: "\<And>i. i < length (ss_cells st) \<Longrightarrow> ss_cells st2 ! i = ss_cells st ! i" and
    refs: "\<And>y j i. ss_at st2 y j = Some i \<Longrightarrow> ss_at ?st1 y j = Some i \<or> length (ss_cells st) \<le> i \<and> fst (snd (ss_cells st2 ! i)) \<in> D"
    using k2 by (auto simp: carries_def)
  have below: "\<And>y j i. ss_at st y j = Some i \<Longrightarrow> i < length (ss_cells st)" using inv by (auto simp: loop_inv_def sinv_def)
  have c: "ss_cells (set_cell ?c (Some w) st2) ! i = (if i = ?c then (run, n, Some w) else ss_cells st2 ! i)" for i
    using u l len same [OF l] by simp
  have k1: "carries (insert n D) st0 ?st1"
    using inv u unfolding loop_inv_def carries_def by auto
  have k: "carries (insert n D) st0 st2"
    by (rule carries_trans [OF k1 k2]) (use below l in \<open>auto split: if_splits\<close>)
  have new: "ss_at ?st1 y j = Some i" if "ss_at st2 y j = Some i" "fst (snd (ss_cells st2 ! i)) = n" for y j i
    using refs [OF that(1)] that(2) M(4) by auto
  show ?thesis
    unfolding loop_inv_def
  proof (intro conjI allI impI)
    show "sinv ts run (N(n := None)) (set_cell ?c (Some w) st2)"
      using s2 u l same [OF l] unfolding sinv_def c by (auto split: if_splits)
    show "carries (insert n D) st0 (set_cell ?c (Some w) st2)"
      using k unfolding carries_def c by auto
    show "?c < length (ss_cells (set_cell ?c (Some w) st2))" using l len by simp
    show "\<exists>w'. ss_cells (set_cell ?c (Some w) st2) ! ?c = (run, n, w')" by (simp add: c)
  next
    fix y j i w'
    assume a: "ss_at (set_cell ?c (Some w) st2) y j = Some i \<and> i \<noteq> ?c \<and> ss_cells (set_cell ?c (Some w) st2) ! i = (run, n, w')"
    then have "ss_at ?st1 y j = Some i" "i \<noteq> ?c" "ss_cells st2 ! i = (run, n, w')" using new [of y j i] by (auto simp: c)
    then have "ss_at st y j = Some i" "ss_cells st ! i = (run, n, w')" using below same by (auto split: if_splits)
    with \<open>i \<noteq> ?c\<close> inv show "w' = Some (Q y)" unfolding loop_inv_def by blast
  next
    fix y j
    assume "ss_at (set_cell ?c (Some w) st2) y j = Some ?c"
    then have "ss_at ?st1 y j = Some ?c" using new [of y j ?c] same [OF l] u by simp
    then have "y = x \<or> ss_at st y j = Some ?c" by (auto split: if_splits)
    with inv x show "left_to_go ts (c_dir co) x \<le> left_to_go ts (c_dir co) y" "Q y = r"
      unfolding loop_inv_def by (auto intro: order.trans)
    show "ss_cells (set_cell ?c (Some w) st2) ! ?c = (run, n, Some w)" by (simp add: c)
  qed
qed

lemma valid_step: "step ts d a = Some b \<Longrightarrow> valid ts a \<Longrightarrow> valid ts b"
proof -
  assume s: "step ts d a = Some b" and v: "valid ts a"
  then have l: "1 < length a" by (auto simp: step_def split: if_splits)
  then obtain p i where a: "a = p @ [i]" "p \<noteq> []" by (cases a rule: rev_cases) auto
  have i: "i < n_kids ts p" and vp: "valid ts p"
    using v valid_snoc [OF a(2), of ts i] valid_prefix [of ts p "[i]"] a by (simp, blast)
  have "\<not> length a \<le> 1" using l by simp
  then show ?thesis
    using s i vp unfolding step_def a
    by (cases d) (auto simp: valid_snoc [OF a(2)] split: if_splits)
qed

lemma valid_beyond: "valid ts x \<Longrightarrow> valid ts (beyond ts d x)"
  using valid_step [of ts d x] by (auto simp: beyond_def split: option.splits)

lemma comb_loop_ok:
  assumes M: "mok ts run Nm G M P" "n \<notin> dom Nm" "Nm \<subseteq>\<^sub>m N(n := None)" "N n = Some Q"
    and Q: "Q = (\<lambda>x. P x \<or> sem_loop lower ts co base P x)"
    and G: "\<And>x. valid ts x \<Longrightarrow> eligible ts co base x \<Longrightarrow> G x"
    and inv: "loop_inv ts run N n Q co (dom Nm) r st0 e False st" "r = sem_loop lower ts co base P e" "valid ts e"
  shows "fst (comb_loop lower ts co base run n (length (ss_cells st0)) M e st) = r \<and>
    sinv ts run N (snd (comb_loop lower ts co base run n (length (ss_cells st0)) M e st)) \<and>
    carries (insert n (dom Nm)) st0 (snd (comb_loop lower ts co base run n (length (ss_cells st0)) M e st))"
  using inv
proof (induction "left_to_go ts (c_dir co) e" arbitrary: e st rule: less_induct)
  case less
  let ?c = "length (ss_cells st0)"
  show ?case
  proof (cases "step ts (c_dir co) e")
    case None
    then have "comb_loop lower ts co base run n ?c M e st = (False, st)" "\<not> r"
      using less.prems(2) by (simp_all add: comb_loop.simps [of _ _ _ _ _ _ _ _ e] sem_loop.simps [of _ _ _ _ _ e])
    then show ?thesis using less.prems(1) loop_inv_end [of ts run N n Q co "dom Nm" False st0 e st] M(4) by simp
  next
    case (Some x)
    note lt = step_less [OF Some] and vx = valid_step [OF Some less.prems(3)]
    have rec: "fst (comb_loop lower ts co base run n ?c M y st') = r \<and>
        sinv ts run N (snd (comb_loop lower ts co base run n ?c M y st')) \<and>
        carries (insert n (dom Nm)) st0 (snd (comb_loop lower ts co base run n ?c M y st'))"
      if "left_to_go ts (c_dir co) y \<le> left_to_go ts (c_dir co) x" "loop_inv ts run N n Q co (dom Nm) r st0 y False st'"
        "r = sem_loop lower ts co base P y" "valid ts y" for y st'
      using less.hyps [of y st'] that lt by simp
    consider (no) "\<not> eligible ts co base x" | (skip) "eligible ts co base x" "skips lower ts co x"
      | (test) "eligible ts co base x" "\<not> skips lower ts co x" by blast
    then show ?thesis
    proof cases
      case no
      then have "comb_loop lower ts co base run n ?c M e st = comb_loop lower ts co base run n ?c M x st"
        "r = sem_loop lower ts co base P x"
        using less.prems(2) Some by (simp_all add: comb_loop.simps [of _ _ _ _ _ _ _ _ e] sem_loop.simps [of _ _ _ _ _ e])
      then show ?thesis using rec [of x st] loop_inv_move [OF less.prems(1)] lt vx by simp
    next
      case skip
      then have "comb_loop lower ts co base run n ?c M e st = comb_loop lower ts co base run n ?c M (beyond ts (c_dir co) x) st"
        "r = sem_loop lower ts co base P (beyond ts (c_dir co) x)"
        using less.prems(2) Some by (simp_all add: comb_loop.simps [of _ _ _ _ _ _ _ _ e] sem_loop.simps [of _ _ _ _ _ e])
      then show ?thesis
        using rec [of "beyond ts (c_dir co) x" st] loop_inv_move [OF less.prems(1)] lt valid_beyond [OF vx]
          beyond_le [of ts "c_dir co" x] by simp
    next
      case test
      have r: "r = Q x" using test less.prems(2) Some by (simp add: Q sem_loop.simps [of _ _ _ _ _ e])
      show ?thesis
      proof (cases "cached run n x (c_key co) st")
        case hit: (Some v)
        then obtain i where i: "ss_at st x (c_key co) = Some i" "ss_cells st ! i = (run, n, v)"
          by (auto simp: cached_def split: option.splits prod.splits if_splits)
        have "i \<noteq> ?c" using less.prems(1) i(1) lt unfolding loop_inv_def by (metis leD)
        then have v: "v = Some r" using less.prems(1) i r unfolding loop_inv_def by blast
        have "comb_loop lower ts co base run n ?c M e st = (r, set_cell ?c (Some r) st)"
          using Some test hit v by (simp add: comb_loop.simps [of _ _ _ _ _ _ _ _ e])
        then show ?thesis using loop_inv_end [OF loop_inv_set [OF less.prems(1)] M(4)] by simp
      next
        case miss: None
        obtain b st2 where b: "M x (set_ref x (c_key co) ?c st) = (b, st2)" by (cases "M x (set_ref x (c_key co) ?c st)")
        have le: "left_to_go ts (c_dir co) x \<le> left_to_go ts (c_dir co) e" using lt by simp
        have next_inv: "loop_inv ts run N n Q co (dom Nm) r st0 x w (set_cell ?c (Some w) st2)" for w
          by (rule loop_inv_match [where k = "c_key co", OF less.prems(1) M(1) refl M(3,2) G [OF vx test(1)] le]) (simp_all add: r b)
        have Pb: "b = P x"
        proof -
          have "sinv ts run (N(n := None)) (set_ref x (c_key co) ?c st)"
            using less.prems(1) unfolding loop_inv_def sinv_def by (auto split: if_splits)
          with M(1,3) G [OF vx test(1)] b show ?thesis unfolding mok_def by (metis fst_conv)
        qed
        show ?thesis
        proof (cases b)
          case True
          with Pb r have "r" by (simp add: Q)
          moreover have "comb_loop lower ts co base run n ?c M e st = (True, set_cell ?c (Some True) st2)"
            using Some test miss b True by (simp add: comb_loop.simps [of _ _ _ _ _ _ _ _ e])
          ultimately show ?thesis using loop_inv_end [of ts run N n Q co "dom Nm" True st0 x] next_inv [of True] M(4) by simp
        next
          case False
          then have "comb_loop lower ts co base run n ?c M e st = comb_loop lower ts co base run n ?c M x (set_cell ?c (Some False) st2)"
            using Some test miss b by (simp add: comb_loop.simps [of _ _ _ _ _ _ _ _ e])
          moreover have "r = sem_loop lower ts co base P x" using r Pb False by (simp add: Q)
          ultimately show ?thesis using rec [of x "set_cell ?c (Some False) st2"] next_inv [of False] vx by simp
        qed
      qed
    qed
  qed
qed

section \<open>Combinators compute relations\<close>

definition no_skip :: "combinator \<Rightarrow> bool" where
  "no_skip co \<longleftrightarrow> c_next co = None"

lemma relative_no_skip [simp]: "no_skip (relative c)"
  by (cases c) (simp_all add: no_skip_def)

lemma sem_loop_walk:
  "no_skip co \<Longrightarrow> sem_loop lower ts co base P e \<longleftrightarrow> (\<exists>x \<in> set (walk ts (c_dir co) e). eligible ts co base x \<and> P x)"
proof (induction "left_to_go ts (c_dir co) e" arbitrary: e rule: less_induct)
  case less
  then show ?case
    using step_less [of ts "c_dir co" e]
    by (cases "step ts (c_dir co) e")
      (auto simp: sem_loop.simps [of _ _ _ _ _ e] walk_None walk_Some skips_def no_skip_def)
qed

definition sem_first :: "node list \<Rightarrow> combinator \<Rightarrow> bool \<Rightarrow> (addr \<Rightarrow> bool) \<Rightarrow> addr \<Rightarrow> bool" where
  "sem_first ts co base P e =
     (case filter (eligible ts co base) (walk ts (c_dir co) e) of [] \<Rightarrow> False | x # _ \<Rightarrow> P x)"

definition sem_comb :: "node list \<Rightarrow> combinator \<Rightarrow> bool \<Rightarrow> (addr \<Rightarrow> bool) \<Rightarrow> addr \<Rightarrow> bool" where
  "sem_comb ts co base P e =
     (if c_first co then sem_first ts co base P e
      else \<exists>x \<in> set (walk ts (c_dir co) e). eligible ts co base x \<and> P x)"

lemma mokD:
  assumes "mok ts run N G M P" "N \<subseteq>\<^sub>m N'" "sinv ts run N' st" "G e"
  shows "fst (M e st) = P e" "sinv ts run N' (snd (M e st))" "carries (dom N) st (snd (M e st))"
  using assms unfolding mok_def by blast+

lemma sinv_refs: "sinv ts run N st \<Longrightarrow> ss_at st x k = Some i \<Longrightarrow> i < length (ss_cells st)"
  by (simp add: sinv_def)

lemma comb_first_ok:
  assumes "mok ts run N G M P" "\<And>x. valid ts x \<Longrightarrow> eligible ts co base x \<Longrightarrow> G x"
  shows "mok ts run N (valid ts) (comb_first ts co base M) (sem_first ts co base P)"
  unfolding mok_def
proof (intro allI impI, elim conjE)
  fix N' st e
  assume N: "N \<subseteq>\<^sub>m N'" "sinv ts run N' st" and v: "valid ts e"
  from v show "fst (comb_first ts co base M e st) = sem_first ts co base P e \<and>
      sinv ts run N' (snd (comb_first ts co base M e st)) \<and> carries (dom N) st (snd (comb_first ts co base M e st))"
  proof (induction "left_to_go ts (c_dir co) e" arbitrary: e rule: less_induct)
    case less
    show ?case
    proof (cases "step ts (c_dir co) e")
      case None
      then show ?thesis using N by (simp add: comb_first.simps [of _ _ _ _ e] sem_first_def walk_None carries_refl)
    next
      case (Some x)
      note x = valid_step [OF Some less.prems] step_less [OF Some]
      show ?thesis
      proof (cases "eligible ts co base x")
        case True
        with Some mokD [OF assms(1) N assms(2) [OF x(1)]] show ?thesis
          by (simp add: comb_first.simps [of _ _ _ _ e] sem_first_def walk_Some)
      next
        case False
        with Some less.hyps [OF x(2,1)] show ?thesis
          by (simp add: comb_first.simps [of _ _ _ _ e] sem_first_def walk_Some)
      qed
    qed
  qed
qed

lemma comb_xml_ok:
  assumes "mok ts run N G M P" "\<And>x. valid ts x \<Longrightarrow> eligible ts co base x \<Longrightarrow> G x"
  shows "mok ts run N (valid ts) (comb_xml ts co base M) (\<lambda>e. \<exists>x \<in> set (walk ts (c_dir co) e). eligible ts co base x \<and> P x)"
  unfolding mok_def
proof (intro allI impI, elim conjE)
  fix N' st e
  assume N: "N \<subseteq>\<^sub>m N'" and st: "sinv ts run N' st" and v: "valid ts e"
  from st v show "fst (comb_xml ts co base M e st) = (\<exists>x \<in> set (walk ts (c_dir co) e). eligible ts co base x \<and> P x) \<and>
      sinv ts run N' (snd (comb_xml ts co base M e st)) \<and> carries (dom N) st (snd (comb_xml ts co base M e st))"
  proof (induction "left_to_go ts (c_dir co) e" arbitrary: e st rule: less_induct)
    case less
    show ?case
    proof (cases "step ts (c_dir co) e")
      case None
      then show ?thesis using less.prems by (simp add: comb_xml.simps [of _ _ _ _ e] walk_None carries_refl)
    next
      case (Some x)
      note x = valid_step [OF Some less.prems(2)] step_less [OF Some]
      show ?thesis
      proof (cases "eligible ts co base x")
        case True
        obtain b st1 where b: "M x st = (b, st1)" by (cases "M x st")
        with mokD [OF assms(1) N less.prems(1) assms(2) [OF x(1) True]]
        have m: "b = P x" "sinv ts run N' st1" "carries (dom N) st st1" by simp_all
        have k: "carries (dom N) st1 st2 \<Longrightarrow> carries (dom N) st st2" for st2
          by (rule carries_trans [OF m(3) _ order_refl order_refl]) (simp_all add: sinv_refs [OF m(2)])
        show ?thesis
          using Some True b m less.hyps [OF x(2) m(2) x(1)] k
          by (cases b) (simp_all add: comb_xml.simps [of _ _ _ _ e] walk_Some)
      next
        case False
        with Some less.hyps [OF x(2) less.prems(1) x(1)] show ?thesis
          by (simp add: comb_xml.simps [of _ _ _ _ e] walk_Some)
      qed
    qed
  qed
qed

lemma addCombinator_ok:
  assumes M: "mok ts run N G M P" "n \<notin> dom N" "no_skip co"
    and G: "\<And>x. valid ts x \<Longrightarrow> eligible ts co base x \<Longrightarrow> G x"
  shows "mok ts run (N(n \<mapsto> \<lambda>x. P x \<or> sem_loop lower ts co base P x)) (valid ts)
    (addCombinator lower ts xml run M co base n) (sem_comb ts co base P)"
proof -
  let ?Q = "\<lambda>x. P x \<or> sem_loop lower ts co base P x"
  have ext: "N \<subseteq>\<^sub>m N(n \<mapsto> ?Q)" using M(2) by (auto simp: map_le_def)
  consider (first) "c_first co" | (xml) "\<not> c_first co" "xml" | (html) "\<not> c_first co" "\<not> xml" by blast
  then show ?thesis
  proof cases
    case first
    then have "addCombinator lower ts xml run M co base n = comb_first ts co base M" "sem_comb ts co base P = sem_first ts co base P"
      by (simp_all add: fun_eq_iff addCombinator_def sem_comb_def)
    then show ?thesis using mok_mono [OF comb_first_ok [OF M(1) G] ext] by simp
  next
    case xml
    then have "addCombinator lower ts xml run M co base n = comb_xml ts co base M"
      "sem_comb ts co base P = (\<lambda>e. \<exists>x \<in> set (walk ts (c_dir co) e). eligible ts co base x \<and> P x)"
      by (simp_all add: fun_eq_iff addCombinator_def sem_comb_def)
    then show ?thesis using mok_mono [OF comb_xml_ok [OF M(1) G] ext] by simp
  next
    case html
    show ?thesis
      unfolding mok_def
    proof (intro allI impI, elim conjE)
      fix N' st e
      assume N': "N(n \<mapsto> ?Q) \<subseteq>\<^sub>m N'" and st: "sinv ts run N' st" and v: "valid ts e"
      have n: "N' n = Some ?Q" using N' by (auto simp: map_le_def)
      have sub: "N \<subseteq>\<^sub>m N'(n := None)" using N' M(2) by (auto simp: map_le_def dom_def)
      let ?st1 = "st\<lparr>ss_cells := ss_cells st @ [(run, n, None)]\<rparr>"
      have refs: "\<And>x k i. ss_at st x k = Some i \<Longrightarrow> i < length (ss_cells st)" using st by (rule sinv_refs)
      have s1: "sinv ts run (N'(n := None)) ?st1"
        unfolding sinv_def
      proof (intro conjI allI impI)
        fix x k i m w R
        assume a: "ss_at ?st1 x k = Some i \<and> ss_cells ?st1 ! i = (run, m, w) \<and> (N'(n := None)) m = Some R"
        then have "ss_at st x k = Some i" "ss_cells st ! i = (run, m, w)" "N' m = Some R"
          using refs [of x k i] by (auto simp: nth_append split: if_splits)
        then show "w = Some (R x)" by (rule sinvD [OF st])
      qed (use st refs in \<open>auto simp: sinv_def less_Suc_eq\<close>)
      have "loop_inv ts run N' n ?Q co (dom N) (sem_loop lower ts co base P e) st e False ?st1"
        unfolding loop_inv_def
      proof (intro conjI allI impI)
        show "carries (insert n (dom N)) st ?st1" by (auto simp: carries_def nth_append)
        fix x k i w
        assume a: "ss_at ?st1 x k = Some i \<and> i \<noteq> length (ss_cells st) \<and> ss_cells ?st1 ! i = (run, n, w)"
        then have "ss_at st x k = Some i" "ss_cells st ! i = (run, n, w)" using refs [of x k i] by (auto simp: nth_append)
        then show "w = Some (?Q x)" by (rule sinvD [OF st _ _ n])
      qed (use s1 refs in auto)
      from comb_loop_ok [OF M(1,2) sub n refl G this refl v] html sem_loop_walk [OF M(3), of lower ts base P e]
      show "fst (addCombinator lower ts xml run M co base n e st) = sem_comb ts co base P e \<and>
          sinv ts run N' (snd (addCombinator lower ts xml run M co base n e st)) \<and>
          carries (dom (N(n \<mapsto> ?Q))) st (snd (addCombinator lower ts xml run M co base n e st))"
        by (simp add: addCombinator_def sem_comb_def)
    qed
  qed
qed

section \<open>Relations\<close>

text \<open>Only a root may be a parent that is not an element.\<close>

definition wf_doc :: "node list \<Rightarrow> bool" where
  "wf_doc ts \<longleftrightarrow> (\<forall>x. valid ts x \<and> 0 < n_kids ts x \<and> 1 < length x \<longrightarrow> el_type (info_at ts x) = 1)"

lemma walk_parent_set: "set (walk ts ParentNode a) = {x. x \<noteq> [] \<and> strict_prefix x a}"
proof -
  have "x \<in> set (walk ts ParentNode a) \<longleftrightarrow> x \<noteq> [] \<and> strict_prefix x a" for x
  proof (cases "x = []")
    case True
    have "[] \<notin> set (walk ts ParentNode a)" by (auto simp: walk_parents)
    with True show ?thesis by simp
  next
    case False
    then show ?thesis using contains_walk_prefix [OF False, of ts a] by (auto simp: contains_walk_def list_ex_iff)
  qed
  then show ?thesis by blast
qed

lemma parent_walk: "parentNode a = Some p \<Longrightarrow> walk ts ParentNode a = p # walk ts ParentNode p"
  by (rule walk_Some) (auto simp: parentNode_def step_def split: if_splits)

lemma parent_root: "parentNode a = None \<Longrightarrow> walk ts ParentNode a = []"
  by (rule walk_None) (simp add: parentNode_def step_def split: if_splits)

lemma sem_comb_related:
  assumes "valid ts a" "wf_doc ts"
  shows "sem_comb ts (relative c) False P a \<longleftrightarrow> (\<exists>x. related ts c a x \<and> el_type (info_at ts x) = 1 \<and> P x)"
proof (cases c)
  case Child
  show ?thesis
  proof (cases "parentNode a")
    case None
    then show ?thesis using Child by (simp add: sem_comb_def sem_first_def related_def parent_root)
  next
    case (Some p)
    note e = parent_child [OF Some assms(1)]
    have "valid ts p" using valid_prefix [of ts p "[last a]"] assms(1) e(1,4) by metis
    have "el_type (info_at ts p) = 1 \<or> parentNode p = None"
    proof (cases "1 < length p")
      case True
      have "0 < n_kids ts p" using e(2) by simp
      with True \<open>valid ts p\<close> assms(2) show ?thesis unfolding wf_doc_def by blast
    qed (simp add: parentNode_def step_def)
    with Some Child show ?thesis
      by (auto simp: sem_comb_def sem_first_def related_def parent_walk parent_root eligible_def c_key_def)
  qed
next
  case Descendant
  then show ?thesis by (auto simp: sem_comb_def related_def walk_parent_set eligible_def c_key_def)
next
  case Adjacent
  have "filter (eligible ts (relative Adjacent) False) (walk ts PreviousSibling a) = element_siblings ts a"
    unfolding element_siblings_def by (rule filter_cong) (simp_all add: eligible_def c_key_def)
  moreover have "el_type (info_at ts x) = 1" if "x \<in> set (element_siblings ts a)" for x
    using that by (simp add: element_siblings_def)
  ultimately show ?thesis
    using Adjacent by (auto simp: sem_comb_def sem_first_def related_def neq_Nil_conv split: list.splits)
next
  case Sibling
  then show ?thesis by (auto simp: sem_comb_def related_def element_siblings_def eligible_def c_key_def)
qed

lemma sem_comb_context:
  "sem_comb ts (relative c) True P a \<longleftrightarrow> (\<exists>x. related ts c a x \<and> P x)"
proof (cases c)
  case Child
  show ?thesis
    using Child by (cases "parentNode a") (simp_all add: sem_comb_def sem_first_def related_def parent_root parent_walk eligible_def c_key_def)
next
  case Descendant
  then show ?thesis by (auto simp: sem_comb_def related_def walk_parent_set eligible_def c_key_def)
next
  case Adjacent
  have "filter (eligible ts (relative Adjacent) True) (walk ts PreviousSibling a) = element_siblings ts a"
    unfolding element_siblings_def by (rule filter_cong) (simp_all add: eligible_def c_key_def)
  then show ?thesis
    using Adjacent by (auto simp: sem_comb_def sem_first_def related_def neq_Nil_conv split: list.splits)
next
  case Sibling
  then show ?thesis by (auto simp: sem_comb_def related_def element_siblings_def eligible_def c_key_def)
qed

section \<open>Composition\<close>

lemma all_matchers_Cons_ok:
  assumes "mok ts run N G M P" "mok ts run N G (all_matchers Ms) S"
  shows "mok ts run N G (all_matchers (M # Ms)) (\<lambda>e. P e \<and> S e)"
  unfolding mok_def
proof (intro allI impI, elim conjE)
  fix N' st e
  assume N: "N \<subseteq>\<^sub>m N'" and st: "sinv ts run N' st" and e: "G e"
  obtain b st1 where b: "M e st = (b, st1)" by (cases "M e st")
  with mokD [OF assms(1) N st e] have m: "b = P e" "sinv ts run N' st1" "carries (dom N) st st1" by simp_all
  have k: "carries (dom N) st1 st2 \<Longrightarrow> carries (dom N) st st2" for st2
    by (rule carries_trans [OF m(3) _ order_refl order_refl]) (simp_all add: sinv_refs [OF m(2)])
  from b m mokD [OF assms(2) N m(2) e] k
  show "fst (all_matchers (M # Ms) e st) = (P e \<and> S e) \<and> sinv ts run N' (snd (all_matchers (M # Ms) e st)) \<and>
      carries (dom N) st (snd (all_matchers (M # Ms) e st))"
    by (cases b) simp_all
qed

lemma all_matchers_Nil_ok: "mok ts run N G (all_matchers []) (\<lambda>e. True)"
  by (simp add: mok_def carries_refl)

lemma all_matchers_one_ok: "mok ts run N G M P \<Longrightarrow> mok ts run N G (all_matchers [M]) P"
  using all_matchers_Cons_ok [OF _ all_matchers_Nil_ok] by fastforce

lemma any_matcher_Cons_ok:
  assumes "mok ts run N G M P" "mok ts run N G (any_matcher Ms) S"
  shows "mok ts run N G (any_matcher (M # Ms)) (\<lambda>e. P e \<or> S e)"
  unfolding mok_def
proof (intro allI impI, elim conjE)
  fix N' st e
  assume N: "N \<subseteq>\<^sub>m N'" and st: "sinv ts run N' st" and e: "G e"
  obtain b st1 where b: "M e st = (b, st1)" by (cases "M e st")
  with mokD [OF assms(1) N st e] have m: "b = P e" "sinv ts run N' st1" "carries (dom N) st st1" by simp_all
  have k: "carries (dom N) st1 st2 \<Longrightarrow> carries (dom N) st st2" for st2
    by (rule carries_trans [OF m(3) _ order_refl order_refl]) (simp_all add: sinv_refs [OF m(2)])
  from b m mokD [OF assms(2) N m(2) e] k
  show "fst (any_matcher (M # Ms) e st) = (P e \<or> S e) \<and> sinv ts run N' (snd (any_matcher (M # Ms) e st)) \<and>
      carries (dom N) st (snd (any_matcher (M # Ms) e st))"
    by (cases b) simp_all
qed

lemma mok_weaken: "mok ts run N G M P \<Longrightarrow> (\<And>e. H e \<Longrightarrow> G e) \<Longrightarrow> (\<And>e. H e \<Longrightarrow> P e = P' e) \<Longrightarrow> mok ts run N H M P'"
  unfolding mok_def by metis

definition velem :: "node list \<Rightarrow> addr \<Rightarrow> bool" where
  "velem ts e \<longleftrightarrow> valid ts e \<and> el_type (info_at ts e) = 1"

lemma css_rev_append: "css_rev ts sat start (ks @ ls) = css_rev ts sat (css_rev ts sat start ls) ks"
proof
  fix a
  show "css_rev ts sat start (ks @ ls) a = css_rev ts sat (css_rev ts sat start ls) ks a"
    by (induction ts sat start ks a rule: css_rev.induct) auto
qed

lemma index_in_set: "index_in xs x > - 1 \<longleftrightarrow> x \<in> set xs"
proof (induction xs)
  case (Cons y xs)
  have "index_in xs x \<ge> - 1" by (induction xs) auto
  with Cons show ?case by auto
qed simp

lemma context_matcher_ok:
  "\<exists>N. dom N \<subseteq> {done..<done + 2} \<and>
     mok ts run N (velem ts) (context_matcher lower ts xml run ctx outermost lead done) (css_start ts xml ctx outermost lead)"
proof (cases "lead = None \<and> (xml \<or> \<not> outermost)")
  case True
  then have "mok ts run Map.empty (velem ts) (context_matcher lower ts xml run ctx outermost lead done) (css_start ts xml ctx outermost lead)"
    by (auto simp: mok_def context_matcher_def css_start_def carries_refl)
  then show ?thesis by (intro exI [of _ Map.empty]) simp
next
  case False
  let ?c = "case lead of Some c \<Rightarrow> c | None \<Rightarrow> Descendant"
  have start: "css_start ts xml ctx outermost lead e = sem_comb ts (relative ?c) True (in_contexts ctx) e" for e
    using False by (auto simp: css_start_def sem_comb_context split: option.splits)
  define d where "d = (case ctx of One _ \<Rightarrow> done | Many _ \<Rightarrow> done + 1)"
  define M where "M = (\<lambda>x (st :: sstate). (in_contexts ctx x, st))"
  have cm: "context_matcher lower ts xml run ctx outermost lead done = addCombinator lower ts xml run M (relative ?c) True d"
    using False by (auto simp: context_matcher_def d_def M_def in_contexts_def index_in_set fun_eq_iff split: contexts.splits)
  have "mok ts run Map.empty (\<lambda>x. True) M (in_contexts ctx)" unfolding M_def by (rule mok_pure)
  from addCombinator_ok [OF this, of d "relative ?c" True lower xml]
  have "mok ts run [d \<mapsto> \<lambda>x. in_contexts ctx x \<or> sem_loop lower ts (relative ?c) True (in_contexts ctx) x] (valid ts)
      (context_matcher lower ts xml run ctx outermost lead done) (sem_comb ts (relative ?c) True (in_contexts ctx))"
    by (simp add: cm)
  then have "mok ts run [d \<mapsto> \<lambda>x. in_contexts ctx x \<or> sem_loop lower ts (relative ?c) True (in_contexts ctx) x] (velem ts)
      (context_matcher lower ts xml run ctx outermost lead done) (css_start ts xml ctx outermost lead)"
    by (rule mok_weaken) (simp_all add: velem_def start)
  moreover have "{d} \<subseteq> {done..<done + 2}" by (auto simp: d_def split: contexts.splits)
  ultimately show ?thesis by (intro exI) (rule conjI [rotated], assumption, simp)
qed

text \<open>
  What the engine relies on of the filters: on an element they compute a predicate, whatever the caches
  hold, and they leave the caches right.
\<close>

locale sel_filters =
  fixes ts :: "node list" and run :: int and flt :: "'f \<Rightarrow> elem_matcher" and sat :: "'f \<Rightarrow> addr \<Rightarrow> bool"
  assumes flt_ok: "mok ts run Map.empty (velem ts) (flt f) (sat f)"
begin

lemma build_ok:
  assumes "wf_doc ts" "mok ts run N (velem ts) (all_matchers (rev Ms)) S" "dom N \<subseteq> {d0..<d}" "d0 \<le> d"
    and "build_matchers lower ts xml run flt d Ms tokens = (Ms', d')"
  shows "\<exists>N'. dom N' \<subseteq> {d0..<d'} \<and> d \<le> d' \<and>
    mok ts run N' (velem ts) (all_matchers (rev Ms')) (css_rev ts sat S (rev tokens))"
  using assms(2-5)
proof (induction tokens arbitrary: N Ms S d)
  case Nil
  then show ?case by auto
next
  case (Cons t tokens)
  show ?case
  proof (cases t)
    case (Filter f)
    have "mok ts run N (velem ts) (all_matchers (rev (Ms @ [flt f]))) (\<lambda>e. sat f e \<and> S e)"
      using all_matchers_Cons_ok [OF mok_mono [OF flt_ok [of f]] Cons.prems(1)] by simp
    from Cons.IH [OF this Cons.prems(2,3)] Cons.prems(4) Filter obtain N' where
      N': "dom N' \<subseteq> {d0..<d'}" "d \<le> d'"
      "mok ts run N' (velem ts) (all_matchers (rev Ms')) (css_rev ts sat (\<lambda>e. sat f e \<and> S e) (rev tokens))" by auto
    have "(\<lambda>e. sat f e \<and> S e) = css_rev ts sat S [Filter f]" by (simp add: fun_eq_iff)
    with N' show ?thesis unfolding Filter rev.simps css_rev_append by auto
  next
    case (Comb c)
    let ?M = "addCombinator lower ts xml run (elementMatcher Ms) (relative c) False d"
    have "mok ts run N (velem ts) (elementMatcher Ms) S" using Cons.prems(1) by (simp add: elementMatcher_def)
    moreover have "d \<notin> dom N" using Cons.prems(2) by auto
    ultimately have "mok ts run (N(d \<mapsto> \<lambda>x. S x \<or> sem_loop lower ts (relative c) False S x)) (valid ts) ?M (sem_comb ts (relative c) False S)"
      by (rule addCombinator_ok) (simp_all add: velem_def eligible_def)
    then have "mok ts run (N(d \<mapsto> \<lambda>x. S x \<or> sem_loop lower ts (relative c) False S x)) (velem ts) ?M (css_rev ts sat S [Comb c])"
      by (rule mok_weaken) (simp_all add: velem_def sem_comb_related [OF _ assms(1)])
    from all_matchers_one_ok [OF this]
    have m: "mok ts run (N(d \<mapsto> \<lambda>x. S x \<or> sem_loop lower ts (relative c) False S x)) (velem ts) (all_matchers (rev [?M])) (css_rev ts sat S [Comb c])"
      by simp
    have "dom (N(d \<mapsto> \<lambda>x. S x \<or> sem_loop lower ts (relative c) False S x)) \<subseteq> {d0..<d + 1}" "d0 \<le> d + 1"
      using Cons.prems(2,3) by auto
    moreover have "build_matchers lower ts xml run flt (d + 1) [?M] tokens = (Ms', d')" using Cons.prems(4) Comb by simp
    ultimately obtain N' where
      "dom N' \<subseteq> {d0..<d'}" "d + 1 \<le> d'"
      "mok ts run N' (velem ts) (all_matchers (rev Ms')) (css_rev ts sat (css_rev ts sat S [Comb c]) (rev tokens))"
      using Cons.IH [OF m] by blast
    then show ?thesis unfolding Comb rev.simps css_rev_append by (intro exI [of _ N']) simp
  qed
qed

lemma matcherFromTokens_ok:
  assumes "wf_doc ts" "matcherFromTokens lower ts xml run ctx outermost flt d tokens = (M, d')"
  shows "\<exists>N. dom N \<subseteq> {d..<d'} \<and> d \<le> d' \<and> mok ts run N (velem ts) M (css_matches ts sat xml ctx outermost tokens)"
proof -
  let ?start = "context_matcher lower ts xml run ctx outermost (leading tokens) d"
  let ?rest = "if leading tokens = None then tokens else tl tokens"
  obtain Ms where b: "build_matchers lower ts xml run flt (d + 2) [?start] ?rest = (Ms, d')" "M = elementMatcher Ms"
    using assms(2) by (auto simp: matcherFromTokens_def Let_def split: prod.splits)
  from context_matcher_ok obtain N where N: "dom N \<subseteq> {d..<d + 2}"
    "mok ts run N (velem ts) ?start (css_start ts xml ctx outermost (leading tokens))" by blast
  have "mok ts run N (velem ts) (all_matchers (rev [?start])) (css_start ts xml ctx outermost (leading tokens))"
    using all_matchers_one_ok [OF N(2)] by simp
  from build_ok [OF assms(1) this N(1) _ b(1)] obtain N' where
    "dom N' \<subseteq> {d..<d'}" "d + 2 \<le> d'"
    "mok ts run N' (velem ts) (all_matchers (rev Ms)) (css_rev ts sat (css_start ts xml ctx outermost (leading tokens)) (rev ?rest))"
    by auto
  then show ?thesis
    unfolding b(2) elementMatcher_def css_matches_def [abs_def] by (intro exI [of _ N']) simp
qed

lemma compile_groups_ok:
  assumes "wf_doc ts"
  shows "\<exists>N. dom N \<subseteq> {d..} \<and>
    mok ts run N (velem ts) (any_matcher (compile_groups lower ts xml run ctx outermost flt d gs))
      (\<lambda>e. \<exists>g \<in> set gs. css_matches ts sat xml ctx outermost g e)"
proof (induction gs arbitrary: d)
  case Nil
  show ?case by (intro exI [of _ Map.empty]) (simp add: mok_def carries_refl)
next
  case (Cons g gs)
  obtain M d' where M: "matcherFromTokens lower ts xml run ctx outermost flt d g = (M, d')"
    by (cases "matcherFromTokens lower ts xml run ctx outermost flt d g")
  from matcherFromTokens_ok [OF assms M] obtain N1 where
    N1: "dom N1 \<subseteq> {d..<d'}" "d \<le> d'" "mok ts run N1 (velem ts) M (css_matches ts sat xml ctx outermost g)" by blast
  from Cons.IH [of d'] obtain N2 where N2: "dom N2 \<subseteq> {d'..}"
    "mok ts run N2 (velem ts) (any_matcher (compile_groups lower ts xml run ctx outermost flt d' gs))
      (\<lambda>e. \<exists>g \<in> set gs. css_matches ts sat xml ctx outermost g e)" by blast
  have disj: "dom N1 \<inter> dom N2 = {}" using N1(1) N2(1) by fastforce
  have le1: "N1 \<subseteq>\<^sub>m N1 ++ N2" using disj by (metis map_add_comm map_le_map_add)
  have le2: "N2 \<subseteq>\<^sub>m N1 ++ N2" by (rule map_le_map_add)
  from any_matcher_Cons_ok [OF mok_mono [OF N1(3) le1] mok_mono [OF N2(2) le2]]
  have "mok ts run (N1 ++ N2) (velem ts) (any_matcher (compile_groups lower ts xml run ctx outermost flt d (g # gs)))
      (\<lambda>e. \<exists>g \<in> set (g # gs). css_matches ts sat xml ctx outermost g e)"
    by (simp add: M)
  moreover have "dom (N1 ++ N2) \<subseteq> {d..}" using N1(1,2) N2(1) by fastforce
  ultimately show ?case by blast
qed

lemma superMatcher_ok:
  assumes "mok ts run N (velem ts) (any_matcher Ms) P" "sinv ts run N st" "list_all (velem ts) seed"
  shows "fst (superMatcher Ms seed st) = filter P seed"
  using assms(2,3)
proof (induction seed arbitrary: st)
  case (Cons e es)
  obtain b st1 where b: "any_matcher Ms e st = (b, st1)" by (cases "any_matcher Ms e st")
  with mokD [OF assms(1) map_le_refl Cons.prems(1), of e] Cons.prems(2) have "b = P e" "sinv ts run N st1" by simp_all
  with Cons.IH [of st1] Cons.prems(2) b show ?case by (auto split: prod.splits)
qed simp

lemma compile_run_ok:
  assumes "wf_doc ts" "\<forall>N. sinv ts run N st" "list_all (velem ts) seed"
  shows "fst (compile_run lower ts xml run ctx outermost flt d gs seed st) =
    filter (\<lambda>e. \<exists>g \<in> set gs. css_matches ts sat xml ctx outermost g e) seed"
proof -
  from compile_groups_ok [OF assms(1), of d lower xml ctx outermost "rev gs"] obtain N where
    "mok ts run N (velem ts) (any_matcher (compile_groups lower ts xml run ctx outermost flt d (rev gs)))
      (\<lambda>e. \<exists>g \<in> set (rev gs). css_matches ts sat xml ctx outermost g e)" by blast
  from superMatcher_ok [OF this _ assms(3)] assms(2) show ?thesis by (simp add: compile_run_def)
qed

end

section \<open>The filters of selectors\<close>

text \<open>
  The filters that tokens stand for; a pseudo that is not positional is the test that \<open>Expr.pseudos\<close> made
  for it.
\<close>

datatype sel_filter =
    FTag jstr
  | FClass jstr
  | FId jstr
  | FAttr jstr jstr jstr
  | FChild ctype bool int int
  | FPseudo "addr \<Rightarrow> bool"

definition filter_ID :: "node list \<Rightarrow> jstr \<Rightarrow> addr \<Rightarrow> bool" where
  "filter_ID ts i a \<longleftrightarrow> map_of (el_attrs (info_at ts a)) (lit ''id'') = Some (unescape_sel i)"

definition sel_flt ::
  "(jstr \<Rightarrow> jstr) \<Rightarrow> (jstr \<Rightarrow> (addr \<Rightarrow> jstr \<Rightarrow> jstr option option) option) \<Rightarrow> node list \<Rightarrow> bool \<Rightarrow> int \<Rightarrow> sel_filter \<Rightarrow> elem_matcher" where
  "sel_flt lower attrHandle ts xml run f e st =
     (case f of
        FTag n \<Rightarrow> (filter_TAG lower ts n e, st)
      | FClass c \<Rightarrow> (filter_CLASS ts c e, st)
      | FId i \<Rightarrow> (filter_ID ts i e, st)
      | FAttr n operator check \<Rightarrow> (filter_ATTR lower attrHandle ts n operator check e, st)
      | FChild type ofType a b \<Rightarrow>
          (case filter_CHILD lower ts type ofType a b xml run e (ss_child st) of (r, c) \<Rightarrow> (r, st\<lparr>ss_child := c\<rparr>))
      | FPseudo p \<Rightarrow> (p e, st))"

definition child_sat :: "(jstr \<Rightarrow> jstr) \<Rightarrow> node list \<Rightarrow> ctype \<Rightarrow> bool \<Rightarrow> int \<Rightarrow> int \<Rightarrow> addr \<Rightarrow> bool" where
  "child_sat lower ts type ofType a b e =
     (case parentNode e of
        None \<Rightarrow> False
      | Some p \<Rightarrow>
          if type = Nth \<or> type = NthLast then
            (\<exists>n :: nat. number_in (counts lower ts ofType e)
               (if type = Nth then childNodes ts p else rev (childNodes ts p)) e = a * int n + b)
          else simple_child lower ts type ofType e)"

fun sel_sat ::
  "(jstr \<Rightarrow> jstr) \<Rightarrow> (jstr \<Rightarrow> (addr \<Rightarrow> jstr \<Rightarrow> jstr option option) option) \<Rightarrow> node list \<Rightarrow> sel_filter \<Rightarrow> addr \<Rightarrow> bool" where
  "sel_sat lower attrHandle ts (FTag n) e = filter_TAG lower ts n e"
| "sel_sat lower attrHandle ts (FClass c) e = filter_CLASS ts c e"
| "sel_sat lower attrHandle ts (FId i) e = filter_ID ts i e"
| "sel_sat lower attrHandle ts (FAttr n operator check) e = filter_ATTR lower attrHandle ts n operator check e"
| "sel_sat lower attrHandle ts (FChild type ofType a b) e = child_sat lower ts type ofType a b e"
| "sel_sat lower attrHandle ts (FPseudo p) e = p e"

lemma filter_CHILD_sat:
  assumes "velem ts e" "cc_ok ts run c"
  shows "fst (filter_CHILD lower ts type ofType a b xml run e c) = child_sat lower ts type ofType a b e"
    and "cc_ok ts run (snd (filter_CHILD lower ts type ofType a b xml run e c))"
proof -
  have "fst (filter_CHILD lower ts type ofType a b xml run e c) = child_sat lower ts type ofType a b e \<and>
      cc_ok ts run (snd (filter_CHILD lower ts type ofType a b xml run e c))"
  proof (cases "parentNode e")
    case None
    then show ?thesis using assms(2) by (simp add: filter_CHILD_def child_sat_def Let_def)
  next
    case (Some p)
    have v: "valid ts e" "el_type (info_at ts e) = 1" using assms(1) by (simp_all add: velem_def)
    show ?thesis
    proof (cases "type = Nth \<or> type = NthLast")
      case True
      with nth_child_number [OF v Some assms(2) True, of lower ofType a b xml] Some show ?thesis by (simp add: child_sat_def)
    next
      case False
      with Some assms(2) show ?thesis by (simp add: filter_CHILD_def child_sat_def Let_def)
    qed
  qed
  then show "fst (filter_CHILD lower ts type ofType a b xml run e c) = child_sat lower ts type ofType a b e"
    "cc_ok ts run (snd (filter_CHILD lower ts type ofType a b xml run e c))" by simp_all
qed

interpretation engine: sel_filters ts run "sel_flt lower attrHandle ts xml run" "sel_sat lower attrHandle ts"
  for ts run lower attrHandle xml
proof
  fix f
  show "mok ts run Map.empty (velem ts) (sel_flt lower attrHandle ts xml run f) (sel_sat lower attrHandle ts f)"
  proof (cases f)
    case (FChild type ofType a b)
    have "sinv ts run N (st\<lparr>ss_child := c\<rparr>) \<longleftrightarrow> sinv ts run N st" if "cc_ok ts run c" "cc_ok ts run (ss_child st)" for N st c
      using that by (simp add: sinv_def)
    moreover have "carries D st (st\<lparr>ss_child := c\<rparr>)" for D st c by (simp add: carries_def)
    moreover have "cc_ok ts run (ss_child st)" if "sinv ts run N st" for N st using that by (simp add: sinv_def)
    ultimately show ?thesis
      unfolding FChild mok_def sel_flt_def
      using filter_CHILD_sat [of ts _ run _ lower type ofType a b xml] by (simp split: prod.splits) (metis fst_conv snd_conv)
  qed (simp_all add: mok_def sel_flt_def carries_refl)
qed

text \<open>A run starts with caches that hold nothing of its own.\<close>

definition fresh_run :: "int \<Rightarrow> sstate \<Rightarrow> bool" where
  "fresh_run run st \<longleftrightarrow>
     (\<forall>x k i. ss_at st x k = Some i \<longrightarrow> i < length (ss_cells st) \<and> fst (ss_cells st ! i) \<noteq> run) \<and>
     (\<forall>p i d. cc_parent (ss_child st) p \<noteq> Some (run, i, d)) \<and> (\<forall>n d. cc_elem (ss_child st) n \<noteq> Some (run, d))"

lemma fresh_sinv: "fresh_run run st \<Longrightarrow> sinv ts run N st"
  unfolding fresh_run_def sinv_def cc_ok_def by (metis fst_conv)

lemma compiled_groups:
  assumes "wf_doc ts" "fresh_run run st" "\<forall>e \<in> set seed. valid ts e \<and> el_type (info_at ts e) = 1"
  shows "fst (compile_run lower ts xml run ctx outermost (sel_flt lower attrHandle ts xml run) d match seed st) =
    filter (\<lambda>e. \<exists>g \<in> set match. css_matches ts (sel_sat lower attrHandle ts) xml ctx outermost g e) seed"
  using engine.compile_run_ok [OF assms(1), of run st seed lower xml ctx outermost lower attrHandle xml d match]
    fresh_sinv [OF assms(2)] assms(3)
  by (simp add: list_all_iff velem_def)


fun wf_tree :: "node \<Rightarrow> bool" where
  "wf_tree (Node i ks) \<longleftrightarrow> (ks = [] \<or> el_type i = 1) \<and> list_all wf_tree ks"

lemma wf_tree_below: "wf_tree t \<Longrightarrow> node_at (kids t) p = Some n \<Longrightarrow> wf_tree n"
proof (induction p arbitrary: t)
  case (Cons i p)
  have k: "list_all wf_tree (kids t)" using Cons.prems(1) by (cases t) simp
  show ?case
  proof (cases "p = []")
    case True
    with Cons.prems(2) k show ?thesis by (auto simp: list_all_length split: if_splits)
  next
    case False
    with Cons.prems(2) have "i < length (kids t)" "node_at (kids (kids t ! i)) p = Some n"
      by (cases p; auto split: if_splits)+
    with Cons.IH [of "kids t ! i"] k show ?thesis by (simp add: list_all_length)
  qed
qed simp

lemma wf_docI: "\<forall>t \<in> set ts. list_all wf_tree (kids t) \<Longrightarrow> wf_doc ts"
  unfolding wf_doc_def
proof (intro allI impI, elim conjE)
  fix x
  assume w: "\<forall>t \<in> set ts. list_all wf_tree (kids t)" and v: "valid ts x" and k: "0 < n_kids ts x" and l: "1 < length x"
  then obtain i j p where x: "x = i # j # p" by (cases x; cases "tl x") auto
  obtain n where n: "node_at ts x = Some n" using v by (auto simp: valid_def)
  with x have i: "i < length ts" "node_at (kids (ts ! i)) (j # p) = Some n" by (auto split: if_splits)
  have kid: "wf_tree t" if "t \<in> set (kids (ts ! i))" for t using w i(1) that by (force simp: list_all_iff)
  have "wf_tree n"
  proof (cases p)
    case Nil
    with i(2) kid show ?thesis by (auto split: if_splits)
  next
    case (Cons q p')
    with i(2) have "j < length (kids (ts ! i))" "node_at (kids (kids (ts ! i) ! j)) p = Some n" by (auto split: if_splits)
    with wf_tree_below kid show ?thesis by (meson nth_mem)
  qed
  moreover have "kids n \<noteq> []" using k n by (simp add: n_kids_def)
  ultimately show "el_type (info_at ts x) = 1" using n by (cases n) (simp add: info_at_def)
qed

text \<open>A list of two items; \<open>ul > li:nth-child(2)\<close>\<close>

definition sample_doc :: "node list" where
  "sample_doc =
     (let elem = (\<lambda>n. no_info\<lparr>el_type := 1, el_name := lit n\<rparr>) in
      [Node (no_info\<lparr>el_type := 9\<rparr>) [Node (elem ''ul'') [Node (elem ''li'') [], Node (elem ''li'') []]]])"

definition no_caches :: sstate where
  "no_caches = \<lparr>ss_cells = [], ss_at = (\<lambda>_ _. None), ss_child = \<lparr>cc_parent = (\<lambda>_. None), cc_elem = (\<lambda>_. None)\<rparr>\<rparr>"


text \<open>
  \<open>inDisabledFieldset\<close>: a walk up from the element that passes over the fieldset of a legend. It has the name
  \<open>done\<close> got when the engine was loaded.
\<close>

definition inDisabledFieldset :: "(jstr \<Rightarrow> jstr) \<Rightarrow> node list \<Rightarrow> bool \<Rightarrow> int \<Rightarrow> nat \<Rightarrow> elem_matcher" where
  "inDisabledFieldset lower ts xml run name =
     addCombinator lower ts xml run
       (\<lambda>x st. (el_disabled (info_at ts x) = Some True \<and> lower (el_name (info_at ts x)) = lit ''fieldset'', st))
       \<lparr>c_dir = ParentNode, c_first = False, c_next = Some (lit ''legend'')\<rparr> False name"

end
