(* ===== verification/JQ_Sel_Tokens.thy ===== *)
theory JQ_Sel_Tokens
  imports JQ_Sel_Match
begin

text \<open>
  \<open>jquery-3.5.1.js\<close>, the selector engine: the regular expressions of selectors, \<open>Expr.preFilter\<close>, \<open>tokenize\<close> and
  \<open>toSelector\<close>, and the composition with the matchers of \<open>JQ_Sel_Match\<close>. The caches of \<open>tokenize\<close> and \<open>compile\<close>
  hold results for texts and are left out, as the functions depend on nothing else.

  \<open>tokenize\<close> calls itself on the argument of a pseudo, so it is defined with fuel; \<open>None\<close> is the lack of it.
\<close>

section \<open>Expressions\<close>

definition RLitI :: "string \<Rightarrow> rx" where
  "RLitI w = foldr (\<lambda>c r. RSeq (RSet False [(c, c), (c - 32, c - 32)]) r) (lit w) REmpty"

definition spaces :: rx where
  "spaces = RStar True rx_space"

definition quoted :: "nat \<Rightarrow> int \<Rightarrow> rx" where
  "quoted g q =
     RSeq (RLit [q]) (RSeq (RGroup g (RStar True (RAlt (RSeq (RLit [92]) RDot) (RSet True [(92, 92), (q, q)])))) (RLit [q]))"

text \<open>The groups of \<open>attributes\<close> are numbered from \<open>g\<close> on.\<close>

definition attributes :: "nat \<Rightarrow> rx" where
  "attributes g =
     RSeq (RLit [91]) (RSeq spaces (RSeq (RGroup g css_identifier) (RSeq
       (ROpt (RSeq spaces (RSeq
          (RGroup (g + 1) (RSeq (ROpt (RSet False [(42, 42), (94, 94), (36, 36), (124, 124), (33, 33), (126, 126)])) (RLit [61])))
          (RSeq spaces (RAlts [quoted (g + 2) 39, quoted (g + 3) 34, RGroup (g + 4) css_identifier])))))
       (RSeq spaces (RLit [93])))))"

definition pseudos_rx :: rx where
  "pseudos_rx =
     RSeq (RLit [58]) (RSeq (RGroup 1 css_identifier)
       (ROpt (RSeq (RLit [40]) (RSeq
          (RGroup 2 (RAlts
             [RGroup 3 (RAlt (quoted 4 39) (quoted 5 34)),
              RGroup 6 (RStar True (RAlts [RSeq (RLit [92]) RDot, RSet True [(92, 92), (40, 41), (91, 91), (93, 93)], attributes 7])),
              RStar True RDot]))
          (RLit [41])))))"

definition rtrim :: rx where
  "rtrim =
     RAlt (RSeq RBol rwhitespace)
       (RSeq (RGroup 1 (RSeq (RAlt RBol (RSet True [(92, 92)])) (RStar True (RSeq (RLit [92]) RDot)))) (RSeq rwhitespace REol))"

definition rcomma :: rx where
  "rcomma = RSeq RBol (RSeq spaces (RSeq (RLit [44]) spaces))"

definition rcombinators :: rx where
  "rcombinators = RSeq RBol (RSeq spaces (RSeq (RGroup 1 (RAlt (RSet False [(62, 62), (43, 43), (126, 126)]) rx_space)) spaces))"

definition matchExpr_ID :: rx where "matchExpr_ID = RSeq RBol (RSeq (RLit [35]) (RGroup 1 css_identifier))"

definition matchExpr_CLASS :: rx where "matchExpr_CLASS = RSeq RBol (RSeq (RLit [46]) (RGroup 1 css_identifier))"

definition matchExpr_TAG :: rx where "matchExpr_TAG = RSeq RBol (RGroup 1 (RAlt css_identifier (RLit [42])))"

definition matchExpr_ATTR :: rx where "matchExpr_ATTR = RSeq RBol (attributes 1)"

definition matchExpr_PSEUDO :: rx where "matchExpr_PSEUDO = RSeq RBol pseudos_rx"

definition matchExpr_CHILD :: rx where
  "matchExpr_CHILD =
     RSeq RBol (RSeq (RLit [58]) (RSeq
       (RGroup 1 (RAlts [RLitI ''only'', RLitI ''first'', RLitI ''last'', RLitI ''nth'', RSeq (RLitI ''nth'') (RSeq (RLit [45]) (RLitI ''last''))]))
       (RSeq (RLit [45]) (RSeq
       (RGroup 2 (RAlt (RLitI ''child'') (RSeq (RLitI ''of'') (RSeq (RLit [45]) (RLitI ''type'')))))
       (ROpt (RSeq (RLit [40]) (RSeq spaces (RSeq
         (RGroup 3 (RAlts [RLitI ''even'', RLitI ''odd'',
            RSeq (RGroup 4 (ROpt (RSeq (RGroup 5 (ROpt (RSet False [(43, 43), (45, 45)])))
                                  (RSeq (RGroup 6 (RStar True (RSet False [(48, 57)]))) (RLitI ''n'')))))
              (RSeq spaces (ROpt (RSeq (RGroup 7 (ROpt (RSet False [(43, 43), (45, 45)])))
                                   (RSeq spaces (RGroup 8 (RPlus True (RSet False [(48, 57)])))))))]))
         (RSeq spaces (RLit [41]))))))))))"

section \<open>Tokens\<close>

datatype ttype =
    TkComb jstr
  | TkTag jstr
  | TkClass jstr
  | TkAttr jstr jstr jstr
  | TkChild jstr jstr int int
  | TkPseudo jstr "jstr option"
  | TkId jstr

record tok =
  tk_value :: jstr
  tk_type :: ttype

definition syntax_error :: "jstr \<Rightarrow> js_error" where
  "syntax_error msg = PlainError (lit ''Syntax error, unrecognized expression: '' @ msg)"

definition matched_text :: "re_match \<Rightarrow> jstr \<Rightarrow> jstr" where
  "matched_text m s = drop (mt_start m) (take (mt_end m) s)"

text \<open>\<open>match[ n ]\<close> where it is used as a text: a group that did not take part is empty.\<close>

definition preFilter_ATTR :: "re_match \<Rightarrow> ttype" where
  "preFilter_ATTR m =
     (let given = (if cap m 3 \<noteq> [] then cap m 3 else if cap m 4 \<noteq> [] then cap m 4 else cap m 5);
          v = unescape_sel given
      in TkAttr (unescape_sel (cap m 1)) (cap m 2) (if cap m 2 = lit ''~='' then lit '' '' @ v @ lit '' '' else v))"

definition js_number :: "jstr \<Rightarrow> int" where
  "js_number s =
     (let digits = (\<lambda>t. foldl (\<lambda>n c. 10 * n + (c - 48)) 0 t) in
      case s of c # t \<Rightarrow> if c = 45 then - digits t else if c = 43 then digits t else digits s | [] \<Rightarrow> 0)"

definition preFilter_CHILD :: "(jstr \<Rightarrow> jstr) \<Rightarrow> re_match \<Rightarrow> jstr \<Rightarrow> js_error + ttype" where
  "preFilter_CHILD lower m matched =
     (let type = lower (cap m 1); arg = cap m 3 in
      if take 3 type = lit ''nth'' then
        if arg = [] then Inl (syntax_error matched)
        else
          Inr (TkChild type (cap m 2)
            (if cap m 4 \<noteq> [] then js_number (cap m 5 @ (if cap m 6 \<noteq> [] then cap m 6 else lit ''1''))
             else if arg = lit ''even'' \<or> arg = lit ''odd'' then 2 else 0)
            (case (group_of m 7, group_of m 8) of
               (Some sign, Some y) \<Rightarrow> js_number (sign @ y)
             | _ \<Rightarrow> if arg = lit ''odd'' then 1 else 0))
      else if arg \<noteq> [] then Inl (syntax_error matched)
      else Inr (TkChild type (cap m 2) 0 0))"

text \<open>\<open>s.slice( 0, n )\<close> for a negative \<open>n\<close>, and \<open>indexOf\<close> from a position on\<close>

definition slice_neg :: "jstr \<Rightarrow> nat \<Rightarrow> jstr" where
  "slice_neg s k = take (length s - k) s"

definition paren_from :: "jstr \<Rightarrow> nat \<Rightarrow> int" where
  "paren_from s i = (let k = indexOf (drop i s) [41] in if k = - 1 then - 1 else int i + k)"

text \<open>
  The result is the matched text and the token, \<open>None\<close> in the inner option when the prefilter refuses.
  \<open>excess\<close> gives the length of what \<open>tokenize\<close> could not read.
\<close>

definition preFilter_PSEUDO ::
  "(jstr \<Rightarrow> (js_error + nat) option) \<Rightarrow> re_match \<Rightarrow> jstr \<Rightarrow> (js_error + (jstr \<times> ttype) option) option" where
  "preFilter_PSEUDO excess m matched =
     (let name = cap m 1; unquoted = (if cap m 6 \<noteq> [] then [] else cap m 2) in
      if re_test matchExpr_CHILD matched then Some (Inr None)
      else if cap m 3 \<noteq> [] then
        Some (Inr (Some (matched, TkPseudo name (Some (if cap m 4 \<noteq> [] then cap m 4 else cap m 5)))))
      else if unquoted \<noteq> [] \<and> re_test pseudos_rx unquoted then
        (case excess unquoted of
           None \<Rightarrow> None
         | Some (Inl e) \<Rightarrow> Some (Inl e)
         | Some (Inr x) \<Rightarrow>
             if x = 0 then Some (Inr (Some (matched, TkPseudo name (group_of m 2))))
             else
               let k = nat (int (length unquoted) - paren_from unquoted (length unquoted - x)) in
               Some (Inr (Some (slice_neg matched k, TkPseudo name (Some (slice_neg unquoted k))))))
      else Some (Inr (Some (matched, TkPseudo name (group_of m 2)))))"

datatype fkind = KTag | KClass | KAttr | KChild | KPseudo | KId

definition filter_kinds :: "fkind list" where
  "filter_kinds = [KTag, KClass, KAttr, KChild, KPseudo, KId]"

fun kind_rx :: "fkind \<Rightarrow> rx" where
  "kind_rx KTag = matchExpr_TAG"
| "kind_rx KClass = matchExpr_CLASS"
| "kind_rx KAttr = matchExpr_ATTR"
| "kind_rx KChild = matchExpr_CHILD"
| "kind_rx KPseudo = matchExpr_PSEUDO"
| "kind_rx KId = matchExpr_ID"

definition read_filter ::
  "(jstr \<Rightarrow> jstr) \<Rightarrow> (jstr \<Rightarrow> (js_error + nat) option) \<Rightarrow> fkind \<Rightarrow> jstr \<Rightarrow> (js_error + (jstr \<times> ttype) option) option" where
  "read_filter lower excess kind soFar =
     (case re_exec (kind_rx kind) soFar of
        None \<Rightarrow> Some (Inr None)
      | Some m \<Rightarrow>
          (let matched = matched_text m soFar in
          (case kind of
            KTag \<Rightarrow> Some (Inr (Some (matched, TkTag (cap m 1))))
          | KClass \<Rightarrow> Some (Inr (Some (matched, TkClass (cap m 1))))
          | KId \<Rightarrow> Some (Inr (Some (matched, TkId (cap m 1))))
          | KAttr \<Rightarrow> Some (Inr (Some (matched, preFilter_ATTR m)))
          | KChild \<Rightarrow> Some (map_sum (\<lambda>e. e) (\<lambda>t. Some (matched, t)) (preFilter_CHILD lower m matched))
          | KPseudo \<Rightarrow> preFilter_PSEUDO excess m matched)))"

definition push_token :: "jstr \<Rightarrow> ttype \<Rightarrow> tok list list \<Rightarrow> tok list list" where
  "push_token v t gs = butlast gs @ [last gs @ [\<lparr>tk_value = v, tk_type = t\<rparr>]]"

text \<open>\<open>for ( type in Expr.filter )\<close>\<close>

fun read_filters ::
  "(jstr \<Rightarrow> jstr) \<Rightarrow> (jstr \<Rightarrow> (js_error + nat) option) \<Rightarrow> fkind list \<Rightarrow> bool \<Rightarrow> jstr \<Rightarrow> tok list list \<Rightarrow>
   (js_error + bool \<times> jstr \<times> tok list list) option" where
  "read_filters lower excess [] matched soFar gs = Some (Inr (matched, soFar, gs))"
| "read_filters lower excess (k # ks) matched soFar gs =
     (case read_filter lower excess k soFar of
        None \<Rightarrow> None
      | Some (Inl e) \<Rightarrow> Some (Inl e)
      | Some (Inr None) \<Rightarrow> read_filters lower excess ks matched soFar gs
      | Some (Inr (Some (v, t))) \<Rightarrow> read_filters lower excess ks (v \<noteq> []) (drop (length v) soFar) (push_token v t gs))"

definition read_comma :: "bool \<Rightarrow> jstr \<Rightarrow> tok list list \<Rightarrow> jstr \<times> tok list list" where
  "read_comma matched soFar gs =
     (if \<not> matched then (soFar, gs @ [[]])
      else
        case re_exec rcomma soFar of
          Some m \<Rightarrow> (let rest = drop (length (matched_text m soFar)) soFar in (if rest \<noteq> [] then rest else soFar, gs @ [[]]))
        | None \<Rightarrow> (soFar, gs))"

definition read_combinator :: "jstr \<Rightarrow> tok list list \<Rightarrow> bool \<times> jstr \<times> tok list list" where
  "read_combinator soFar gs =
     (case re_exec rcombinators soFar of
        Some m \<Rightarrow>
          let v = matched_text m soFar in
          (v \<noteq> [], drop (length v) soFar, push_token v (TkComb (replace_all rtrim (\<lambda>_ _. lit '' '') (cap m 1))) gs)
      | None \<Rightarrow> (False, soFar, gs))"

primrec tokenize_loop ::
  "nat \<Rightarrow> (jstr \<Rightarrow> jstr) \<Rightarrow> bool \<Rightarrow> jstr \<Rightarrow> tok list list \<Rightarrow> (js_error + jstr \<times> tok list list) option" where
  "tokenize_loop 0 lower matched soFar gs = None"
| "tokenize_loop (Suc n) lower matched soFar gs =
     (if soFar = [] then Some (Inr ([], gs))
      else
        case read_comma matched soFar gs of
          (soFar1, gs1) \<Rightarrow>
            (case read_combinator soFar1 gs1 of
               (matched1, soFar2, gs2) \<Rightarrow>
                 (case read_filters lower
                     (\<lambda>s. case tokenize_loop n lower False s [] of
                        None \<Rightarrow> None | Some (Inl e) \<Rightarrow> Some (Inl e) | Some (Inr (rest, _)) \<Rightarrow> Some (Inr (length rest)))
                     filter_kinds matched1 soFar2 gs2 of
                    None \<Rightarrow> None
                  | Some (Inl e) \<Rightarrow> Some (Inl e)
                  | Some (Inr (matched2, soFar3, gs3)) \<Rightarrow>
                      if matched2 then tokenize_loop n lower True soFar3 gs3 else Some (Inr (soFar3, gs3)))))"

definition tokenize :: "(jstr \<Rightarrow> jstr) \<Rightarrow> jstr \<Rightarrow> (js_error + tok list list) option" where
  "tokenize lower selector =
     (case tokenize_loop (length selector + 1) lower False selector [] of
        None \<Rightarrow> None
      | Some (Inl e) \<Rightarrow> Some (Inl e)
      | Some (Inr (soFar, gs)) \<Rightarrow> Some (if soFar \<noteq> [] then Inl (syntax_error selector) else Inr gs))"

definition toSelector :: "tok list \<Rightarrow> jstr" where
  "toSelector tokens = concat (map tk_value tokens)"

section \<open>Progress\<close>

text \<open>What a match captures lies in what was left to read when it began.\<close>

lemma ms_shorter: "st' \<in> set (ms r st) \<Longrightarrow> length (m_rest st') \<le> length (m_rest st)"
  using ms_sound [of st' r st] by (auto simp: consumed_def)

definition caps_within :: "nat \<Rightarrow> mst \<Rightarrow> bool" where
  "caps_within k st \<longleftrightarrow> (\<forall>w \<in> snd ` set (m_caps st). length w \<le> k) \<and> length (m_rest st) \<le> k"

lemma ms_caps_within: "st' \<in> set (ms r st) \<Longrightarrow> caps_within k st \<Longrightarrow> caps_within k st'"
proof (induction r arbitrary: st st')
  case (RStar g r)
  have "st' \<in> set (star g (groups r) (ms r) n st) \<Longrightarrow> caps_within k st \<Longrightarrow> caps_within k st'" for n
  proof (induction n arbitrary: st)
    case (Suc n)
    show ?case
    proof (cases "st' = st")
      case False
      with Suc.prems obtain s1 where s1: "s1 \<in> set (ms r (reset (groups r) st))" "st' \<in> set (star g (groups r) (ms r) n s1)"
        by (auto simp: Let_def split: if_splits)
      have "caps_within k (reset (groups r) st)" using Suc.prems(2) by (auto simp: caps_within_def reset_def)
      with s1(1) RStar.IH have "caps_within k s1" by blast
      with s1(2) Suc.IH show ?thesis by blast
    qed (use Suc.prems in simp)
  qed simp
  with RStar.prems show ?case by simp
next
  case (RGroup n r)
  then obtain s1 where s1: "s1 \<in> set (ms r st)" "st' = capture n st s1" by auto
  with RGroup have "caps_within k s1" by blast
  with s1 RGroup.prems(2) show ?case by (auto simp: caps_within_def capture_def)
next
  case (RSeq a b)
  then show ?case by auto
next
  case (RAlt a b)
  then show ?case by auto
next
  case (RSet neg rs)
  then show ?case by (auto simp: caps_within_def split: list.splits if_splits)
next
  case (RBack n)
  then show ?case by (auto simp: caps_within_def split: if_splits option.splits)
qed (auto split: if_splits)

lemma re_exec_bolE:
  assumes "re_exec (RSeq RBol q) s = Some m"
  obtains st where "st \<in> set (ms q (MS 0 s []))" "mt_start m = 0" "mt_end m = m_pos st" "mt_caps m = m_caps st"
proof (cases "ms q (MS 0 s [])")
  case (Cons st sts)
  with assms that [of st] show ?thesis by (auto simp: re_exec_bol)
qed (use assms in \<open>simp add: re_exec_bol\<close>)

lemma pseudo_caps_shorter:
  assumes "re_exec matchExpr_PSEUDO s = Some m"
  shows "length (cap m g) < length s"
proof -
  obtain r where r: "pseudos_rx = RSeq (RLit [58]) r" by (simp add: pseudos_rx_def)
  from assms obtain st where st: "st \<in> set (ms pseudos_rx (MS 0 s []))" "mt_caps m = m_caps st"
    unfolding matchExpr_PSEUDO_def by (blast elim: re_exec_bolE)
  then obtain s1 where s1: "s1 \<in> set (ms (RLit [58]) (MS 0 s []))" "st \<in> set (ms r s1)"
    unfolding r by (auto simp del: ms.simps simp: ms.simps(3))
  then have s: "0 < length s" "caps_within (length s - 1) s1"
    by (auto simp: ms_RLit caps_within_def advance_def prefix_def simp del: RLit.simps split: if_splits)
  then have "caps_within (length s - 1) st" using ms_caps_within [OF s1(2)] by blast
  then have w: "length w \<le> length s - 1" if "map_of (m_caps st) g = Some w" for w
    using map_of_SomeD [OF that] by (force simp: caps_within_def)
  show ?thesis
  proof (cases "map_of (m_caps st) g")
    case (Some u)
    from w [OF this] s(1) have "length u < length s" by linarith
    with Some st(2) show ?thesis by (simp add: cap_def group_of_def)
  qed (use s(1) st(2) in \<open>simp add: cap_def group_of_def\<close>)
qed

definition anchored :: "rx \<Rightarrow> bool" where
  "anchored r \<longleftrightarrow> (\<exists>q. r = RSeq RBol q)"

lemma anchored_rx [simp]: "anchored (kind_rx k)" "anchored rcomma" "anchored rcombinators"
  by (cases k; simp add: anchored_def matchExpr_ID_def matchExpr_CLASS_def matchExpr_TAG_def
      matchExpr_ATTR_def matchExpr_PSEUDO_def matchExpr_CHILD_def)
    (simp_all add: anchored_def rcomma_def rcombinators_def)

lemma matched_prefix:
  assumes "anchored r" "re_exec r s = Some m"
  shows "prefix (matched_text m s) s \<and> (\<exists>q. r = RSeq RBol q \<and> word q (matched_text m s))"
proof -
  obtain q where q: "r = RSeq RBol q" using assms(1) by (auto simp: anchored_def)
  with assms(2) obtain st where st: "st \<in> set (ms q (MS 0 s []))" "mt_start m = 0" "mt_end m = m_pos st"
    by (blast elim: re_exec_bolE)
  from ms_sound [OF st(1)] obtain w where "s = w @ m_rest st" "m_pos st = length w" "word q w"
    by (auto simp: consumed_def)
  with st q show ?thesis by (metis append_eq_conv_conj drop0 matched_text_def prefixI)
qed

lemma slice_neg_prefix: "prefix (slice_neg s k) s"
  by (simp add: slice_neg_def take_is_prefix)

lemma map_sum_Inr: "map_sum g f x = Inr y \<Longrightarrow> \<exists>z. x = Inr z \<and> f z = y"
  by (cases x) auto

lemma read_filter_prefix:
  assumes "read_filter lower excess k s = Some (Inr (Some (v, t)))"
  shows "prefix v s"
proof -
  from assms obtain m where m: "re_exec (kind_rx k) s = Some m"
    by (auto simp: read_filter_def split: option.splits)
  have "prefix v (matched_text m s)"
    using assms m slice_neg_prefix
    by (auto simp: read_filter_def preFilter_PSEUDO_def Let_def dest!: map_sum_Inr split: fkind.splits sum.splits option.splits if_splits)
  with matched_prefix [OF _ m] show ?thesis by (meson anchored_rx prefix_order.trans)
qed

lemma drop_prefix: "prefix v s \<Longrightarrow> v @ drop (length v) s = s"
  by (auto simp: prefix_def)

lemma drop_shorter: "prefix v s \<Longrightarrow> v \<noteq> [] \<Longrightarrow> length (drop (length v) s) < length s"
  by (auto elim!: prefixE)

text \<open>\<open>spelled\<close>: a step that reads \<open>s\<close> to \<open>s'\<close> puts what it read, and nothing else, on the end of the last group.\<close>

definition spelled :: "jstr \<Rightarrow> tok list list \<Rightarrow> jstr \<Rightarrow> tok list list \<Rightarrow> bool" where
  "spelled s gs s' gs' \<longleftrightarrow>
     (\<exists>ts. gs' = butlast gs @ [last gs @ ts] \<and> s = toSelector ts @ s' \<and> (ts = [] \<longrightarrow> s' = s))"

lemma spelled_refl: "gs \<noteq> [] \<Longrightarrow> spelled s gs s gs"
  unfolding spelled_def by (rule exI [of _ "[]"]) (simp add: toSelector_def)

lemma spelled_trans: "spelled s gs s1 gs1 \<Longrightarrow> spelled s1 gs1 s2 gs2 \<Longrightarrow> spelled s gs s2 gs2"
  unfolding spelled_def
  by (elim exE conjE, rule_tac x = "ts @ tsa" in exI) (auto simp: toSelector_def)

lemma spelled_shorter: "spelled s gs s' gs' \<Longrightarrow> length s' \<le> length s \<and> gs' \<noteq> []"
  by (auto simp: spelled_def)

lemma spelled_push: "prefix v s \<Longrightarrow> spelled s gs (drop (length v) s) (push_token v t gs)"
  unfolding spelled_def push_token_def
  by (rule exI [of _ "[\<lparr>tk_value = v, tk_type = t\<rparr>]"]) (simp add: toSelector_def drop_prefix)

lemma read_filters_spelled:
  "read_filters lower excess ks b s gs = Some (Inr (b', s', gs')) \<Longrightarrow> gs \<noteq> [] \<Longrightarrow>
     spelled s gs s' gs' \<and> (b' \<longrightarrow> b \<or> length s' < length s)"
proof (induction ks arbitrary: b s gs)
  case (Cons k ks)
  show ?case
  proof (cases "read_filter lower excess k s = Some (Inr None)")
    case False
    with Cons.prems obtain v t where vt: "read_filter lower excess k s = Some (Inr (Some (v, t)))"
      and r: "read_filters lower excess ks (v \<noteq> []) (drop (length v) s) (push_token v t gs) = Some (Inr (b', s', gs'))"
      by (auto split: option.splits sum.splits)
    have p: "prefix v s" using vt by (rule read_filter_prefix)
    have "push_token v t gs \<noteq> []" by (simp add: push_token_def)
    with Cons.IH [OF r] have "spelled (drop (length v) s) (push_token v t gs) s' gs'"
      "b' \<longrightarrow> v \<noteq> [] \<or> length s' < length (drop (length v) s)" by auto
    moreover have "length s' \<le> length (drop (length v) s)"
      using calculation(1) spelled_shorter by blast
    moreover have "v \<noteq> [] \<Longrightarrow> length (drop (length v) s) < length s" using p by (rule drop_shorter)
    ultimately show ?thesis using spelled_trans [OF spelled_push [OF p]] by fastforce
  qed (use Cons.prems Cons.IH [of b s gs] in simp)
qed (auto intro: spelled_refl)

lemma read_combinator_spelled:
  assumes "read_combinator s gs = (b, s', gs')" "gs \<noteq> []"
  shows "spelled s gs s' gs' \<and> (b \<longrightarrow> length s' < length s)"
proof (cases "re_exec rcombinators s")
  case None
  with assms show ?thesis by (auto simp: read_combinator_def intro: spelled_refl)
next
  case (Some m)
  from matched_prefix [OF _ Some] have "prefix (matched_text m s) s" by simp
  with drop_shorter [OF this] show ?thesis using assms Some spelled_push by (auto simp: read_combinator_def Let_def)
qed

lemma read_comma_shorter: "read_comma b s gs = (s1, gs1) \<Longrightarrow> length s1 \<le> length s"
  by (auto simp: read_comma_def Let_def split: if_splits option.splits)

lemma read_comma_not_Nil: "read_comma b s gs = (s1, gs1) \<Longrightarrow> b \<longrightarrow> gs \<noteq> [] \<Longrightarrow> gs1 \<noteq> []"
  by (auto simp: read_comma_def Let_def split: if_splits option.splits)

lemma read_filter_total:
  assumes "\<And>u. length u < length s \<Longrightarrow> excess u \<noteq> None"
  shows "read_filter lower excess k s \<noteq> None"
proof (cases "re_exec (kind_rx k) s")
  case (Some m)
  have "excess (cap m 2) \<noteq> None" if "k = KPseudo"
    using assms pseudo_caps_shorter [of s m 2] Some that by simp
  with Some show ?thesis
    by (cases k) (auto simp: read_filter_def preFilter_PSEUDO_def Let_def split: option.splits sum.splits)
qed (simp add: read_filter_def)

lemma read_filters_total:
  "(\<And>u. length u < length s \<Longrightarrow> excess u \<noteq> None) \<Longrightarrow> read_filters lower excess ks b s gs \<noteq> None"
proof (induction ks arbitrary: b s gs)
  case (Cons k ks)
  note rest = Cons.IH [of s] Cons.IH [of "drop n s" for n]
  from Cons.prems have "read_filter lower excess k s \<noteq> None" by (rule read_filter_total)
  with rest Cons.prems show ?case by (auto split: option.splits sum.splits simp del: not_None_eq)
qed simp

lemma loop_total: "length s < n \<Longrightarrow> b \<longrightarrow> gs \<noteq> [] \<Longrightarrow> tokenize_loop n lower b s gs \<noteq> None"
proof (induction n arbitrary: b s gs)
  case (Suc n)
  define excess where "excess u =
    (case tokenize_loop n lower False u [] of
       None \<Rightarrow> None | Some (Inl e) \<Rightarrow> Some (Inl e) | Some (Inr (rest, _)) \<Rightarrow> Some (Inr (length rest)))" for u
  obtain s1 gs1 where c: "read_comma b s gs = (s1, gs1)" by fastforce
  obtain b1 s2 gs2 where k: "read_combinator s1 gs1 = (b1, s2, gs2)" by (cases "read_combinator s1 gs1")
  have gs1: "gs1 \<noteq> []" using read_comma_not_Nil [OF c Suc.prems(2)] .
  note k' = read_combinator_spelled [OF k gs1]
  have len: "length s2 \<le> length s1" "length s1 \<le> length s" and gs2: "gs2 \<noteq> []"
    using spelled_shorter k' read_comma_shorter [OF c] by blast+
  have "excess u \<noteq> None" if "length u < length s2" for u
    using Suc.IH [of u False "[]"] that len Suc.prems(1) by (auto simp: excess_def split: option.splits sum.splits)
  then have "read_filters lower excess filter_kinds b1 s2 gs2 \<noteq> None" by (rule read_filters_total)
  moreover have "tokenize_loop n lower True s3 gs3 \<noteq> None"
    if "read_filters lower excess filter_kinds b1 s2 gs2 = Some (Inr (True, s3, gs3))" for s3 gs3
    using read_filters_spelled [OF that gs2] spelled_shorter k' len Suc.prems(1) by (intro Suc.IH) fastforce+
  ultimately show ?case
    using c k excess_def [abs_def] by (auto split: option.splits sum.splits simp del: not_None_eq)
qed simp

lemma loop_ends: "\<exists>r. tokenize lower s = Some r"
proof -
  have "tokenize_loop (length s + 1) lower False s [] \<noteq> None" by (rule loop_total) simp_all
  then obtain r where r: "tokenize_loop (length s + 1) lower False s [] = Some r" by blast
  show ?thesis unfolding tokenize_def r by (cases r) auto
qed

text \<open>
  C31. Reading a selector ends: no text makes \<open>tokenize\<close> run out of fuel, although it calls itself on the arguments of
  pseudos. A run of the loop either reads something or is the last, and an argument is shorter than its pseudo.
\<close>

theorem tokenize_ends: "\<exists>r. tokenize lower s = Some r"
  by (rule loop_ends)

section \<open>What tokens spell\<close>

lemma matched_word:
  assumes "re_exec (RSeq RBol q) s = Some m"
  shows "s = matched_text m s @ drop (length (matched_text m s)) s" "word q (matched_text m s)"
proof -
  have "prefix (matched_text m s) s" "word q (matched_text m s)"
    using matched_prefix [OF _ assms] by (auto simp: anchored_def)
  then show "s = matched_text m s @ drop (length (matched_text m s)) s" "word q (matched_text m s)"
    by (simp_all add: drop_prefix)
qed

lemma word_spaces: "word spaces u \<longleftrightarrow> list_all html_white u"
  by (simp add: spaces_def rx_space_def word_star_set in_class_space list_all_iff)

lemma spaces_no_comma: "list_all html_white u \<Longrightarrow> 44 \<notin> set u"
  by (auto simp: list_all_iff html_white_def)

definition comma :: "jstr \<Rightarrow> bool" where
  "comma w \<longleftrightarrow> (\<exists>u v. w = u @ 44 # v \<and> list_all html_white u \<and> list_all html_white v)"

lemma word_rcomma: "word (RSeq spaces (RSeq (RLit [44]) spaces)) w \<longleftrightarrow> comma w"
  by (fastforce simp: word_simps(3) comma_def word_spaces simp del: RLit.simps)

text \<open>A last comma is never passed: no filter begins with white space or a comma, and no combinator holds a comma.\<close>

lemma rcomma_whole:
  assumes "comma s"
  shows "\<exists>m. re_exec rcomma s = Some m \<and> drop (length (matched_text m s)) s = []"
proof -
  obtain u v where s: "s = u @ 44 # v" "list_all html_white u" "list_all html_white v" using assms by (auto simp: comma_def)
  have run: "\<exists>sts. ms spaces (MS i (x @ y) []) = MS (i + length x) y [] # sts"
    if "list_all html_white x" "y = [] \<or> \<not> html_white (y ! 0)" for i x y
  proof -
    have "takeWhile html_white (x @ y) = x" "dropWhile html_white (x @ y) = y"
      using that by (cases y; force simp: list_all_iff takeWhile_append2 dropWhile_append2)+
    with star_set_first [of "x @ y" "length (x @ y)" False "[(32, 32), (9, 9), (13, 13), (10, 10), (12, 12)]" i "[]"]
    show ?thesis by (simp add: spaces_def rx_space_def in_class_space)
  qed
  obtain r1 where 1: "ms spaces (MS 0 s []) = MS (length u) (44 # v) [] # r1"
    using run [OF s(2), of "44 # v" 0] s(1) by (auto simp: html_white_def)
  obtain r2 where 2: "ms spaces (MS (Suc (length u)) v []) = MS (Suc (length u) + length v) [] [] # r2"
    using run [OF s(3), of "[]" "Suc (length u)"] by auto
  have "\<exists>r. ms (RSeq spaces (RSeq (RLit [44]) spaces)) (MS 0 s []) = MS (length s) [] [] # r"
    using 1 2 s(1) by (simp add: in_class_def advance_def)
  then show ?thesis by (auto simp: rcomma_def re_exec_bol matched_text_def)
qed

lemma rcomma_rest:
  assumes "re_exec rcomma s = Some m"
  shows "comma (matched_text m s) \<and> s = matched_text m s @ drop (length (matched_text m s)) s"
  using matched_word [OF assms [unfolded rcomma_def]] by (simp only: word_rcomma)

definition begins :: "jstr \<Rightarrow> bool" where
  "begins w \<longleftrightarrow> w \<noteq> [] \<and> \<not> html_white (w ! 0) \<and> w ! 0 \<noteq> 44"

lemma begins_append: "begins u \<Longrightarrow> begins (u @ v)"
  by (simp add: begins_def nth_append)

lemma begins_Cons: "begins (c # w) \<longleftrightarrow> \<not> html_white c \<and> c \<noteq> 44"
  by (simp add: begins_def)

lemma begins_identifier: "word css_identifier w \<Longrightarrow> begins w"
  unfolding css_identifier_def rx_ident_char_def rx_hex_escape_def
  by (auto simp: word_simps word_RAlts in_class_def begins_Cons html_white_def simp del: RAlts.simps)

lemma begins_filter:
  assumes "kind_rx k = RSeq RBol q" "word q w"
  shows "begins w"
  using assms begins_identifier
  by (cases k) (auto simp: matchExpr_ID_def matchExpr_CLASS_def matchExpr_TAG_def matchExpr_ATTR_def matchExpr_PSEUDO_def
      matchExpr_CHILD_def attributes_def pseudos_rx_def word_simps begins_Cons html_white_def simp del: RLit.simps RAlts.simps)

lemma no_filter:
  assumes "\<not> begins s"
  shows "read_filters lower excess ks b s gs = Some (Inr (b, s, gs))"
proof (induction ks)
  case (Cons k ks)
  have "re_exec (kind_rx k) s = None"
  proof (rule ccontr)
    assume "re_exec (kind_rx k) s \<noteq> None"
    then obtain m where "re_exec (kind_rx k) s = Some m" by blast
    from matched_prefix [OF _ this] begins_filter obtain v where "s = v @ drop (length v) s" "begins v"
      using anchored_rx(1) drop_prefix by metis
    with assms begins_append show False by metis
  qed
  with Cons.IH show ?case by (simp add: read_filter_def)
qed simp

lemma comma_not_begins: "comma s \<Longrightarrow> \<not> begins s"
  by (auto simp: comma_def begins_def nth_append split: if_splits) (auto simp: list_all_length)

lemma read_combinator_comma:
  assumes "comma s" "read_combinator s gs = (b, s', gs')"
  shows "comma s'"
proof (cases "re_exec rcombinators s")
  case None
  with assms show ?thesis by (simp add: read_combinator_def)
next
  case (Some m)
  obtain u v where s: "s = u @ 44 # v" "list_all html_white u" "list_all html_white v" using assms by (auto simp: comma_def)
  let ?w = "matched_text m s"
  note p = matched_word [OF Some [unfolded rcombinators_def]]
  from p(2) have "44 \<notin> set ?w"
    by (auto simp: word_simps word_spaces rx_space_def in_class_def dest: spaces_no_comma)
  with p(1) s(1) have "length ?w \<le> length u"
    by (metis in_set_conv_decomp linorder_not_le nth_append_length nth_append nth_mem)
  then have "drop (length ?w) s = drop (length ?w) u @ 44 # v" using s(1) by simp
  moreover have "list_all html_white (drop (length ?w) u)" using s(2) by (auto simp: list_all_iff dest: in_set_dropD)
  ultimately have "comma (drop (length ?w) s)" using s(3) unfolding comma_def by blast
  with assms(2) Some show ?thesis by (auto simp: read_combinator_def Let_def)
qed

lemma loop_comma:
  "comma s \<Longrightarrow> tokenize_loop n lower True s gs = Some (Inr (s', gs')) \<Longrightarrow> s' \<noteq> []"
proof (induction n arbitrary: s gs)
  case (Suc n)
  obtain m where m: "re_exec rcomma s = Some m" "drop (length (matched_text m s)) s = []"
    using rcomma_whole [OF Suc.prems(1)] by blast
  then have c: "read_comma True s gs = (s, gs @ [[]])" by (simp add: read_comma_def)
  obtain b1 s2 gs2 where k: "read_combinator s (gs @ [[]]) = (b1, s2, gs2)" by (cases "read_combinator s (gs @ [[]])")
  have s2: "comma s2" using read_combinator_comma [OF Suc.prems(1) k] .
  have "s \<noteq> []" "s2 \<noteq> []" using Suc.prems(1) s2 by (auto simp: comma_def)
  with Suc.prems(2) Suc.IH [OF s2] show ?case
    by (auto simp: c k no_filter [OF comma_not_begins [OF s2]] split: if_splits)
qed simp

text \<open>The text of a selector list: the groups, with what stands between them.\<close>

definition spelling :: "jstr list \<Rightarrow> tok list list \<Rightarrow> jstr" where
  "spelling seps gs = concat (map2 (\<lambda>w g. w @ toSelector g) ([] # seps) gs)"

definition spells :: "jstr list \<Rightarrow> tok list list \<Rightarrow> bool" where
  "spells seps gs \<longleftrightarrow> length seps = length gs - 1 \<and> list_all comma seps"

lemma spelling_spelled:
  assumes "spelled s gs s' gs'" "gs \<noteq> []" "length seps = length gs - 1"
  shows "spelling seps gs' @ s' = spelling seps gs @ s" "length gs' = length gs"
proof -
  obtain hs g where gs: "gs = hs @ [g]" using assms(2) by (metis append_butlast_last_id)
  obtain ws w where ws: "[] # seps = ws @ [w]" by (metis append_butlast_last_id list.distinct(1))
  have len: "length ws = length hs" using arg_cong [OF ws, of length] gs assms(3) by simp
  obtain ts where ts: "gs' = hs @ [g @ ts]" "s = toSelector ts @ s'" using assms(1) gs by (auto simp: spelled_def)
  show "spelling seps gs' @ s' = spelling seps gs @ s" "length gs' = length gs"
    unfolding spelling_def ws ts gs using len by (simp_all add: toSelector_def)
qed

lemma spelling_comma:
  assumes "length seps = length gs - 1" "gs \<noteq> []"
  shows "spelling (seps @ [w]) (gs @ [[]]) = spelling seps gs @ w"
proof -
  have "length ([] # seps) = length gs" using assms by (cases gs) simp_all
  then have "zip ([] # seps @ [w]) (gs @ [[]]) = zip ([] # seps) gs @ [(w, [])]"
    using zip_append [of "[] # seps" gs "[w]" "[[]]"] by simp
  then show ?thesis by (simp add: spelling_def toSelector_def)
qed

lemma read_comma_spells:
  assumes "read_comma b s gs = (s1, gs1)" "b \<longleftrightarrow> gs \<noteq> []" "spells seps gs" "s \<noteq> []"
  shows "s1 \<noteq> [] \<and> (b \<and> comma s \<or> (\<exists>seps1. spells seps1 gs1 \<and> spelling seps1 gs1 @ s1 = spelling seps gs @ s))"
proof (cases b)
  case False
  with assms show ?thesis by (auto simp: read_comma_def spells_def spelling_def toSelector_def)
next
  case b: True
  show ?thesis
  proof (cases "re_exec rcomma s")
    case None
    with b assms show ?thesis by (auto simp: read_comma_def)
  next
    case (Some m)
    let ?w = "matched_text m s" and ?rest = "drop (length (matched_text m s)) s"
    from rcomma_rest [OF Some] have w: "comma ?w" "s = ?w @ ?rest" by auto
    show ?thesis
    proof (cases "?rest = []")
      case True
      with w have "comma s" by simp
      with assms(1,4) b Some True show ?thesis by (auto simp: read_comma_def Let_def)
    next
      case False
      with assms(1) b Some have 1: "s1 = ?rest" "gs1 = gs @ [[]]" by (auto simp: read_comma_def Let_def)
      have "spells (seps @ [?w]) gs1" using assms(2,3) b w(1) 1 by (cases gs) (auto simp: spells_def)
      moreover have "spelling (seps @ [?w]) gs1 @ s1 = spelling seps gs @ s"
        using spelling_comma [of seps gs ?w] assms(2,3) b 1 w(2) by (simp add: spells_def)
      ultimately show ?thesis using 1(1) False by metis
    qed
  qed
qed

lemma read_comma_groups: "read_comma b s gs = (s1, gs1) \<Longrightarrow> [] \<notin> set gs \<Longrightarrow> [] \<notin> set (butlast gs1)"
  by (auto simp: read_comma_def Let_def dest: in_set_butlastD split: if_splits option.splits)

lemma loop_spells:
  "tokenize_loop n lower b s gs = Some (Inr ([], gs')) \<Longrightarrow> b \<longleftrightarrow> gs \<noteq> [] \<Longrightarrow> [] \<notin> set gs \<Longrightarrow> spells seps gs \<Longrightarrow>
     \<exists>seps'. spells seps' gs' \<and> spelling seps' gs' = spelling seps gs @ s \<and> [] \<notin> set gs'"
proof (induction n arbitrary: b s gs seps)
  case (Suc n)
  show ?case
  proof (cases "s = [] \<or> b \<and> comma s")
    case True
    with Suc.prems loop_comma [of s "Suc n" lower gs "[]" gs'] show ?thesis by fastforce
  next
    case False
    then have s: "s \<noteq> []" "\<not> (b \<and> comma s)" by simp_all
    define excess where "excess u =
      (case tokenize_loop n lower False u [] of
         None \<Rightarrow> None | Some (Inl e) \<Rightarrow> Some (Inl e) | Some (Inr (rest, _)) \<Rightarrow> Some (Inr (length rest)))" for u
    obtain s1 gs1 where c: "read_comma b s gs = (s1, gs1)" by fastforce
    obtain b1 s2 gs2 where k: "read_combinator s1 gs1 = (b1, s2, gs2)" by (cases "read_combinator s1 gs1")
    obtain b2 s3 gs3 where f: "read_filters lower excess filter_kinds b1 s2 gs2 = Some (Inr (b2, s3, gs3))"
      and l: "(if b2 then tokenize_loop n lower True s3 gs3 else Some (Inr (s3, gs3))) = Some (Inr ([], gs'))"
      using Suc.prems(1) s(1) c k excess_def [abs_def] by (auto split: option.splits sum.splits)
    from read_comma_spells [OF c Suc.prems(2,4) s(1)] s(2) obtain seps1 where
      s1: "s1 \<noteq> []" "spells seps1 gs1" "spelling seps1 gs1 @ s1 = spelling seps gs @ s" by blast
    have gs1: "gs1 \<noteq> []" "[] \<notin> set (butlast gs1)"
      using read_comma_not_Nil [OF c] read_comma_groups [OF c] Suc.prems(2,3) by blast+
    have k': "spelled s1 gs1 s2 gs2 \<and> (b1 \<longrightarrow> length s2 < length s1)" by (rule read_combinator_spelled [OF k gs1(1)])
    have f': "spelled s2 gs2 s3 gs3 \<and> (b2 \<longrightarrow> b1 \<or> length s3 < length s2)"
      using read_filters_spelled [OF f] k' spelled_shorter by blast
    have sp: "spelled s1 gs1 s3 gs3" using k' f' spelled_trans by blast
    have "b2 \<longrightarrow> length s3 < length s1" using k' f' spelled_shorter by (metis le_less_trans less_le_trans)
    with sp l s1(1) have gs3: "gs3 \<noteq> []" "[] \<notin> set gs3"
      using gs1 unfolding spelled_def by (auto split: if_splits)
    have sep3: "spells seps1 gs3" "spelling seps1 gs3 @ s3 = spelling seps gs @ s"
      using spelling_spelled [OF sp gs1(1)] s1(2,3) by (auto simp: spells_def)
    show ?thesis
    proof (cases b2)
      case True
      with Suc.IH [of True s3 gs3 seps1] l gs3 sep3 show ?thesis by simp
    next
      case False
      with l gs3 sep3 show ?thesis by auto
    qed
  qed
qed simp

lemma groups_spell:
  assumes "tokenize lower s = Some (Inr gs)"
  shows "\<exists>seps. spells seps gs \<and> spelling seps gs = s \<and> [] \<notin> set gs"
proof -
  from assms have "tokenize_loop (length s + 1) lower False s [] = Some (Inr ([], gs))"
    by (auto simp: tokenize_def simp del: tokenize_loop.simps split: option.splits sum.splits if_splits)
  from loop_spells [OF this, of "[]"] show ?thesis by (simp add: spells_def spelling_def)
qed

text \<open>
  C20. A tokenized selector is its tokens: the text is the values of the tokens of the groups in order, with one comma
  and white space around it between two groups, and no group is empty. So \<open>toSelector\<close>, which the engine uses to
  build selectors for parts of a compiled one, gives back the text of the part.
\<close>

theorem tokens_spell_selector:
  assumes "tokenize lower s = Some (Inr gs)"
  shows "\<exists>seps. spells seps gs \<and> spelling seps gs = s \<and> [] \<notin> set gs"
  using assms by (rule groups_spell)

text \<open>A comma list of two tags\<close>

theorem tokens_spell_selector_witness:
  "\<exists>seps gs. spells seps gs \<and> spelling seps gs = lit ''a , b'' \<and> length gs = 2"
proof -
  have "tokenize id (lit ''a , b'') =
    Some (Inr [[\<lparr>tk_value = lit ''a'', tk_type = TkTag (lit ''a'')\<rparr>], [\<lparr>tk_value = lit ''b'', tk_type = TkTag (lit ''b'')\<rparr>]])"
    by code_simp
  from tokens_spell_selector [OF this] show ?thesis by force
qed

text \<open>
  \<open>match[ 3 ]\<close> is compared with \<open>"even"\<close> and \<open>"odd"\<close> as written, although the expression ignores case: the argument
  \<open>ODD\<close> gives \<open>0n+0\<close>, which no element matches, and \<open>OF-TYPE\<close> is not read as \<open>of-type\<close>.
\<close>

lemma nth_odd_upper_case:
  "tokenize id (lit '':nth-child(odd)'') = Some (Inr [[\<lparr>tk_value = lit '':nth-child(odd)'', tk_type = TkChild (lit ''nth'') (lit ''child'') 2 1\<rparr>]])"
  "tokenize id (lit '':nth-child(ODD)'') = Some (Inr [[\<lparr>tk_value = lit '':nth-child(ODD)'', tk_type = TkChild (lit ''nth'') (lit ''child'') 0 0\<rparr>]])"
  by code_simp+

section \<open>From the text to the elements\<close>

definition child_type :: "jstr \<Rightarrow> ctype" where
  "child_type t =
     (if t = lit ''only'' then Only else if t = lit ''first'' then First else if t = lit ''last'' then Last
      else if t = lit ''nth'' then Nth else NthLast)"

text \<open>
  \<open>Expr.relative\<close> and \<open>Expr.filter\<close> for the type of a token. \<open>pseudo\<close> gives the filter of a pseudo and its argument,
  \<open>None\<close> for a name that is not in \<open>Expr.pseudos\<close>.
\<close>

definition token_matcher :: "(jstr \<Rightarrow> jstr option \<Rightarrow> (addr \<Rightarrow> bool) option) \<Rightarrow> tok \<Rightarrow> js_error + sel_filter token" where
  "token_matcher pseudo t =
     (case tk_type t of
        TkComb c \<Rightarrow>
          if c = lit ''>'' then Inr (Comb Child) else if c = lit '' '' then Inr (Comb Descendant)
          else if c = lit ''+'' then Inr (Comb Adjacent) else if c = lit ''~'' then Inr (Comb Sibling) else Inl TypeError
      | TkTag n \<Rightarrow> Inr (Filter (FTag n))
      | TkClass c \<Rightarrow> Inr (Filter (FClass c))
      | TkAttr n operator check \<Rightarrow> Inr (Filter (FAttr n operator check))
      | TkChild type what x y \<Rightarrow> Inr (Filter (FChild (child_type type) (what = lit ''of-type'') x y))
      | TkPseudo n arg \<Rightarrow>
          (case pseudo n arg of Some p \<Rightarrow> Inr (Filter (FPseudo p)) | None \<Rightarrow> Inl (syntax_error (lit ''unsupported pseudo: '' @ n)))
      | TkId i \<Rightarrow> Inr (Filter (FId i)))"

fun token_matchers :: "(jstr \<Rightarrow> jstr option \<Rightarrow> (addr \<Rightarrow> bool) option) \<Rightarrow> tok list \<Rightarrow> js_error + sel_filter token list" where
  "token_matchers pseudo [] = Inr []"
| "token_matchers pseudo (t # ts) =
     (case token_matcher pseudo t of
        Inl e \<Rightarrow> Inl e
      | Inr m \<Rightarrow> (case token_matchers pseudo ts of Inl e \<Rightarrow> Inl e | Inr ks \<Rightarrow> Inr (m # ks)))"

fun group_matchers :: "(jstr \<Rightarrow> jstr option \<Rightarrow> (addr \<Rightarrow> bool) option) \<Rightarrow> tok list list \<Rightarrow> js_error + sel_filter token list list" where
  "group_matchers pseudo [] = Inr []"
| "group_matchers pseudo (g # gs) =
     (case group_matchers pseudo gs of
        Inl e \<Rightarrow> Inl e
      | Inr rest \<Rightarrow> (case token_matchers pseudo g of Inl e \<Rightarrow> Inl e | Inr k \<Rightarrow> Inr (k # rest)))"

text \<open>\<open>compile( selector )( seed, context, xml, results, outermost )\<close>\<close>

definition compile_text ::
  "(jstr \<Rightarrow> jstr) \<Rightarrow> (jstr \<Rightarrow> (addr \<Rightarrow> jstr \<Rightarrow> jstr option option) option) \<Rightarrow> (jstr \<Rightarrow> jstr option \<Rightarrow> (addr \<Rightarrow> bool) option) \<Rightarrow>
   node list \<Rightarrow> bool \<Rightarrow> int \<Rightarrow> contexts \<Rightarrow> bool \<Rightarrow> nat \<Rightarrow> jstr \<Rightarrow> addr list \<Rightarrow> sstate \<Rightarrow> (js_error + addr list \<times> sstate) option" where
  "compile_text lower attrHandle pseudo ts xml run ctx outermost d selector seed st =
     (case tokenize lower selector of
        None \<Rightarrow> None
      | Some (Inl e) \<Rightarrow> Some (Inl e)
      | Some (Inr gs) \<Rightarrow>
          (case group_matchers pseudo gs of
             Inl e \<Rightarrow> Some (Inl e)
           | Inr match \<Rightarrow>
               Some (Inr (compile_run lower ts xml run ctx outermost (sel_flt lower attrHandle ts xml run) d match seed st))))"



end
