(* ===== verification/JQ_Traverse.thy ===== *)
theory JQ_Traverse
  imports JQ_Sel_Match
begin

text \<open>
  \<open>jquery-3.5.1.js\<close>, traversal: \<open>dir\<close>, \<open>siblings\<close>, \<open>sibling\<close>, \<open>winnow\<close> and \<open>jQuery.filter\<close>, the methods on sets
  of nodes (\<open>filter\<close>, \<open>not\<close>, \<open>is\<close>, \<open>has\<close>, \<open>closest\<close>, \<open>index\<close>, \<open>add\<close>) and the family from \<open>parent\<close> to \<open>contents\<close>.

  A selector is given by its test on elements, which \<open>JQ_Sel_Match\<close> describes; \<open>cmp\<close> is the order of nodes
  and \<open>detects\<close> says whether the engine reports equal elements to it (\<open>JQ_Dom\<close>). Frames and the contents
  of templates are other trees.
\<close>

section \<open>Steps from one node\<close>

definition is_elem :: "node list \<Rightarrow> addr \<Rightarrow> bool" where
  "is_elem ts a \<longleftrightarrow> el_type (info_at ts a) = 1"

text \<open>The loop of \<open>dir\<close> over the nodes of a walk; \<open>until\<close> is the test that ends it.\<close>

fun dir_loop :: "node list \<Rightarrow> (addr \<Rightarrow> bool) option \<Rightarrow> addr list \<Rightarrow> addr list" where
  "dir_loop ts until [] = []"
| "dir_loop ts until (n # ns) =
     (if el_type (info_at ts n) = 9 then []
      else if is_elem ts n then
        (case until of
           Some t \<Rightarrow> if t n then [] else n # dir_loop ts until ns
         | None \<Rightarrow> n # dir_loop ts until ns)
      else dir_loop ts until ns)"

definition dir_from :: "node list \<Rightarrow> addr \<Rightarrow> dir \<Rightarrow> (addr \<Rightarrow> bool) option \<Rightarrow> addr list" where
  "dir_from ts a d until = dir_loop ts until (walk ts d a)"

fun siblings :: "node list \<Rightarrow> addr list \<Rightarrow> addr option \<Rightarrow> addr list" where
  "siblings ts [] e = []"
| "siblings ts (n # ns) e = (if is_elem ts n \<and> Some n \<noteq> e then n # siblings ts ns e else siblings ts ns e)"

definition sibling :: "node list \<Rightarrow> addr \<Rightarrow> dir \<Rightarrow> addr option" where
  "sibling ts a d = find (is_elem ts) (walk ts d a)"

section \<open>Filters of sets\<close>

text \<open>What \<open>filter\<close>, \<open>not\<close> and \<open>is\<close> take: a function, a node, nodes, or a selector.\<close>

datatype qualifier =
    QFun "nat \<Rightarrow> addr \<Rightarrow> bool"
  | QNode addr
  | QNodes "addr list"
  | QSelector "addr \<Rightarrow> bool"

definition jq_filter :: "node list \<Rightarrow> (addr \<Rightarrow> bool) \<Rightarrow> addr list \<Rightarrow> bool \<Rightarrow> addr list" where
  "jq_filter ts test es neg =
     (let keep = (\<lambda>e. test e \<noteq> neg) in
      case es of
        [e] \<Rightarrow> if is_elem ts e then (if keep e then [e] else []) else filter keep (filter (is_elem ts) es)
      | _ \<Rightarrow> filter keep (filter (is_elem ts) es))"

definition winnow :: "node list \<Rightarrow> addr list \<Rightarrow> qualifier \<Rightarrow> bool \<Rightarrow> addr list" where
  "winnow ts elements qualifier neg =
     (case qualifier of
        QFun f \<Rightarrow> map snd (filter (\<lambda>(i, e). f i e \<noteq> neg) (enumerate 0 elements))
      | QNode n \<Rightarrow> filter (\<lambda>e. (e = n) \<noteq> neg) elements
      | QNodes ns \<Rightarrow> filter (\<lambda>e. (index_in ns e > - 1) \<noteq> neg) elements
      | QSelector test \<Rightarrow> jq_filter ts test elements neg)"

definition jq_is :: "node list \<Rightarrow> addr list \<Rightarrow> qualifier \<Rightarrow> bool" where
  "jq_is ts elements qualifier \<longleftrightarrow> winnow ts elements qualifier False \<noteq> []"

definition jq_has :: "(addr \<Rightarrow> addr \<Rightarrow> bool) \<Rightarrow> node list \<Rightarrow> addr list \<Rightarrow> addr list \<Rightarrow> addr list" where
  "jq_has within ts elements targets = winnow ts elements (QFun (\<lambda>_ e. list_ex (within e) targets)) False"

text \<open>The inner loop of \<open>closest\<close>: from the node up to, and without, the context.\<close>

function closest_loop :: "node list \<Rightarrow> (addr \<Rightarrow> bool) \<Rightarrow> addr option \<Rightarrow> addr \<Rightarrow> addr option" where
  "closest_loop ts test ctx cur =
     (if Some cur = ctx then None
      else if el_type (info_at ts cur) < 11 \<and> test cur then Some cur
      else (case parentNode cur of None \<Rightarrow> None | Some p \<Rightarrow> closest_loop ts test ctx p))"
  by pat_completeness auto
termination closest_loop
  by (relation "measure (\<lambda>(ts, test, ctx, cur). length cur)") (auto simp: parentNode_def step_def split: if_splits)

declare closest_loop.simps [simp del]

text \<open>
  The test is a selector, which is only asked for elements, or membership in a set of targets;
  \<open>positional\<close> says that the selector matches \<open>rneedsContext\<close>.
\<close>

definition closest_test :: "node list \<Rightarrow> (addr \<Rightarrow> bool) + addr list \<Rightarrow> addr \<Rightarrow> bool" where
  "closest_test ts selectors cur =
     (case selectors of Inl t \<Rightarrow> is_elem ts cur \<and> t cur | Inr targets \<Rightarrow> index_in targets cur > - 1)"

definition closest ::
  "bool \<Rightarrow> (addr \<Rightarrow> addr \<Rightarrow> int) \<Rightarrow> node list \<Rightarrow> addr list \<Rightarrow> bool \<Rightarrow> (addr \<Rightarrow> bool) + addr list \<Rightarrow> addr option \<Rightarrow> addr list" where
  "closest detects cmp ts elements positional selectors ctx =
     (let matched = (if positional then [] else List.map_filter (closest_loop ts (closest_test ts selectors) ctx) elements) in
      if length matched > 1 then uniqueSort detects cmp matched else matched)"

definition jq_index :: "node list \<Rightarrow> addr list \<Rightarrow> int" where
  "jq_index ts elements =
     (case elements of
        [] \<Rightarrow> - 1
      | e # _ \<Rightarrow> if parentNode e \<noteq> None then int (length (dir_from ts e PreviousSibling None)) else - 1)"

definition jq_add :: "bool \<Rightarrow> (addr \<Rightarrow> addr \<Rightarrow> int) \<Rightarrow> addr list \<Rightarrow> addr list \<Rightarrow> addr list" where
  "jq_add detects cmp elements others = uniqueSort detects cmp (elements @ others)"

section \<open>The family of \<open>parent\<close>\<close>

datatype trav =
    Parent | Parents | ParentsUntil | Next | Prev | NextAll | PrevAll | NextUntil | PrevUntil | Siblings | Children | Contents

fun trav_fn :: "node list \<Rightarrow> trav \<Rightarrow> (addr \<Rightarrow> bool) option \<Rightarrow> addr \<Rightarrow> addr list" where
  "trav_fn ts Parent until a =
     (case parentNode a of Some p \<Rightarrow> if el_type (info_at ts p) \<noteq> 11 then [p] else [] | None \<Rightarrow> [])"
| "trav_fn ts Parents until a = dir_from ts a ParentNode None"
| "trav_fn ts ParentsUntil until a = dir_from ts a ParentNode until"
| "trav_fn ts Next until a = (case sibling ts a NextSibling of Some n \<Rightarrow> [n] | None \<Rightarrow> [])"
| "trav_fn ts Prev until a = (case sibling ts a PreviousSibling of Some n \<Rightarrow> [n] | None \<Rightarrow> [])"
| "trav_fn ts NextAll until a = dir_from ts a NextSibling None"
| "trav_fn ts PrevAll until a = dir_from ts a PreviousSibling None"
| "trav_fn ts NextUntil until a = dir_from ts a NextSibling until"
| "trav_fn ts PrevUntil until a = dir_from ts a PreviousSibling until"
| "trav_fn ts Siblings until a = (case parentNode a of Some p \<Rightarrow> siblings ts (childNodes ts p) (Some a) | None \<Rightarrow> [])"
| "trav_fn ts Children until a = siblings ts (childNodes ts a) None"
| "trav_fn ts Contents until a = childNodes ts a"

definition guaranteedUnique :: "trav \<Rightarrow> bool" where
  "guaranteedUnique t \<longleftrightarrow> t \<in> {Children, Contents, Next, Prev}"

definition rparentsprev :: "trav \<Rightarrow> bool" where
  "rparentsprev t \<longleftrightarrow> t \<in> {Parents, ParentsUntil, PrevUntil, PrevAll}"

definition is_until :: "trav \<Rightarrow> bool" where
  "is_until t \<longleftrightarrow> t \<in> {ParentsUntil, NextUntil, PrevUntil}"

text \<open>\<open>jQuery.fn[ name ]( until, selector )\<close>, where a selector is its test\<close>

definition traverse ::
  "bool \<Rightarrow> (addr \<Rightarrow> addr \<Rightarrow> int) \<Rightarrow> node list \<Rightarrow> trav \<Rightarrow> addr list \<Rightarrow> (addr \<Rightarrow> bool) option \<Rightarrow> (addr \<Rightarrow> bool) option \<Rightarrow> addr list" where
  "traverse detects cmp ts name elements until selector =
     (let matched = concat (map (trav_fn ts name until) elements);
          sel = (if is_until name then selector else until);
          matched = (case sel of Some t \<Rightarrow> jq_filter ts t matched False | None \<Rightarrow> matched)
      in if length elements > 1 then
           let matched = (if guaranteedUnique name then matched else uniqueSort detects cmp matched)
           in if rparentsprev name then rev matched else matched
         else matched)"

section \<open>Where steps lead\<close>

lemma set_dir_loop: "set (dir_loop ts until ns) \<subseteq> set ns"
  by (induction ns) (auto split: option.splits)

text \<open>An end cuts the walk off in front of the first element that passes its test.\<close>

lemma walk_cut: "dir_loop ts (Some t) ns = takeWhile (\<lambda>n. \<not> t n) (dir_loop ts None ns)"
  by (induction ns) simp_all

lemma dir_until: "dir_from ts a d (Some t) = takeWhile (\<lambda>n. \<not> t n) (dir_from ts a d None)"
  unfolding dir_from_def by (rule walk_cut)

lemma set_siblings: "set (siblings ts ns e) = {n \<in> set ns. is_elem ts n \<and> Some n \<noteq> e}"
  by (induction ns) auto

lemma distinct_siblings: "distinct ns \<Longrightarrow> distinct (siblings ts ns e)"
  by (induction ns) (auto simp: set_siblings)

lemma step_tree: "step ts d a = Some b \<Longrightarrow> in_tree ts r a \<Longrightarrow> in_tree ts r b"
proof -
  assume s: "step ts d a = Some b" and a: "in_tree ts r a"
  have "b ! 0 = a ! 0"
    using s by (cases a rule: rev_cases) (auto simp: step_def nth_append split: if_splits dir.splits)
  with s a valid_step [OF s] show ?thesis by (simp add: in_tree_def)
qed

lemma walk_tree: "in_tree ts r a \<Longrightarrow> b \<in> set (walk ts d a) \<Longrightarrow> in_tree ts r b"
proof (induction ts d a rule: walk.induct)
  case (1 ts d a)
  show ?case
  proof (cases "step ts d a")
    case (Some c)
    with 1 step_tree [OF Some] show ?thesis by (auto simp: walk_Some)
  qed (use 1 in \<open>simp add: walk_None\<close>)
qed

lemma child_tree: "in_tree ts r a \<Longrightarrow> b \<in> set (childNodes ts a) \<Longrightarrow> in_tree ts r b"
proof -
  assume a: "in_tree ts r a" and "b \<in> set (childNodes ts a)"
  then obtain i where "b = a @ [i]" "i < n_kids ts a" by (auto simp: childNodes_def)
  moreover have "a \<noteq> []" using a by (auto simp: in_tree_def valid_def)
  ultimately show ?thesis using a valid_snoc [of a ts i] by (simp add: in_tree_def nth_append)
qed

lemma parent_tree: "in_tree ts r a \<Longrightarrow> parentNode a = Some p \<Longrightarrow> in_tree ts r p"
  using step_tree [of ts ParentNode a p r] by (auto simp: parentNode_def step_def split: if_splits)

lemma trav_fn_tree:
  assumes "in_tree ts r a" "b \<in> set (trav_fn ts t until a)"
  shows "in_tree ts r b"
proof -
  have d: "in_tree ts r b" if "b \<in> set (dir_from ts a d u)" for d u
    using that set_dir_loop walk_tree [OF assms(1)] unfolding dir_from_def by blast
  have n: "in_tree ts r b" if "sibling ts a d = Some b" for d
    using that walk_tree [OF assms(1)] unfolding sibling_def by (metis find_Some_iff nth_mem)
  have p: "in_tree ts r b" if "parentNode a = Some p" "b = p \<or> b \<in> set (childNodes ts p)" for p
    using that parent_tree [OF assms(1)] child_tree by blast
  show ?thesis
  proof (cases t)
    case Parent
    with assms(2) p show ?thesis by (cases "parentNode a") (auto split: if_splits)
  next
    case Siblings
    with assms(2) p show ?thesis by (cases "parentNode a") (auto simp: set_siblings)
  qed (use assms d n child_tree [OF assms(1)] in \<open>auto simp: set_siblings split: option.splits\<close>)
qed

lemma set_jq_filter: "jq_filter ts t es neg = filter (\<lambda>e. is_elem ts e \<and> t e \<noteq> neg) es"
proof (cases es)
  case (Cons e rest)
  then show ?thesis by (cases rest) (auto simp: jq_filter_def Let_def conj_commute)
qed (simp add: jq_filter_def)

section \<open>Sets\<close>

definition reached :: "node list \<Rightarrow> trav \<Rightarrow> (addr \<Rightarrow> bool) option \<Rightarrow> (addr \<Rightarrow> bool) option \<Rightarrow> addr list \<Rightarrow> addr set" where
  "reached ts t until selector elements =
     {b. (\<exists>a \<in> set elements. b \<in> set (trav_fn ts t until a)) \<and>
         (case if is_until t then selector else until of Some s \<Rightarrow> is_elem ts b \<and> s b | None \<Rightarrow> True)}"

lemma traverse_order:
  assumes "1 < length elements" "\<forall>a \<in> set elements. in_tree ts r a" "\<not> guaranteedUnique t"
  shows "traverse detects (sortOrder ts [r] pref inp) ts t elements until selector =
    (if rparentsprev t then rev else (\<lambda>xs. xs)) (sorted_list_of_set (reached ts t until selector elements))"
proof -
  let ?all = "concat (map (trav_fn ts t until) elements)"
  let ?m = "case if is_until t then selector else until of Some s \<Rightarrow> jq_filter ts s ?all False | None \<Rightarrow> ?all"
  have m: "set ?m = reached ts t until selector elements"
    by (auto simp: reached_def set_jq_filter split: option.splits)
  then have "\<forall>a \<in> set ?m. valid ts a \<and> a ! 0 = r"
    using assms(2) trav_fn_tree by (fastforce simp: reached_def in_tree_def)
  from uniqueSort_in_tree [OF this] m assms(1,3) show ?thesis
    by (simp add: traverse_def Let_def)
qed



section \<open>Unique sets\<close>

lemma child_of: "b \<in> set (childNodes ts a) \<Longrightarrow> a = butlast b"
  by (auto simp: childNodes_def)

lemma next_of:
  assumes "sibling ts (p @ [i]) NextSibling = Some b"
  shows "\<exists>j > i. b = p @ [j] \<and> (\<forall>k. i < k \<and> k < j \<longrightarrow> \<not> is_elem ts (p @ [k]))"
proof -
  have p: "p \<noteq> []" using assms by (auto simp: sibling_def walk_next)
  then obtain n where n: "n < n_kids ts p - Suc i" "b = p @ [Suc i + n]" "\<forall>m < n. \<not> is_elem ts (p @ [Suc i + m])"
    using assms unfolding sibling_def walk_next find_Some_iff by (auto simp: nth_map)
  have "\<not> is_elem ts (p @ [k])" if "i < k" "k < Suc i + n" for k
    using n(3) [rule_format, of "k - Suc i"] that by simp
  with n(2) show ?thesis by (intro exI [of _ "Suc i + n"]) auto
qed

lemma prev_of:
  assumes "sibling ts (p @ [i]) PreviousSibling = Some b"
  shows "\<exists>j < i. b = p @ [j] \<and> (\<forall>k. j < k \<and> k < i \<longrightarrow> \<not> is_elem ts (p @ [k]))"
proof -
  have p: "p \<noteq> []" using assms by (auto simp: sibling_def walk_previous)
  then obtain n where n: "n < i" "b = p @ [i - Suc n]" "\<forall>m < n. \<not> is_elem ts (p @ [i - Suc m])"
    using assms unfolding sibling_def walk_previous find_Some_iff by (auto simp: rev_nth)
  have "\<not> is_elem ts (p @ [k])" if "i - Suc n < k" "k < i" for k
    using n(3) [rule_format, of "i - Suc k"] that by simp
  with n(1,2) show ?thesis by (intro exI [of _ "i - Suc n"]) auto
qed

lemma sibling_inj:
  assumes "is_elem ts a" "is_elem ts a'" "sibling ts a d = Some b" "sibling ts a' d = Some b" "d \<noteq> ParentNode"
  shows "a = a'"
proof -
  have ne: "x = butlast x @ [last x]" if "sibling ts x d = Some b" for x
    using that by (cases x rule: rev_cases) (auto simp: sibling_def walk_None step_def)
  note a = ne [OF assms(3)] and a' = ne [OF assms(4)]
  show ?thesis
  proof (cases d)
    case NextSibling
    obtain j where "last a < j" "b = butlast a @ [j]" "\<forall>k. last a < k \<and> k < j \<longrightarrow> \<not> is_elem ts (butlast a @ [k])"
      using next_of [of ts "butlast a" "last a" b] assms(3) a NextSibling by metis
    moreover obtain j' where "last a' < j'" "b = butlast a' @ [j']" "\<forall>k. last a' < k \<and> k < j' \<longrightarrow> \<not> is_elem ts (butlast a' @ [k])"
      using next_of [of ts "butlast a'" "last a'" b] assms(4) a' NextSibling by metis
    ultimately show ?thesis using a a' assms(1,2) by (metis append1_eq_conv linorder_neqE_nat)
  next
    case PreviousSibling
    obtain j where "j < last a" "b = butlast a @ [j]" "\<forall>k. j < k \<and> k < last a \<longrightarrow> \<not> is_elem ts (butlast a @ [k])"
      using prev_of [of ts "butlast a" "last a" b] assms(3) a PreviousSibling by metis
    moreover obtain j' where "j' < last a'" "b = butlast a' @ [j']" "\<forall>k. j' < k \<and> k < last a' \<longrightarrow> \<not> is_elem ts (butlast a' @ [k])"
      using prev_of [of ts "butlast a'" "last a'" b] assms(4) a' PreviousSibling by metis
    ultimately show ?thesis using a a' assms(1,2) by (metis append1_eq_conv linorder_neqE_nat)
  qed (use assms(5) in simp)
qed

lemma trav_fn_apart:
  assumes "guaranteedUnique t" "is_elem ts a" "is_elem ts a'" "b \<in> set (trav_fn ts t until a)" "b \<in> set (trav_fn ts t until a')"
  shows "a = a'"
proof -
  consider "t = Children" | "t = Contents" | "t = Next" | "t = Prev" using assms(1) by (auto simp: guaranteedUnique_def)
  then show ?thesis
  proof cases
    case 3
    with assms(4,5) have "sibling ts a NextSibling = Some b" "sibling ts a' NextSibling = Some b" by (auto split: option.splits)
    with assms(2,3) show ?thesis by (auto intro: sibling_inj)
  next
    case 4
    with assms(4,5) have "sibling ts a PreviousSibling = Some b" "sibling ts a' PreviousSibling = Some b" by (auto split: option.splits)
    with assms(2,3) show ?thesis by (auto intro: sibling_inj)
  qed (use assms(4,5) child_of [of b ts a] child_of [of b ts a'] in \<open>auto simp: set_siblings\<close>)
qed

lemma trav_fn_distinct: "guaranteedUnique t \<Longrightarrow> distinct (trav_fn ts t until a)"
proof -
  assume t: "guaranteedUnique t"
  have "distinct (childNodes ts a)" by (simp add: childNodes_def distinct_map inj_on_def)
  with t distinct_siblings show ?thesis by (auto simp: guaranteedUnique_def split: option.splits)
qed

text \<open>
  The methods that the source takes for unique, and does not sort, are unique for elements: from distinct
  elements, \<open>children\<close>, \<open>contents\<close>, \<open>next\<close> and \<open>prev\<close> give every node once.
\<close>

theorem guaranteed_unique:
  assumes "distinct elements" "\<forall>a \<in> set elements. is_elem ts a" "guaranteedUnique t"
  shows "distinct (traverse detects cmp ts t elements until selector)"
proof -
  have "distinct (concat (map (trav_fn ts t until) elements))"
    using assms(1,2)
  proof (induction elements)
    case (Cons a elements)
    then have "set (trav_fn ts t until a) \<inter> set (trav_fn ts t until a') = {}" if "a' \<in> set elements" for a'
      using that trav_fn_apart [OF assms(3)] by fastforce
    with Cons trav_fn_distinct [OF assms(3)] show ?case by fastforce
  qed simp
  then have "distinct (case s of Some t' \<Rightarrow> jq_filter ts t' (concat (map (trav_fn ts t until) elements)) False
      | None \<Rightarrow> concat (map (trav_fn ts t until) elements))" for s
    by (cases s) (simp_all add: set_jq_filter)
  moreover have "\<not> rparentsprev t" using assms(3) by (auto simp: guaranteedUnique_def rparentsprev_def)
  ultimately show ?thesis using assms(3) by (simp add: traverse_def Let_def)
qed

text \<open>
  Not for other nodes, which a set can hold: in a paragraph with an element, a text and an element, the next
  element of the first two nodes is the same, and \<open>next\<close> gives it twice.
\<close>

lemma next_of_text_repeats:
  "traverse True (\<lambda>_ _. 0)
     [Node no_info [Node (no_info\<lparr>el_type := 1\<rparr>) [], Node (no_info\<lparr>el_type := 3\<rparr>) [], Node (no_info\<lparr>el_type := 1\<rparr>) []]]
     Next [[0, 0], [0, 1]] None None = [[0, 2], [0, 2]]"
  by code_simp

theorem guaranteed_unique_witness:
  "distinct (traverse True (\<lambda>_ _. 0) sample_doc Children [[0, 0], [0, 0, 0]] None None)"
proof -
  have "distinct [[0, 0], [0, 0, 0 :: nat]]" "\<forall>a \<in> set [[0, 0], [0, 0, 0]]. is_elem sample_doc a" "guaranteedUnique Children"
    by code_simp+
  then show ?thesis by (rule guaranteed_unique)
qed

section \<open>Nearest ancestors\<close>

text \<open>
  What \<open>closest\<close> looks for from \<open>a\<close>: the nearest of \<open>a\<close> and its ancestors that passes the test, with no
  context on the way.
\<close>

definition nearest :: "node list \<Rightarrow> (addr \<Rightarrow> bool) \<Rightarrow> addr option \<Rightarrow> addr \<Rightarrow> addr \<Rightarrow> bool" where
  "nearest ts test ctx a x \<longleftrightarrow>
     x \<noteq> [] \<and> prefix x a \<and> el_type (info_at ts x) < 11 \<and> test x \<and>
     (\<forall>y. prefix x y \<and> prefix y a \<longrightarrow> Some y \<noteq> ctx \<and> (y \<noteq> x \<longrightarrow> \<not> (el_type (info_at ts y) < 11 \<and> test y)))"

lemma finite_nearest: "finite {x. nearest ts test ctx a x}"
  by (rule finite_subset [of _ "set (prefixes a)"]) (auto simp: nearest_def in_set_prefixes)

lemma parent_prefix: "parentNode a = Some p \<Longrightarrow> p \<noteq> [] \<and> (prefix x a \<longleftrightarrow> x = a \<or> prefix x p)"
  by (cases a rule: rev_cases) (auto simp: parentNode_def step_def prefix_snoc split: if_splits)

lemma root_prefix: "parentNode a = None \<Longrightarrow> x \<noteq> [] \<Longrightarrow> prefix x a \<longleftrightarrow> x = a \<and> a \<noteq> []"
  by (cases a, simp, cases x) (auto simp: parentNode_def step_def split: if_splits)

lemma nearest_self: "nearest ts test ctx a a \<longleftrightarrow> a \<noteq> [] \<and> el_type (info_at ts a) < 11 \<and> test a \<and> Some a \<noteq> ctx"
  unfolding nearest_def by (metis prefix_order.antisym prefix_order.refl)

lemma nearest_up:
  assumes "parentNode a = Some p" "x \<noteq> a" "Some a \<noteq> ctx" "\<not> (el_type (info_at ts a) < 11 \<and> test a)"
  shows "nearest ts test ctx a x \<longleftrightarrow> nearest ts test ctx p x"
proof -
  have pre: "prefix y a \<longleftrightarrow> y = a \<or> prefix y p" for y using parent_prefix [OF assms(1)] by blast
  show ?thesis unfolding nearest_def pre using assms(2-4) by blast
qed

lemma closest_loop_iff: "a \<noteq> [] \<Longrightarrow> closest_loop ts test ctx a = Some x \<longleftrightarrow> nearest ts test ctx a x"
proof (induction ts test ctx a rule: closest_loop.induct)
  case (1 ts test ctx a)
  let ?ok = "el_type (info_at ts a) < 11 \<and> test a"
  consider (stop) "Some a = ctx" | (hit) "Some a \<noteq> ctx" ?ok | (up) "Some a \<noteq> ctx" "\<not> ?ok" by blast
  then show ?case
  proof cases
    case stop
    then have "\<not> nearest ts test ctx a x" unfolding nearest_def by blast
    with stop show ?thesis by (simp add: closest_loop.simps [of _ _ _ a])
  next
    case hit
    have "nearest ts test ctx a x \<longleftrightarrow> x = a"
      using hit 1(2) nearest_self [of ts test ctx a] unfolding nearest_def by blast
    with hit show ?thesis by (auto simp: closest_loop.simps [of _ _ _ a])
  next
    case up
    show ?thesis
    proof (cases "parentNode a")
      case None
      have "\<not> nearest ts test ctx a x"
        using up(2) root_prefix [OF None, of x] unfolding nearest_def by blast
      with up None show ?thesis by (auto simp: closest_loop.simps [of _ _ _ a])
    next
      case (Some p)
      have IH: "closest_loop ts test ctx p = Some x \<longleftrightarrow> nearest ts test ctx p x"
        using 1(1) [OF up(1) up(2) Some] parent_prefix [OF Some] by blast
      have "\<not> nearest ts test ctx p a"
        using up(2) unfolding nearest_def by blast
      moreover have "\<not> nearest ts test ctx a a" using up(2) nearest_self by blast
      ultimately have "nearest ts test ctx a x \<longleftrightarrow> nearest ts test ctx p x"
        using nearest_up [of a p x ctx ts test] Some up by blast
      with up Some IH show ?thesis by (auto simp: closest_loop.simps [of _ _ _ a])
    qed
  qed
qed

text \<open>
  C25. \<open>closest\<close> gives the nearest of each node and its ancestors that passes, once each and in document
  order; a positional selector gives nothing.
\<close>

theorem closest_nearest:
  assumes "\<forall>a \<in> set elements. in_tree ts r a"
  shows "closest detects (sortOrder ts [r] pref inp) ts elements positional selectors ctx =
    sorted_list_of_set {x. \<not> positional \<and> (\<exists>a \<in> set elements. nearest ts (closest_test ts selectors) ctx a x)}"
proof -
  define m where "m = (if positional then [] else List.map_filter (closest_loop ts (closest_test ts selectors) ctx) elements)"
  have ne: "a \<noteq> []" if "a \<in> set elements" for a using assms that by (auto simp: in_tree_def valid_def)
  have m: "set m = {x. \<not> positional \<and> (\<exists>a \<in> set elements. nearest ts (closest_test ts selectors) ctx a x)}"
    unfolding m_def using closest_loop_iff ne by (auto simp: List.map_filter_def image_iff) (metis option.sel)+
  have tree: "\<forall>x \<in> set m. valid ts x \<and> x ! 0 = r"
  proof
    fix x assume "x \<in> set m"
    then obtain a where a: "a \<in> set elements" "x \<noteq> []" "prefix x a" unfolding m nearest_def by blast
    then obtain q where "a = x @ q" by (auto simp: prefix_def)
    with a assms show "valid ts x \<and> x ! 0 = r"
      using valid_prefix [of ts x q] by (auto simp: in_tree_def nth_append)
  qed
  have "sorted_list_of_set (set m) = m" if "\<not> 1 < length m" using that by (cases m) auto
  with uniqueSort_in_tree [OF tree] show ?thesis
    unfolding m [symmetric] by (simp add: closest_def Let_def m_def)
qed

text \<open>The list above two items\<close>

theorem closest_nearest_witness:
  "[0, 0] \<in> set (closest True (sortOrder sample_doc [0] [0] None) sample_doc [[0, 0, 0], [0, 0, 1]] False
     (Inl (\<lambda>x. el_name (info_at sample_doc x) = lit ''ul'')) None)"
proof -
  let ?t = "\<lambda>x. el_name (info_at sample_doc x) = lit ''ul''" and ?es = "[[0, 0, 0], [0, 0, 1 :: nat]]"
  have t: "\<forall>a \<in> set ?es. in_tree sample_doc 0 a"
    "closest_loop sample_doc (closest_test sample_doc (Inl ?t)) None [0, 0, 0] = Some [0, 0]" by code_simp+
  have "nearest sample_doc (closest_test sample_doc (Inl ?t)) None [0, 0, 0] [0, 0]"
    using t(2) by (subst closest_loop_iff [symmetric]) simp_all
  moreover have "finite {x. \<not> False \<and> (\<exists>a \<in> set ?es. nearest sample_doc (closest_test sample_doc (Inl ?t)) None a x)}"
    by (rule finite_subset [of _ "\<Union>a \<in> set ?es. {x. nearest sample_doc (closest_test sample_doc (Inl ?t)) None a x}"])
      (auto simp: finite_nearest)
  ultimately show ?thesis
    unfolding closest_nearest [OF t(1), of True "[0]" None False "Inl ?t" None] by auto
qed

end
