(* ===== verification/JQ_Then.thy ===== *)
theory JQ_Then
  imports JS_Values
begin

text \<open>
  \<open>jquery-3.5.1.js\<close>, chained Deferreds: the function \<open>resolve\<close> inside \<open>then\<close>, which runs a handler and
  adopts what it returns, and \<open>jQuery.when\<close>. What a Deferred does once it is resolved or rejected is the
  subject of \<open>JQ_Deferred\<close>; here a Deferred has a result, which is set once.

  The state of a chain is that of one call of \<open>then\<close>: \<open>maxDepth\<close>, the result of \<open>newDefer\<close>, and the timers that
  will run \<open>process\<close>. An object with a method \<open>then\<close> is a number; \<open>thens\<close> says which of the functions that it is
  given such a method calls before it returns, with which arguments, and what it throws, when it is called at
  a depth (no depth occurs twice, so the object may have a state). Calls that it makes later are events. The results of processing are \<open>None\<close> when the fuel does not suffice: an object can resolve
  to itself for ever. Progress notifications are left out.
\<close>

section \<open>Values and results\<close>

text \<open>A value without a method \<open>then\<close>, an object that has one, and the promise of the new Deferred itself\<close>

datatype tval = Val jsval | Thenable nat | OwnPromise

datatype settlement = Unsettled | Fulfilled "tval list" | Refused "tval list"

datatype hres = Returned tval | Threw tval

datatype handler = Identity | Thrower | is_User: User "tval list \<Rightarrow> hres"

text \<open>A call of one of the two functions that a method \<open>then\<close> is given\<close>

datatype tcall = CallResolve "tval list" | CallReject "tval list"

record chain =
  maxDepth :: nat
  result :: settlement
  timers :: "(handler \<times> tval list) list"

definition first_arg :: "tval list \<Rightarrow> tval" where
  "first_arg as = (case as of [] \<Rightarrow> Val VUndef | a # _ \<Rightarrow> a)"

fun apply_handler :: "handler \<Rightarrow> tval list \<Rightarrow> hres" where
  "apply_handler Identity as = Returned (first_arg as)"
| "apply_handler Thrower as = Threw (first_arg as)"
| "apply_handler (User f) as = f as"

definition resolveWith :: "tval list \<Rightarrow> chain \<Rightarrow> chain" where
  "resolveWith as st = (if result st = Unsettled then st\<lparr>result := Fulfilled as\<rparr> else st)"

definition rejectWith :: "tval list \<Rightarrow> chain \<Rightarrow> chain" where
  "rejectWith as st = (if result st = Unsettled then st\<lparr>result := Refused as\<rparr> else st)"

section \<open>Processing\<close>

text \<open>The \<open>TypeError\<close> of a chain that resolves to itself\<close>

definition self_resolution :: tval where
  "self_resolution = Val (VObj 0 [(lit ''message'', VStr (lit ''Thenable self-resolution''))])"

text \<open>The branch \<open>catch ( e )\<close> of \<open>process\<close>\<close>

definition caught :: "nat \<Rightarrow> handler \<Rightarrow> tval list \<Rightarrow> tval \<Rightarrow> chain \<Rightarrow> chain" where
  "caught depth h as e st =
     (if depth + 1 \<ge> maxDepth st then rejectWith (case h of Thrower \<Rightarrow> as | _ \<Rightarrow> [e]) st else st)"

text \<open>The calls that a method \<open>then\<close> makes, in order; \<open>f\<close> is what the function of a handler does.\<close>

fun run_given :: "(handler \<Rightarrow> tval list \<Rightarrow> chain \<Rightarrow> chain option) \<Rightarrow> tcall list \<Rightarrow> chain \<Rightarrow> chain option" where
  "run_given f [] st = Some st"
| "run_given f (c # cs) st =
     (case (case c of CallResolve as \<Rightarrow> f Identity as st | CallReject as \<Rightarrow> f Thrower as st) of
        None \<Rightarrow> None
      | Some st1 \<Rightarrow> run_given f cs st1)"

primrec process :: "nat \<Rightarrow> (nat \<Rightarrow> nat \<Rightarrow> tcall list \<times> tval option) \<Rightarrow> nat \<Rightarrow> handler \<Rightarrow> tval list \<Rightarrow> chain \<Rightarrow> chain option" where
  "process 0 thens depth h as st = None"
| "process (Suc n) thens depth h as st =
     (if depth < maxDepth st then Some st
      else
        case apply_handler h as of
          Threw e \<Rightarrow> Some (caught depth h as e st)
        | Returned r \<Rightarrow>
            (case r of
               OwnPromise \<Rightarrow> Some (caught depth h as self_resolution st)
             | Val v \<Rightarrow> Some (resolveWith (case h of Identity \<Rightarrow> as | _ \<Rightarrow> [r]) st)
             | Thenable t \<Rightarrow>
                 (let st1 = st\<lparr>maxDepth := maxDepth st + 1\<rparr> in
                  case run_given (process n thens (maxDepth st1)) (fst (thens t (maxDepth st1))) st1 of
                    None \<Rightarrow> None
                  | Some st2 \<Rightarrow> Some (case snd (thens t (maxDepth st1)) of None \<Rightarrow> st2 | Some e \<Rightarrow> caught depth h as e st2))))"

section \<open>Events\<close>

text \<open>
  \<open>Fire\<close>: the handlers of the Deferred on which \<open>then\<close> was called fire, those for fulfilment or those for
  rejection. \<open>Tick\<close>: the first timer runs out. \<open>Later\<close>: a function that a method \<open>then\<close> was given at a depth
  is called.
\<close>

datatype cevent = Fire bool "tval list" | Tick | Later nat tcall

definition new_chain :: chain where
  "new_chain = \<lparr>maxDepth = 0, result = Unsettled, timers = []\<rparr>"

definition chain_step ::
  "nat \<Rightarrow> (nat \<Rightarrow> nat \<Rightarrow> tcall list \<times> tval option) \<Rightarrow> (tval list \<Rightarrow> hres) option \<Rightarrow> (tval list \<Rightarrow> hres) option \<Rightarrow> cevent \<Rightarrow> chain \<Rightarrow> chain option" where
  "chain_step n thens onFulfilled onRejected ev st =
     (case ev of
        Fire ok as \<Rightarrow>
          (let h = (if ok then (case onFulfilled of Some f \<Rightarrow> User f | None \<Rightarrow> Identity)
                    else (case onRejected of Some f \<Rightarrow> User f | None \<Rightarrow> Thrower))
           in Some (st\<lparr>timers := timers st @ [(h, as)]\<rparr>))
      | Tick \<Rightarrow>
          (case timers st of
             [] \<Rightarrow> Some st
           | (h, as) # ts \<Rightarrow> process n thens 0 h as (st\<lparr>timers := ts\<rparr>))
      | Later depth c \<Rightarrow>
          if depth = 0 \<or> maxDepth st < depth then Some st
          else (case c of CallResolve as \<Rightarrow> process n thens depth Identity as st | CallReject as \<Rightarrow> process n thens depth Thrower as st))"

fun chain_run ::
  "nat \<Rightarrow> (nat \<Rightarrow> nat \<Rightarrow> tcall list \<times> tval option) \<Rightarrow> (tval list \<Rightarrow> hres) option \<Rightarrow> (tval list \<Rightarrow> hres) option \<Rightarrow> cevent list \<Rightarrow> chain \<Rightarrow> chain option" where
  "chain_run n thens onFulfilled onRejected [] st = Some st"
| "chain_run n thens onFulfilled onRejected (ev # evs) st =
     (case chain_step n thens onFulfilled onRejected ev st of
        None \<Rightarrow> None
      | Some st1 \<Rightarrow> chain_run n thens onFulfilled onRejected evs st1)"

section \<open>The resolution procedure\<close>

text \<open>
  What Promises/A+ (2.2.7, 2.3) says of a handler: what it throws refuses the promise; a value fulfils it; of the
  calls that the method \<open>then\<close> of an object makes, the first one decides, and an exception counts only when
  there was no call. A substitute for a missing handler passes all values on.
\<close>

primrec resolution :: "nat \<Rightarrow> (nat \<Rightarrow> nat \<Rightarrow> tcall list \<times> tval option) \<Rightarrow> nat \<Rightarrow> handler \<Rightarrow> tval list \<Rightarrow> settlement option" where
  "resolution 0 thens depth h as = None"
| "resolution (Suc n) thens depth h as =
     (case apply_handler h as of
        Threw e \<Rightarrow> Some (Refused (case h of Thrower \<Rightarrow> as | _ \<Rightarrow> [e]))
      | Returned (Val v) \<Rightarrow> Some (Fulfilled (case h of Identity \<Rightarrow> as | _ \<Rightarrow> [Val v]))
      | Returned OwnPromise \<Rightarrow> Some (Refused [self_resolution])
      | Returned (Thenable t) \<Rightarrow>
          (case thens t (depth + 1) of
             (CallResolve bs # _, _) \<Rightarrow> resolution n thens (depth + 1) Identity bs
           | (CallReject bs # _, _) \<Rightarrow> resolution n thens (depth + 1) Thrower bs
           | ([], Some e) \<Rightarrow> Some (Refused [e])
           | ([], None) \<Rightarrow> Some Unsettled))"

definition later :: "chain \<Rightarrow> chain \<Rightarrow> bool" where
  "later st st' \<longleftrightarrow> maxDepth st \<le> maxDepth st' \<and> (result st \<noteq> Unsettled \<longrightarrow> result st' = result st)"

lemma later_refl: "later st st"
  by (simp add: later_def)

lemma later_trans: "later a b \<Longrightarrow> later b c \<Longrightarrow> later a c"
  by (auto simp: later_def)

lemma later_settle: "later st (resolveWith as st)" "later st (rejectWith as st)" "later st (caught depth h as e st)"
  by (simp_all add: later_def resolveWith_def rejectWith_def caught_def)

lemma run_given_later:
  "(\<And>h as s s'. f h as s = Some s' \<Longrightarrow> later s s') \<Longrightarrow> run_given f cs st = Some st' \<Longrightarrow> later st st'"
proof (induction cs arbitrary: st)
  case (Cons c cs)
  then obtain st1 where st1: "(case c of CallResolve as \<Rightarrow> f Identity as st | CallReject as \<Rightarrow> f Thrower as st) = Some st1"
    "run_given f cs st1 = Some st'" by (auto split: option.splits)
  from st1(1) have "later st st1" by (cases c) (auto intro: Cons.prems(1))
  moreover have "later st1 st'" using Cons.IH [OF Cons.prems(1) st1(2)] .
  ultimately show ?case by (rule later_trans)
qed (simp add: later_refl)

lemma process_later: "process n thens depth h as st = Some st' \<Longrightarrow> later st st'"
proof (induction n arbitrary: depth h as st st')
  case (Suc n)
  show ?case
  proof (cases "\<exists>t. \<not> depth < maxDepth st \<and> apply_handler h as = Returned (Thenable t)")
    case True
    then obtain t where t: "\<not> depth < maxDepth st" "apply_handler h as = Returned (Thenable t)" by blast
    let ?st1 = "st\<lparr>maxDepth := maxDepth st + 1\<rparr>"
    from Suc.prems t obtain st2 where st2: "run_given (process n thens (maxDepth ?st1)) (fst (thens t (maxDepth ?st1))) ?st1 = Some st2"
      "st' = (case snd (thens t (maxDepth ?st1)) of None \<Rightarrow> st2 | Some e \<Rightarrow> caught depth h as e st2)"
      by (auto simp: Let_def split: option.splits)
    have "later ?st1 st2" by (rule run_given_later [OF _ st2(1)]) (rule Suc.IH)
    moreover have "later st ?st1" by (simp add: later_def)
    ultimately have "later st st2" by (blast intro: later_trans)
    moreover have "later st2 st'" using st2(2) later_settle(3) later_refl by (simp split: option.splits)
    ultimately show ?thesis by (rule later_trans)
  next
    case False
    with Suc.prems show ?thesis
      by (auto simp: later_refl later_settle split: if_splits hres.splits tval.splits)
  qed
qed simp

lemma run_given_superseded:
  "depth < maxDepth st \<Longrightarrow> run_given (process n thens depth) cs st = Some st' \<Longrightarrow> st' = st"
proof (induction cs)
  case (Cons c cs)
  then show ?case by (cases n; cases c) (auto split: option.splits)
qed simp

text \<open>After the first call at a depth the result is settled or the depth is superseded.\<close>

lemma process_decides:
  "process n thens depth h as st = Some st' \<Longrightarrow> depth = maxDepth st \<Longrightarrow> result st' \<noteq> Unsettled \<or> depth < maxDepth st'"
proof (cases n)
  case (Suc m)
  assume p: "process n thens depth h as st = Some st'" and d: "depth = maxDepth st"
  show ?thesis
  proof (cases "\<exists>t. apply_handler h as = Returned (Thenable t)")
    case True
    then obtain t where t: "apply_handler h as = Returned (Thenable t)" by blast
    let ?st1 = "st\<lparr>maxDepth := maxDepth st + 1\<rparr>"
    from p Suc t d obtain st2 where st2: "run_given (process m thens (maxDepth ?st1)) (fst (thens t (maxDepth ?st1))) ?st1 = Some st2"
      "st' = (case snd (thens t (maxDepth ?st1)) of None \<Rightarrow> st2 | Some e \<Rightarrow> caught depth h as e st2)"
      by (auto simp: Let_def split: option.splits)
    have "later ?st1 st2" by (rule run_given_later [OF _ st2(1)]) (rule process_later)
    moreover have "later st2 st'" using st2(2) later_settle(3) later_refl by (simp split: option.splits)
    ultimately show ?thesis using d by (auto simp: later_def)
  next
    case False
    with p Suc d show ?thesis
      by (auto simp: caught_def resolveWith_def rejectWith_def split: hres.splits tval.splits if_splits)
  qed
qed simp

lemma run_given_settled:
  assumes "result st \<noteq> Unsettled \<or> depth < maxDepth st" "run_given (process n thens depth) cs st = Some st'"
  shows "result st' = result st \<and> maxDepth st \<le> maxDepth st'"
proof (cases "depth < maxDepth st")
  case True
  with run_given_superseded [OF True assms(2)] show ?thesis by simp
next
  case False
  have "later st st'" by (rule run_given_later [OF _ assms(2)]) (rule process_later)
  with False assms(1) show ?thesis by (auto simp: later_def)
qed

lemma process_resolution:
  "process n thens depth h as st = Some st' \<Longrightarrow> depth = maxDepth st \<Longrightarrow> result st = Unsettled \<Longrightarrow>
     resolution n thens depth h as = Some (result st')"
proof (induction n arbitrary: depth h as st st')
  case (Suc n)
  show ?case
  proof (cases "\<exists>t. apply_handler h as = Returned (Thenable t)")
    case True
    then obtain t where t: "apply_handler h as = Returned (Thenable t)" by blast
    then have h: "h \<noteq> Thrower" by auto
    let ?st1 = "st\<lparr>maxDepth := maxDepth st + 1\<rparr>"
    obtain calls thrown where th: "thens t (depth + 1) = (calls, thrown)" by fastforce
    from Suc.prems t th obtain st2 where st2: "run_given (process n thens (depth + 1)) calls ?st1 = Some st2"
      "st' = (case thrown of None \<Rightarrow> st2 | Some e \<Rightarrow> caught depth h as e st2)"
      by (auto simp: Let_def split: option.splits)
    show ?thesis
    proof (cases calls)
      case Nil
      with st2 t th h Suc.prems(2,3) show ?thesis
        by (auto simp: caught_def rejectWith_def split: option.splits handler.splits)
    next
      case (Cons c cs)
      obtain g bs where c: "(g, bs) = (case c of CallResolve bs \<Rightarrow> (Identity, bs) | CallReject bs \<Rightarrow> (Thrower, bs))"
        by (cases c) simp_all
      with st2(1) Cons obtain st3 where st3: "process n thens (depth + 1) g bs ?st1 = Some st3"
        "run_given (process n thens (depth + 1)) cs st3 = Some st2"
        by (cases c) (auto split: option.splits)
      have d: "depth + 1 = maxDepth ?st1" using Suc.prems(2) by simp
      have r: "resolution n thens (depth + 1) g bs = Some (result st3)"
        using Suc.IH [OF st3(1) d] Suc.prems(3) by simp
      have dec: "result st3 \<noteq> Unsettled \<or> depth + 1 < maxDepth st3" by (rule process_decides [OF st3(1) d])
      have e: "result st2 = result st3" "maxDepth st3 \<le> maxDepth st2" using run_given_settled [OF dec st3(2)] by auto
      then have "result st' = result st3"
        using st2(2) dec by (auto simp: caught_def rejectWith_def split: option.splits)
      moreover have "resolution (Suc n) thens depth h as = resolution n thens (depth + 1) g bs"
        using t th Cons c by (cases c) simp_all
      ultimately show ?thesis using r by simp
    qed
  next
    case False
    with Suc.prems show ?thesis
      by (auto simp: caught_def resolveWith_def rejectWith_def split: hres.splits tval.splits handler.splits if_splits)
  qed
qed simp

text \<open>
  Processing returns when the objects do not resolve in a circle: \<open>rank\<close> goes down along the objects
  that a method \<open>then\<close> resolves with.
\<close>

definition ranked :: "(nat \<Rightarrow> nat) \<Rightarrow> (nat \<Rightarrow> nat \<Rightarrow> tcall list \<times> tval option) \<Rightarrow> bool" where
  "ranked rank thens \<longleftrightarrow>
     (\<forall>t k bs t'. CallResolve bs \<in> set (fst (thens t k)) \<and> first_arg bs = Thenable t' \<longrightarrow> rank t' < rank t)"

lemma run_given_returns:
  "(\<And>c st. c \<in> set cs \<Longrightarrow> (case c of CallResolve as \<Rightarrow> f Identity as st | CallReject as \<Rightarrow> f Thrower as st) \<noteq> None) \<Longrightarrow>
   run_given f cs st \<noteq> None"
proof (induction cs arbitrary: st)
  case (Cons c cs)
  from Cons.prems [of c st] obtain st1 where "(case c of CallResolve as \<Rightarrow> f Identity as st | CallReject as \<Rightarrow> f Thrower as st) = Some st1"
    by auto
  with Cons.IH [of st1] Cons.prems show ?case by simp
qed simp

lemma process_returns:
  assumes "ranked rank thens"
  shows "(\<And>t. apply_handler h as = Returned (Thenable t) \<Longrightarrow> rank t < n) \<Longrightarrow> process (Suc n) thens depth h as st \<noteq> None"
proof (induction n arbitrary: depth h as st)
  case (Suc n)
  have run: "run_given (process (Suc n) thens k) (fst (thens t k)) st1 \<noteq> None" if t: "apply_handler h as = Returned (Thenable t)" for t k st1
  proof (rule run_given_returns)
    fix c st2
    assume c: "c \<in> set (fst (thens t k))"
    have "rank t' < n" if "CallResolve bs = c" "first_arg bs = Thenable t'" for bs t'
      using assms c that Suc.prems [OF t] unfolding ranked_def by fastforce
    then have "process (Suc n) thens k Identity bs st2 \<noteq> None" if "CallResolve bs = c" for bs
      using that by (intro Suc.IH) simp
    moreover have "process (Suc n) thens k Thrower bs st2 \<noteq> None" for bs by (intro Suc.IH) simp
    ultimately show "(case c of CallResolve bs \<Rightarrow> process (Suc n) thens k Identity bs st2
        | CallReject bs \<Rightarrow> process (Suc n) thens k Thrower bs st2) \<noteq> None"
      by (cases c) (simp_all del: process.simps not_None_eq)
  qed
  show ?case
  proof (cases "\<exists>t. apply_handler h as = Returned (Thenable t)")
    case True
    then obtain t where t: "apply_handler h as = Returned (Thenable t)" by blast
    let ?st1 = "st\<lparr>maxDepth := maxDepth st + 1\<rparr>"
    from run [OF t] obtain st2 where "run_given (process (Suc n) thens (maxDepth ?st1)) (fst (thens t (maxDepth ?st1))) ?st1 = Some st2"
      by blast
    with t show ?thesis by (subst process.simps) (simp add: Let_def del: process.simps)
  next
    case False
    then show ?thesis by (subst process.simps) (auto simp del: process.simps split: hres.splits tval.splits)
  qed
next
  case 0
  then show ?case by (auto split: hres.splits tval.splits)
qed

text \<open>
  C11. \<open>then\<close> implements the resolution procedure of Promises/A+: running a handler returns, when the objects that
  resolve with other objects do so without a circle, and settles the new Deferred as the procedure says.
\<close>

theorem then_resolution_procedure:
  assumes "ranked rank thens" "\<And>t. apply_handler h as = Returned (Thenable t) \<Longrightarrow> rank t < n"
    and "depth = maxDepth st" "result st = Unsettled"
  shows "\<exists>st'. process (Suc n) thens depth h as st = Some st' \<and> resolution (Suc n) thens depth h as = Some (result st')"
proof -
  obtain st' where "process (Suc n) thens depth h as st = Some st'"
    using process_returns [OF assms(1,2)] by blast
  with process_resolution [OF this assms(3,4)] show ?thesis by blast
qed

text \<open>A handler returns an object that resolves twice and then throws: the first value counts.\<close>

theorem then_resolution_procedure_witness:
  "\<exists>st'. process 2 (\<lambda>_ _. ([CallResolve [Val VNull], CallResolve [Val VUndef]], Some (Val VUndef))) 0
     (User (\<lambda>_. Returned (Thenable 0))) [] new_chain = Some st' \<and> result st' = Fulfilled [Val VNull]"
proof -
  let ?thens = "\<lambda>_ _. ([CallResolve [Val VNull], CallResolve [Val VUndef]], Some (Val VUndef))"
  have "ranked (\<lambda>_. 0) ?thens" by (auto simp: ranked_def first_arg_def)
  from then_resolution_procedure [OF this, of "User (\<lambda>_. Returned (Thenable 0))" "[]" 1 0 new_chain]
  have "\<exists>st'. process (Suc 1) ?thens 0 (User (\<lambda>_. Returned (Thenable 0))) [] new_chain = Some st' \<and>
      resolution (Suc 1) ?thens 0 (User (\<lambda>_. Returned (Thenable 0))) [] = Some (result st')"
    by (simp add: new_chain_def del: process.simps resolution.simps)
  then show ?thesis by (simp add: first_arg_def numeral_2_eq_2 eq_commute [of "Fulfilled _"] del: process.simps)
qed

section \<open>Runs of events\<close>

lemma chain_step_later: "chain_step n thens f g ev st = Some st' \<Longrightarrow> later st st'"
proof (cases ev)
  case Tick
  assume "chain_step n thens f g ev st = Some st'"
  with Tick show ?thesis
    using process_later [of n thens 0 _ _ "st\<lparr>timers := _\<rparr>" st']
    by (auto simp: chain_step_def later_refl later_def split: list.splits)
next
  case (Fire ok as)
  assume "chain_step n thens f g ev st = Some st'"
  with Fire show ?thesis by (auto simp: chain_step_def Let_def later_def)
next
  case (Later k c)
  assume "chain_step n thens f g ev st = Some st'"
  with Later show ?thesis by (cases c) (auto simp: chain_step_def later_refl intro: process_later split: if_splits)
qed

lemma chain_run_later: "chain_run n thens f g evs st = Some st' \<Longrightarrow> later st st'"
proof (induction evs arbitrary: st)
  case (Cons ev evs)
  then obtain st1 where "chain_step n thens f g ev st = Some st1" "chain_run n thens f g evs st1 = Some st'"
    by (auto split: option.splits)
  with Cons.IH chain_step_later show ?case by (blast intro: later_trans)
qed (simp add: later_refl)

text \<open>
  C17. Of the calls that an object makes of the functions it was given, at once or later, the first one wins: after
  it, and whatever happens then, no call of these functions changes the result. A result never changes.
\<close>

theorem first_call_wins:
  assumes "process n thens k h as st = Some st1" "k = maxDepth st" "chain_run m thens f g evs st1 = Some st2"
    and "process l thens k h' as' st2 = Some st3"
  shows "result st3 = result st2 \<and> (result st1 \<noteq> Unsettled \<longrightarrow> result st3 = result st1)"
proof -
  have 12: "later st1 st2" using assms(3) by (rule chain_run_later)
  have 23: "later st2 st3" using assms(4) by (rule process_later)
  have "result st1 \<noteq> Unsettled \<or> k < maxDepth st1" using assms(1,2) by (rule process_decides)
  moreover have "st3 = st2" if "k < maxDepth st1"
    using that 12 assms(4) by (cases l) (auto simp: later_def)
  ultimately show ?thesis using 12 23 by (auto simp: later_def)
qed

text \<open>The object calls back later, and once more after the result.\<close>

theorem first_call_wins_witness:
  "\<exists>st1 st2 st3. process 1 (\<lambda>_ _. ([], None)) 1 Identity [Val VNull] \<lparr>maxDepth = 1, result = Unsettled, timers = []\<rparr> = Some st1 \<and>
     chain_run 1 (\<lambda>_ _. ([], None)) None None [Tick] st1 = Some st2 \<and>
     process 1 (\<lambda>_ _. ([], None)) 1 Thrower [Val VUndef] st2 = Some st3 \<and> result st3 = Fulfilled [Val VNull]"
proof -
  let ?thens = "\<lambda>_ _. ([], None)"
  let ?st = "\<lparr>maxDepth = 1, result = Unsettled, timers = []\<rparr>" and ?st1 = "\<lparr>maxDepth = 1, result = Fulfilled [Val VNull], timers = []\<rparr>"
  have 1: "process 1 ?thens 1 Identity [Val VNull] ?st = Some ?st1" by (simp add: first_arg_def resolveWith_def)
  have 2: "chain_run 1 ?thens None None [Tick] ?st1 = Some ?st1" by (simp add: chain_step_def)
  have 3: "process 1 ?thens 1 Thrower [Val VUndef] ?st1 = Some (caught 1 Thrower [Val VUndef] (Val VUndef) ?st1)"
    by (simp add: first_arg_def)
  from first_call_wins [OF 1 _ 2 3] have "result (caught 1 Thrower [Val VUndef] (Val VUndef) ?st1) = Fulfilled [Val VNull]" by simp
  with 1 2 3 show ?thesis by blast
qed

text \<open>The handlers are asynchronous: without a timer nothing is settled, and no object is asked for its value.\<close>

lemma chain_waits:
  "Tick \<notin> set evs \<Longrightarrow> maxDepth st = 0 \<Longrightarrow> chain_run n thens f g evs st = Some st' \<Longrightarrow> result st' = result st \<and> maxDepth st' = 0"
proof (induction evs arbitrary: st)
  case (Cons ev evs)
  then obtain st1 where st1: "chain_step n thens f g ev st = Some st1" "chain_run n thens f g evs st1 = Some st'"
    by (auto split: option.splits)
  then have "result st1 = result st \<and> maxDepth st1 = 0"
    using Cons.prems(1,2) by (cases ev) (auto simp: chain_step_def Let_def split: if_splits)
  with Cons.IH [OF _ _ st1(2)] Cons.prems(1) show ?case by simp
qed simp

section \<open>\<open>jQuery.when\<close>\<close>

text \<open>
  The case of several arguments. \<open>resolveValues\<close> holds, for an argument that has resolved, its value or the array
  of its values. An argument is a value or an object; an object that is asked at once calls back the functions
  it is given as \<open>thens\<close> says, and later with further events.
\<close>

datatype wval = One tval | Several "tval list"

datatype wresult = WPending | WResolved "wval list" | WRejected "tval list"

record whens =
  remaining :: int
  resolveValues :: "wval list"
  master :: wresult

datatype warg = Direct jsval | Asked nat "tcall list" "tval option"

definition packed :: "tval list \<Rightarrow> wval" where
  "packed as = (if length as > 1 then Several as else One (first_arg as))"

definition updateFunc :: "nat \<Rightarrow> tval list \<Rightarrow> whens \<Rightarrow> whens" where
  "updateFunc i as st =
     (let vs = (resolveValues st)[i := packed as];
          st1 = st\<lparr>resolveValues := vs, remaining := remaining st - 1\<rparr>
      in if remaining st1 = 0 \<and> master st1 = WPending then st1\<lparr>master := WResolved vs\<rparr> else st1)"

definition master_reject :: "tval list \<Rightarrow> whens \<Rightarrow> whens" where
  "master_reject as st = (if master st = WPending then st\<lparr>master := WRejected as\<rparr> else st)"

fun when_call :: "whens \<Rightarrow> nat \<times> tcall \<Rightarrow> whens" where
  "when_call st (i, CallResolve as) = updateFunc i as st"
| "when_call st (i, CallReject as) = master_reject as st"

text \<open>\<open>adoptValue\<close>\<close>

definition adoptValue :: "nat \<Rightarrow> warg \<Rightarrow> whens \<Rightarrow> whens" where
  "adoptValue i a st =
     (case a of
        Direct v \<Rightarrow> when_call st (i, CallResolve [Val v])
      | Asked t calls thrown \<Rightarrow>
          (let st1 = foldl when_call st (map (Pair i) calls) in
           case thrown of Some e \<Rightarrow> when_call st1 (i, CallReject [e]) | None \<Rightarrow> st1))"

definition arg_value :: "warg \<Rightarrow> wval" where
  "arg_value a = (case a of Direct v \<Rightarrow> One (Val v) | Asked t _ _ \<Rightarrow> One (Thenable t))"

definition when_start :: "warg list \<Rightarrow> whens" where
  "when_start args =
     foldl (\<lambda>st i. adoptValue i (args ! i) st)
       \<lparr>remaining = int (length args), resolveValues = map arg_value args, master = WPending\<rparr> (rev [0..<length args])"

text \<open>The calls that the arguments make at once, in the order of the loop\<close>

definition asked :: "nat \<times> warg \<Rightarrow> (nat \<times> tcall) list" where
  "asked p =
     (case p of
        (i, Direct v) \<Rightarrow> [(i, CallResolve [Val v])]
      | (i, Asked t calls thrown) \<Rightarrow> map (Pair i) calls @ (case thrown of Some e \<Rightarrow> [(i, CallReject [e])] | None \<Rightarrow> []))"

definition at_once :: "warg list \<Rightarrow> (nat \<times> tcall) list" where
  "at_once args = concat (map (\<lambda>i. asked (i, args ! i)) (rev [0..<length args]))"

definition when_init :: "warg list \<Rightarrow> whens" where
  "when_init args = \<lparr>remaining = int (length args), resolveValues = map arg_value args, master = WPending\<rparr>"

lemma adoptValue_calls: "adoptValue i a st = foldl when_call st (asked (i, a))"
  by (cases a) (simp_all add: adoptValue_def asked_def Let_def split: option.splits)

lemma when_start_calls: "when_start args = foldl when_call (when_init args) (at_once args)"
proof -
  have "foldl (\<lambda>st i. adoptValue i (args ! i) st) st is = foldl when_call st (concat (map (\<lambda>i. asked (i, args ! i)) is))" for st "is"
    by (induction "is" arbitrary: st) (simp_all add: adoptValue_calls)
  then show ?thesis by (simp add: when_start_def when_init_def at_once_def)
qed

fun is_reject :: "nat \<times> tcall \<Rightarrow> bool" where
  "is_reject (i, CallReject as) = True"
| "is_reject (i, CallResolve as) = False"

fun call_args :: "tcall \<Rightarrow> tval list" where
  "call_args (CallReject as) = as"
| "call_args (CallResolve as) = as"

text \<open>What a list of calls, at most one for each of \<open>n\<close> arguments, means for all of them\<close>

definition all_of :: "nat \<Rightarrow> (nat \<times> tcall) list \<Rightarrow> wresult" where
  "all_of n hist =
     (case find is_reject hist of
        Some (i, c) \<Rightarrow> WRejected (call_args c)
      | None \<Rightarrow>
          if length hist = n then WResolved (map (\<lambda>i. packed (call_args (the (map_of hist i)))) [0..<n]) else WPending)"

definition value_at :: "warg list \<Rightarrow> (nat \<times> tcall) list \<Rightarrow> nat \<Rightarrow> wval" where
  "value_at args hist i = (case map_of hist i of Some (CallResolve as) \<Rightarrow> packed as | _ \<Rightarrow> arg_value (args ! i))"

lemma distinct_keys_length:
  assumes "distinct (map fst hist)" "\<forall>p \<in> set hist. fst p < n"
  shows "length hist \<le> n" "length hist = n \<Longrightarrow> i < n \<Longrightarrow> i \<in> fst ` set hist"
proof -
  have sub: "fst ` set hist \<subseteq> {..<n}" using assms(2) by auto
  have card: "card (fst ` set hist) = length hist" using distinct_card [OF assms(1)] by simp
  show "length hist \<le> n" using card_mono [OF _ sub] card by simp
  show "i \<in> fst ` set hist" if "length hist = n" "i < n"
    using card_subset_eq [OF _ sub] card that by auto
qed

abbreviation resolved_calls :: "(nat \<times> tcall) list \<Rightarrow> (nat \<times> tcall) list" where
  "resolved_calls hist \<equiv> filter (\<lambda>p. \<not> is_reject p) hist"

lemma find_snoc: "find P (xs @ [x]) = (case find P xs of Some y \<Rightarrow> Some y | None \<Rightarrow> if P x then Some x else None)"
  by (induction xs) auto

lemma find_reject_iff: "find is_reject hist = None \<longleftrightarrow> resolved_calls hist = hist"
  by (auto simp: find_None_iff filter_id_conv)

lemma map_of_snoc: "i \<notin> fst ` set hist \<Longrightarrow> map_of (hist @ [(i, c)]) j = (if j = i then Some c else map_of hist j)"
  using map_of_eq_None_iff [of hist i] by (auto simp: map_add_def split: option.splits)

lemma value_at_snoc:
  "i \<notin> fst ` set hist \<Longrightarrow> value_at args (hist @ [(i, c)]) =
     (value_at args hist)(i := (case c of CallResolve as \<Rightarrow> packed as | CallReject as \<Rightarrow> arg_value (args ! i)))"
  by (rule ext) (simp add: value_at_def map_of_snoc split: tcall.splits del: map_of_append)

lemma values_complete:
  assumes "distinct (map fst hist)" "\<forall>p \<in> set hist. fst p < n" "length hist = n" "find is_reject hist = None"
  shows "map (value_at args hist) [0..<n] = map (\<lambda>i. packed (call_args (the (map_of hist i)))) [0..<n]"
proof (rule map_cong)
  fix i assume "i \<in> set [0..<n]"
  then have "i \<in> fst ` set hist" using distinct_keys_length(2) [OF assms(1-3)] by simp
  then obtain c where c: "map_of hist i = Some c" by (metis map_of_eq_None_iff not_Some_eq)
  then have "\<not> is_reject (i, c)" using assms(4) map_of_SomeD by (fastforce simp: find_None_iff)
  with c show "value_at args hist i = packed (call_args (the (map_of hist i)))" by (cases c) (simp_all add: value_at_def)
qed simp

lemma when_inv:
  assumes "distinct (map fst hist)" "\<forall>p \<in> set hist. fst p < length args" "args \<noteq> []"
  shows "foldl when_call (when_init args) hist =
    \<lparr>remaining = int (length args) - int (length (resolved_calls hist)), resolveValues = map (value_at args hist) [0..<length args],
     master = all_of (length args) hist\<rparr>"
  using assms(1,2)
proof (induction hist rule: rev_induct)
  case Nil
  have "map (value_at args []) [0..<length args] = map arg_value args"
    by (rule nth_equalityI) (simp_all add: value_at_def)
  then show ?case using assms(3) by (simp add: when_init_def all_of_def)
next
  case (snoc p hist)
  let ?n = "length args"
  obtain i c where p: "p = (i, c)" by (cases p)
  have i: "i \<notin> fst ` set hist" "i < ?n" using snoc.prems p by auto
  have len: "length hist < ?n" using distinct_keys_length(1) [OF snoc.prems] by simp
  have IH: "foldl when_call (when_init args) hist =
    \<lparr>remaining = int ?n - int (length (resolved_calls hist)), resolveValues = map (value_at args hist) [0..<?n], master = all_of ?n hist\<rparr>"
    using snoc by simp
  have vs: "map (value_at args (hist @ [p])) [0..<?n] =
      (map (value_at args hist) [0..<?n])[i := (case c of CallResolve as \<Rightarrow> packed as | CallReject as \<Rightarrow> arg_value (args ! i))]"
    using i by (intro nth_equalityI) (simp_all add: p value_at_snoc nth_list_update)
  show ?case
  proof (cases c)
    case (CallReject as)
    have "value_at args hist i = arg_value (args ! i)" using i(1) map_of_eq_None_iff [of hist i] by (simp add: value_at_def)
    then have "map (value_at args (hist @ [p])) [0..<?n] = map (value_at args hist) [0..<?n]"
      unfolding vs using i(2) CallReject by (intro nth_equalityI) (auto simp: nth_list_update)
    moreover have "all_of ?n (hist @ [p]) = (if all_of ?n hist = WPending then WRejected as else all_of ?n hist)"
      using len p CallReject by (auto simp: all_of_def find_snoc split: option.splits)
    ultimately show ?thesis using IH p CallReject by (simp add: master_reject_def)
  next
    case (CallResolve as)
    have rej: "find is_reject (hist @ [p]) = find is_reject hist" using p CallResolve by (simp add: find_snoc split: option.splits)
    have cnt: "length (resolved_calls (hist @ [p])) = Suc (length (resolved_calls hist))" using p CallResolve by simp
    show ?thesis
    proof (cases "find is_reject hist = None \<and> length (hist @ [p]) = ?n")
      case True
      then have "resolved_calls hist = hist" by (simp add: find_reject_iff)
      moreover have "all_of ?n (hist @ [p]) = WResolved (map (value_at args (hist @ [p])) [0..<?n])"
        unfolding all_of_def values_complete [OF snoc.prems conjunct2 [OF True] rej [unfolded conjunct1 [OF True]]]
        using True rej by simp
      moreover have "all_of ?n hist = WPending" using True len by (simp add: all_of_def)
      ultimately show ?thesis
        using IH p CallResolve True vs by (simp add: updateFunc_def Let_def)
    next
      case False
      have "length (resolved_calls hist) < length hist" if "find is_reject hist \<noteq> None"
        using that find_reject_iff [of hist] by (metis filter_id_conv find_None_iff length_filter_less)
      then have "int ?n - int (length (resolved_calls hist)) - 1 \<noteq> 0"
        using False len length_filter_le [of "\<lambda>p. \<not> is_reject p" hist] find_reject_iff [of hist] by fastforce
      moreover have "all_of ?n (hist @ [p]) = all_of ?n hist"
        using False rej len by (auto simp: all_of_def split: option.splits)
      ultimately show ?thesis using IH p CallResolve vs by (simp add: updateFunc_def Let_def)
    qed
  qed
qed

text \<open>
  C16. \<open>jQuery.when\<close> of several arguments, each of which settles at most once, at once or later: it is rejected as the
  first of them that is; it is resolved when all have resolved, with their values in the order of the
  arguments; and it is pending until then.
\<close>

theorem when_aggregates:
  assumes "2 \<le> length args" "distinct (map fst (at_once args @ evs))" "\<forall>p \<in> set (at_once args @ evs). fst p < length args"
  shows "master (foldl when_call (when_start args) evs) = all_of (length args) (at_once args @ evs)"
proof -
  have "args \<noteq> []" using assms(1) by auto
  from when_inv [OF assms(2,3) this] show ?thesis by (simp add: when_start_calls)
qed

text \<open>A value and an object that resolves later\<close>

theorem when_aggregates_witness:
  "master (foldl when_call (when_start [Direct VNull, Asked 1 [] None]) [(1, CallResolve [Val VUndef])]) =
     WResolved [One (Val VNull), One (Val VUndef)]"
proof -
  let ?args = "[Direct VNull, Asked 1 [] None]" and ?evs = "[(1, CallResolve [Val VUndef])]"
  have h: "at_once ?args @ ?evs = [(0, CallResolve [Val VNull]), (1, CallResolve [Val VUndef])]"
    by (simp add: at_once_def asked_def upt_rec)
  have "master (foldl when_call (when_start ?args) ?evs) = all_of (length ?args) (at_once ?args @ ?evs)"
    by (rule when_aggregates) (simp_all only: h, simp_all)
  then show ?thesis unfolding h by (simp add: all_of_def packed_def first_arg_def upt_rec)
qed

text \<open>
  An object whose method \<open>then\<close> calls back twice counts as two arguments: here \<open>when\<close> is resolved although its
  second argument has not settled, with the object itself in the place of the value.
\<close>

lemma when_counts_twice:
  "master (foldl when_call (when_start [Asked 1 [] None, Asked 2 [] None]) [(0, CallResolve [Val VNull]), (0, CallResolve [Val VNull])]) =
     WResolved [One (Val VNull), One (Thenable 2)]"
  by (simp add: when_start_def adoptValue_def arg_value_def updateFunc_def packed_def first_arg_def upt_rec Let_def)

end
