(* ===== verification/Spec2Isabelle.thy ===== *)
theory Spec2Isabelle
  imports Searchtools Underscore_Arrays Underscore_Equal Underscore_Functions Underscore_Text
    JQ_Core JQ_Deferred JQ_Queue JQ_Attributes JQ_Request JQ_Trigger JQ_Sel_Tokens JQ_Traverse JQ_Then
begin

text \<open>
  Verification of the scripts of the documentation site, the JavaScript of the repository. The site
  is under \<open>src/doc/source/_build/html/_static/\<close>:

  \<^item> \<open>language_data.js\<close>: stop words, Porter stemmer and query splitter of the search;
  \<^item> \<open>searchtools.js\<close>: the \<open>Search\<close> object, which waits for the index, turns a query into stems with
    \<open>language_data.js\<close>, looks them up, and displays the results one by one;
  \<^item> \<open>doctools.js\<close>: query parameters, highlighting of the words of \<open>?highlight=..\<close> (the links that
    \<open>searchtools.js\<close> makes), translations, index togglers and the key handler;
  \<^item> \<open>underscore-1.13.1.js\<close> and \<open>jquery-3.5.1.js\<close>: the libraries the pages load.

  \<^bold>\<open>Values.\<close> A JavaScript string is a list of UTF-16 code units (\<open>jstr\<close>, \<open>Prelude\<close>), written \<open>lit\<close>
  for a literal; a value is a \<open>jsval\<close> (\<open>JS_Values\<close>) whose arrays, objects and functions carry an
  identity, so that \<open>===\<close> compares references. An object used as a table is a property store
  (\<open>obj_put\<close>, \<open>obj_get\<close>) in the order in which the engine enumerates it; names of
  \<open>Object.prototype\<close> are found in such a table where the code does not guard against them
  (\<open>object_proto\<close>). An exception is the \<open>Inl\<close> of a sum. \<open>JS_Regex\<close> gives regular expressions with
  the order of a backtracking matcher, \<open>JS_URI\<close> percent-encoding.

  \<^bold>\<open>Theories and sources.\<close>

  \<^item> \<open>Stemmer\<close>, \<open>Language_Data\<close>: \<open>language_data.js\<close>. The measure expressions decide Porter's
    measure; stems keep the first letter and never grow; \<open>splitQuery\<close> computes the maximal runs of
    word characters.
  \<^item> \<open>Query_Params\<close>, \<open>Doc_Highlight\<close>, \<open>Doctools\<close>: \<open>doctools.js\<close>. Highlighting keeps the text of the
    page and marks only the searched words; the key handler is safe; translations; the errors of
    the page initialisation.
  \<^item> \<open>Search_Terms\<close>, \<open>Searchtools\<close>: \<open>searchtools.js\<close>. The term search is conjunctive and takes the
    best score; a query displays every result, best first; a search is run exactly once, whenever
    the index arrives; the pulse; summaries.
  \<^item> \<open>Underscore_Core\<close>, \<open>Underscore_Arrays\<close>, \<open>Underscore_Equal\<close>, \<open>Underscore_Functions\<close>,
    \<open>Underscore_Text\<close>: \<open>underscore-1.13.1.js\<close>. Sorting is the stable sort, \<open>sortedIndex\<close> finds the
    insertion point, the set operations, shuffling, \<open>isEqual\<close> is structural equality, \<open>throttle\<close> and
    \<open>debounce\<close> as state machines over a clock, \<open>escape\<close> and \<open>unescape\<close>.
  \<^item> \<open>JQ_Core\<close> (types, array utilities, sets, \<open>extend\<close>), \<open>JQ_Callbacks\<close>, \<open>JQ_Deferred\<close>, \<open>JQ_Then\<close>, \<open>JQ_Data\<close>,
    \<open>JQ_Queue\<close>, \<open>JQ_Attributes\<close>, \<open>JQ_Namespace\<close>, \<open>JQ_Event\<close>,
    \<open>JQ_Dispatch\<close>, \<open>JQ_Trigger\<close>, \<open>JQ_Ajax\<close>, \<open>JQ_Request\<close>: \<open>jquery-3.5.1.js\<close>. A deep copy shares nothing with its
    source; callback lists keep their invariant under callbacks that operate on the lists while
    they fire; a Deferred settles once; \<open>then\<close> implements the resolution procedure of Promises/A+ and
    \<open>when\<close> waits for all its arguments; element data refine a map, the \<open>fx\<close> queue a
    first-in-first-out queue, event handlers a table of bindings; the order in which an event calls
    its handlers, and in which a triggered one calls those along its path before the default action; class names; responses are converted in a bounded number of steps; a
    request settles once and \<open>jQuery.active\<close> counts the requests that are under way; request headers
    refine a map.
  \<^item> \<open>JQ_Dom\<close>, \<open>JQ_Sel_Text\<close>, \<open>JQ_Sel_Filter\<close>, \<open>JQ_Sel_Match\<close>, \<open>JQ_Sel_Tokens\<close>: the selector engine of
    \<open>jquery-3.5.1.js\<close> (Sizzle) on a forest of nodes. \<open>JQ_Dom\<close>: document order, \<open>uniqueSort\<close>, \<open>contains\<close>.
    \<open>JQ_Sel_Text\<close>: \<open>Sizzle.escape\<close> is undone by the unescaping of identifiers. \<open>JQ_Sel_Filter\<close>:
    the filters and pseudos; the nth tests count siblings right, whatever is cached.
    \<open>JQ_Sel_Match\<close>: combinators, whose walks share cached results, and the compiled matcher, which
    selects what the selector means. \<open>JQ_Sel_Tokens\<close>: \<open>tokenize\<close> ends, its tokens spell the text, and
    the composition from the text to the selected elements.
  \<^item> \<open>JQ_Traverse\<close>: the traversal methods of \<open>jquery-3.5.1.js\<close> on sets of nodes, from \<open>parent\<close> to \<open>contents\<close>,
    \<open>closest\<close>, \<open>filter\<close> and \<open>is\<close>. Results are in document order, or its reverse, without repeats;
    \<open>closest\<close> finds the nearest ancestors.
  \<^item> This theory: what spans components, the round trip of a form through \<open>jQuery.param\<close> and
    \<open>getQueryParameters\<close>.

  \<^bold>\<open>Interfaces.\<close> \<open>dictionary\<close> (\<open>JS_Values\<close>) is what the clients of a property store rely on;
  \<open>query_splitter\<close> (\<open>Language_Data\<close>) what the search relies on, provided by \<open>splitQuery\<close> and by the
  fallback of \<open>searchtools.js\<close>; \<open>simulation\<close> (\<open>Prelude\<close>) the step-wise refinement of an abstract
  machine, used for element data, queues, event handlers and request headers; \<open>renaming\<close> (\<open>JQ_Event\<close>) what the
  handler table relies on of special events; \<open>comparator\<close> (\<open>Underscore_Core\<close>) what sorting relies
  on, for criteria, search results, names and the order of nodes; \<open>sel_filters\<close> (\<open>JQ_Sel_Match\<close>) what the
  compiled matcher relies on of the filters: that each decides a property of elements and keeps the
  caches right. Each is interpreted on the definitions of the model.

  \<^bold>\<open>Bounds and fuel.\<close> Loops of the source are structural recursion or have a measure. Fuel is used
  where the code can run for ever: while callbacks fire (\<open>JQ_Callbacks\<close>, \<open>JQ_Queue\<close>), since a
  callback may always add another one (\<open>fire_runs_callbacks\<close> gives a linear bound for callbacks
  that operate on no list), in \<open>ajaxConvert\<close>, where \<open>ajaxConvert_terminates\<close> gives the
  bound of twice the number of data types (there \<open>None\<close> means that the fuel did not suffice), in
  \<open>tokenize\<close>, which calls itself and for which the length of the text is enough (\<open>tokenize_ends\<close>),
  in the processing of thenables, which may resolve with each other for ever (without a circle their
  rank is enough, \<open>then_resolution_procedure\<close>), and in the walk over a page, where the
  depth of the tree is enough (\<open>highlight_fuel_enough\<close>).

  \<^bold>\<open>Parameters.\<close> What the browser and the language provide and the scripts only call:
  \<open>toLowerCase\<close>, layout boxes, answers to requests, \<open>JSON.parse\<close>, \<open>Math.random\<close>, the clock, and the
  functions that callers pass in.

  \<^bold>\<open>Not modelled.\<close> Fractional and very large numbers, property accessors and inherited enumerable
  properties; of \<open>underscore-1.13.1.js\<close> chaining, mixins, typed arrays, maps and sets, \<open>delay\<close>,
  \<open>defer\<close> and \<open>bindAll\<close>; of \<open>jquery-3.5.1.js\<close> the set matchers of the selector engine, \<open>:not\<close> and \<open>:has\<close>,
  its shortcuts through the methods of the browser, \<open>setDocument\<close>, the event controllers of focus and click, DOM
  manipulation, styles, effects, the transports, \<open>pipe\<close> and progress through \<open>then\<close>: these are mostly
  calls into the browser. The minified copies, the theme scripts and the generated search index
  hold no further logic.
\<close>

section \<open>Forms\<close>

text \<open>The form elements \<open>jQuery.param\<close> takes: anything that has a string name and a string value.\<close>

definition form_entry :: "jsval \<Rightarrow> jstr \<times> jstr \<Rightarrow> bool" where
  "form_entry x kv =
     (\<not> nullish x \<and> get_prop x (lit ''name'') = VStr (fst kv) \<and> get_prop x (lit ''value'') = VStr (snd kv))"

lemma param_add_str:
  "encodable k \<Longrightarrow> encodable v \<Longrightarrow> param_add call (VStr k) (VStr v) = Inr (enc k @ 61 # enc v)"
  by (auto simp: param_add_def encodable_def enc_def urlencode_def jq_isFunction_def lit_def nullish_def)

lemma add_form_entries:
  assumes "list_all2 form_entry xs kvs" "\<And>k v. (k, v) \<in> set kvs \<Longrightarrow> encodable k \<and> encodable v"
  shows "add_form call xs s = Inr (s @ map (\<lambda>(k, v). enc k @ 61 # enc v) kvs)"
  using assms
proof (induction arbitrary: s rule: list_all2_induct)
  case (Cons x xs kv kvs)
  obtain k v where kv: "kv = (k, v)" by (cases kv)
  with Cons.prems have "encodable k" "encodable v" by auto
  moreover have "add_form call xs (s @ [enc k @ 61 # enc v]) =
      Inr ((s @ [enc k @ 61 # enc v]) @ map (\<lambda>(k, v). enc k @ 61 # enc v) kvs)"
    using Cons.prems by (intro Cons.IH) auto
  ultimately show ?case using Cons.hyps(1) kv by (simp add: form_entry_def param_add_str)
qed simp

lemma jq_entries_arr: "jq_entries (VArr i xs) = Inr (map (\<lambda>i. (VInt (int i), xs ! i)) [0..<length xs])"
proof -
  have "\<not> index_key (lit ''window'')" by code_simp
  then have "jq_isArrayLike (VArr i xs) = Inr True"
    by (simp add: jq_isArrayLike_def array_like_length_def has_in_def jq_isFunction_def isWindow_def
        toType_def class2type_def isObject_def lit_def nullish_def)
  then show ?thesis by (simp add: jq_entries_def nth_or_undef_def)
qed

lemma param_form:
  assumes "list_all2 form_entry xs kvs" "\<And>k v. (k, v) \<in> set kvs \<Longrightarrow> encodable k \<and> encodable v"
  shows "map_sum id (\<lambda>q. 63 # q) (jq_param call (VArr i xs) traditional) = Inr (query_of kvs)"
proof -
  have "map snd (map (\<lambda>i. (VInt (int i), xs ! i)) [0..<length xs]) = xs"
    by (simp add: comp_def map_nth)
  with add_form_entries [OF assms, of call "[]"] show ?thesis
    by (simp add: jq_param_def nullish_def isArray_def tagTester_def jq_entries_arr query_of_def lit_def)
qed

text \<open>
  C3. A form that \<open>jQuery.param\<close> serialises and \<open>getQueryParameters\<close> reads back: for every non-empty
  array of form elements whose names and values can be encoded and whose names are not names of
  \<open>Object.prototype\<close>, \<open>jQuery.param\<close> succeeds, and the query string it gives maps each name to
  its values, in order, and knows no other key.
\<close>

theorem param_round_trip:
  assumes "list_all2 form_entry xs kvs" "kvs \<noteq> []"
    and "\<And>k v. (k, v) \<in> set kvs \<Longrightarrow> encodable k \<and> encodable v \<and> k \<notin> set object_proto"
  shows "\<exists>q r. jq_param call (VArr i xs) traditional = Inr q \<and>
    getQueryParameters here (Some (63 # q)) = Inr r \<and>
    (\<forall>k. obj_get r k = (if values_for kvs k = [] then None else Some (values_for kvs k)))"
proof -
  from param_form [OF assms(1), of call i traditional] assms(3) obtain q where
    "jq_param call (VArr i xs) traditional = Inr q" "63 # q = query_of kvs"
    by (cases "jq_param call (VArr i xs) traditional") auto
  with getQueryParameters_query_of [OF assms(2,3), of here] show ?thesis by simp
qed

theorem param_round_trip_witness:
  "\<exists>q r. jq_param (\<lambda>_. Inl TypeError)
     (VArr 0 [VObj 1 [(lit ''name'', VStr (lit ''q'')), (lit ''value'', VStr (lit ''a b''))],
              VObj 2 [(lit ''name'', VStr (lit ''q'')), (lit ''value'', VStr (lit ''c&d''))]]) False = Inr q \<and>
    getQueryParameters [] (Some (63 # q)) = Inr r \<and>
    obj_get r (lit ''q'') = Some [Some (lit ''a b''), Some (lit ''c&d'')]"
proof -
  let ?kvs = "[(lit ''q'', lit ''a b''), (lit ''q'', lit ''c&d'')]"
  let ?xs = "[VObj 1 [(lit ''name'', VStr (lit ''q'')), (lit ''value'', VStr (lit ''a b''))],
      VObj 2 [(lit ''name'', VStr (lit ''q'')), (lit ''value'', VStr (lit ''c&d''))]]"
  have e: "encodeURIComponent (lit ''q'') = Inr (lit ''q'')"
      "encodeURIComponent (lit ''a b'') = Inr (lit ''a%20b'')"
      "encodeURIComponent (lit ''c&d'') = Inr (lit ''c%26d'')"
    by code_simp+
  have enc: "encodable k \<and> encodable v \<and> k \<notin> set object_proto" if "(k, v) \<in> set ?kvs" for k v
    using that e by (auto simp: encodable_def urlencode_def units_def lit_def object_proto_def)
  have "list_all2 form_entry ?xs ?kvs" by code_simp
  from param_round_trip [OF this _ enc, of "\<lambda>_. Inl TypeError" 0 False "[]"] show ?thesis
    by (auto simp: values_for_def)
qed

end
